(* ===== verification/Prelude.thy ===== *)
theory Prelude
  imports Main "HOL-Library.Word"
begin

unbundle bit_operations_syntax

text \<open>
  Shared vocabulary of the development: Go's machine integers as words, the errors of
  package \<open>sevenzip\<close> as values (with \<open>Panic\<close> for a run-time panic such as an index
  out of range), the buffered byte reader that the header parser of \<open>types.go\<close> reads
  from, sequencing of parsers, and the collections of hints the component theories use.
\<close>

section \<open>Types and errors\<close>

type_synonym byte = "8 word"
type_synonym u16 = "16 word"
type_synonym u32 = "32 word"
type_synonym u64 = "64 word"

datatype sz_error =
    EOF | UnexpectedEOF | NoProgress | ErrTooLong
  | ErrIncompleteRead | ErrUnexpectedID | ErrMissingUnpackInfo
  | ErrWrongNumberOfFilenames | ErrUint64NonZero | ErrUint64TooLarge | ErrInvalidBindPair
  | ErrTodoExternal | ErrTodoStartPos | ErrTodoArchiveProperties | ErrTodoAdditionalStreamsInfo
  | ErrAlgorithm | ErrNeedOneReader | ErrMultipleOutputStreams | ErrNoBoundStream | ErrNoUnboundStream
  | ErrInvalidWhence | ErrNegativeSeek | ErrSeekBackwards | ErrSeekEOF
  | ErrOffset | ErrFormat | ErrChecksum | ErrTooMuch | ErrNegativeSize | ErrOneHeaderStream
  | ErrDecoder nat | ReadError bool sz_error
  | ErrAlreadyClosed | ErrInsufficientProperties | ErrInvalidProperties
  | Wrapped sz_error | Joined "sz_error list"
  | Panic

type_synonym 'a result = "sz_error + 'a"

named_theorems shrink_intros \<open>parsers that never lengthen the remaining input\<close>
named_theorems decode_simps \<open>decoding what an encoder wrote\<close>

section \<open>Byte readers\<close>

text \<open>
  A \<open>bufio.Reader\<close> over a section of the archive (\<open>Reader.init\<close> in \<open>reader.go\<close>):
  \<open>rbuf\<close> is what is buffered, \<open>rsrc\<close> what the section still holds. The buffer is refilled,
  4096 bytes at most, when it is empty. A \<open>bytes.Reader\<close> is the case of an empty \<open>rsrc\<close>.
\<close>

record reader =
  rbuf :: "byte list"
  rsrc :: "byte list"

definition bufSize :: nat where
  "bufSize = 4096"

definition content :: "reader \<Rightarrow> byte list" where
  "content r = rbuf r @ rsrc r"

definition newBufReader :: "byte list \<Rightarrow> reader" where
  "newBufReader bs = \<lparr>rbuf = [], rsrc = bs\<rparr>"

definition newBytesReader :: "byte list \<Rightarrow> reader" where
  "newBytesReader bs = \<lparr>rbuf = bs, rsrc = []\<rparr>"

type_synonym 'a parser = "reader \<Rightarrow> ('a \<times> reader) result"

definition readByte :: "byte parser" where
  "readByte r =
     (case rbuf r of
        b # bs \<Rightarrow> Inr (b, r\<lparr>rbuf := bs\<rparr>)
      | [] \<Rightarrow>
         (case take bufSize (rsrc r) of
            [] \<Rightarrow> Inl EOF
          | b # bs \<Rightarrow> Inr (b, \<lparr>rbuf = bs, rsrc = drop bufSize (rsrc r)\<rparr>)))"

text \<open>
  One call of \<open>Read\<close> with a slice of \<open>n\<close> bytes: it returns what is buffered, however short,
  refills an empty buffer first, and reads past the buffer when the slice is at least as long
  as the buffer.
\<close>

definition readSome :: "nat \<Rightarrow> byte list parser" where
  "readSome n r =
     (if n = 0 then Inr ([], r)
      else if rbuf r \<noteq> [] then Inr (take n (rbuf r), r\<lparr>rbuf := drop n (rbuf r)\<rparr>)
      else if rsrc r = [] then Inl EOF
      else if bufSize \<le> n then Inr (take n (rsrc r), r\<lparr>rsrc := drop n (rsrc r)\<rparr>)
      else Inr (take n (take bufSize (rsrc r)),
                \<lparr>rbuf = drop n (take bufSize (rsrc r)), rsrc = drop bufSize (rsrc r)\<rparr>))"

text \<open>
  Repeated \<open>Read\<close> calls of at most \<open>cap\<close> bytes each until \<open>n\<close> bytes are there or the
  reader is exhausted: the loop of \<open>io.ReadFull\<close> (\<open>cap = n\<close>), of \<open>io.CopyN\<close> into
  \<open>io.Discard\<close> (\<open>cap = 8192\<close>) and of a reader over an \<open>io.LimitReader\<close>.
\<close>

lemma readSome_progress:
  "readSome n r = Inr (bs, r') \<Longrightarrow> 0 < n \<Longrightarrow> bs \<noteq> [] \<and> length bs \<le> n"
  by (auto simp: readSome_def bufSize_def split: if_splits)

function readUpTo :: "nat \<Rightarrow> nat \<Rightarrow> reader \<Rightarrow> byte list \<times> reader" where
  "readUpTo cap n r =
     (if n = 0 \<or> cap = 0 then ([], r)
      else case readSome (min cap n) r of
             Inl e \<Rightarrow> ([], r)
           | Inr (bs, r') \<Rightarrow>
               (let (bs', r'') = readUpTo cap (n - length bs) r' in (bs @ bs', r'')))"
  by pat_completeness auto
termination
  by (relation "measure (\<lambda>(cap, n, r). n)") (auto dest: readSome_progress)

declare readUpTo.simps [simp del]

definition readFull :: "nat \<Rightarrow> byte list parser" where
  "readFull n r =
     (let (bs, r') = readUpTo n n r
      in if length bs = n then Inr (bs, r')
         else if bs = [] then Inl EOF else Inl UnexpectedEOF)"

section \<open>Sequencing\<close>

definition preturn :: "'a \<Rightarrow> 'a parser" where
  "preturn x r = Inr (x, r)"

definition pfail :: "sz_error \<Rightarrow> 'a parser" where
  "pfail e r = Inl e"

definition pbind :: "'a parser \<Rightarrow> ('a \<Rightarrow> 'b parser) \<Rightarrow> 'b parser" where
  "pbind p f r = (case p r of Inl e \<Rightarrow> Inl e | Inr (x, r') \<Rightarrow> f x r')"

text \<open>A Go function that returns only an \<open>error\<close> is an \<open>option\<close>; \<open>None\<close> is \<open>nil\<close>.\<close>

definition pcheck :: "sz_error option \<Rightarrow> unit parser" where
  "pcheck c = (case c of None \<Rightarrow> preturn () | Some e \<Rightarrow> pfail e)"

text \<open>\<open>for range n\<close> and \<open>for _, x := range xs\<close>, collecting the results.\<close>

fun prepeat :: "nat \<Rightarrow> 'a parser \<Rightarrow> 'a list parser" where
  "prepeat 0 p = preturn []"
| "prepeat (Suc n) p = pbind p (\<lambda>x. pbind (prepeat n p) (\<lambda>xs. preturn (x # xs)))"

fun ptraverse :: "('a \<Rightarrow> 'b parser) \<Rightarrow> 'a list \<Rightarrow> 'b list parser" where
  "ptraverse f [] = preturn []"
| "ptraverse f (x # xs) = pbind (f x) (\<lambda>y. pbind (ptraverse f xs) (\<lambda>ys. preturn (y # ys)))"

text \<open>Little-endian fixed-width integers (\<open>encoding/binary\<close>).\<close>

definition le32 :: "byte list \<Rightarrow> u32" where
  "le32 bs = foldr (\<lambda>b v. ucast b OR push_bit 8 v) bs 0"

definition le64 :: "byte list \<Rightarrow> u64" where
  "le64 bs = foldr (\<lambda>b v. ucast b OR push_bit 8 v) bs 0"

definition putUint32 :: "u32 \<Rightarrow> byte list" where
  "putUint32 v = map (\<lambda>i. ucast (drop_bit (8 * i) v)) [0, 1, 2, 3]"

definition putUint64 :: "u64 \<Rightarrow> byte list" where
  "putUint64 v = map (\<lambda>i. ucast (drop_bit (8 * i) v)) [0, 1, 2, 3, 4, 5, 6, 7]"

definition readUint32LE :: "u32 parser" where
  "readUint32LE = pbind (readFull 4) (\<lambda>bs. preturn (le32 bs))"

definition readUint64LE :: "u64 parser" where
  "readUint64LE = pbind (readFull 8) (\<lambda>bs. preturn (le64 bs))"

text \<open>
  Pure code that can fail, in particular by an index out of range, which is a panic.
\<close>

definition rbind :: "'a result \<Rightarrow> ('a \<Rightarrow> 'b result) \<Rightarrow> 'b result" where
  "rbind m f = (case m of Inl e \<Rightarrow> Inl e | Inr x \<Rightarrow> f x)"

definition idx :: "'a list \<Rightarrow> nat \<Rightarrow> 'a result" where
  "idx xs i = (if i < length xs then Inr (xs ! i) else Inl Panic)"

definition deref :: "'a option \<Rightarrow> 'a result" where
  "deref p = (case p of None \<Rightarrow> Inl Panic | Some x \<Rightarrow> Inr x)"

definition plift :: "'a result \<Rightarrow> 'a parser" where
  "plift m = (case m of Inl e \<Rightarrow> pfail e | Inr x \<Rightarrow> preturn x)"

section \<open>Laws of sequencing\<close>

lemma rbind_simps [simp]: "rbind (Inr x) f = f x" "rbind (Inl e) f = Inl e"
  by (simp_all add: rbind_def)

lemma rbind_InrE:
  assumes "rbind m f = Inr y"
  obtains x where "m = Inr x" and "f x = Inr y"
  using assms by (cases m) auto

lemma rbind_eq_Inl: "rbind m f = Inl e \<longleftrightarrow> m = Inl e \<or> (\<exists>x. m = Inr x \<and> f x = Inl e)"
  by (cases m) auto

lemma idx_simps [simp]:
  "i < length xs \<Longrightarrow> idx xs i = Inr (xs ! i)"
  "length xs \<le> i \<Longrightarrow> idx xs i = Inl Panic"
  by (simp_all add: idx_def)

lemma deref_simps [simp]: "deref None = Inl Panic" "deref (Some x) = Inr x"
  by (simp_all add: deref_def)

lemma plift_simps [simp]: "plift (Inr x) = preturn x" "plift (Inl e) = pfail e"
  by (simp_all add: plift_def)

lemma pbind_preturn [simp]: "pbind (preturn x) f = f x"
  by (rule ext) (simp add: pbind_def preturn_def)

lemma pbind_pfail [simp]: "pbind (pfail e) f = pfail e"
  by (rule ext) (simp add: pbind_def pfail_def)

lemma pcheck_simps [simp]: "pcheck None = preturn ()" "pcheck (Some e) = pfail e"
  by (simp_all add: pcheck_def)

lemma pbind_Inr: "p r = Inr (x, r') \<Longrightarrow> pbind p f r = f x r'"
  by (simp add: pbind_def)

lemma pbind_Inl: "p r = Inl e \<Longrightarrow> pbind p f r = Inl e"
  by (simp add: pbind_def)

lemma pbind_InrE:
  assumes "pbind p f r = Inr (y, r'')"
  obtains x r' where "p r = Inr (x, r')" and "f x r' = Inr (y, r'')"
  using assms by (auto simp: pbind_def split: sum.splits)

lemma pbind_assoc [simp]: "pbind (pbind p f) g = pbind p (\<lambda>x. pbind (f x) g)"
  by (rule ext) (auto simp: pbind_def split: sum.splits)

lemma preturn_Inr [simp]: "preturn x r = Inr (y, r') \<longleftrightarrow> y = x \<and> r' = r"
  by (auto simp: preturn_def)

lemma pfail_Inr [simp]: "pfail e r \<noteq> Inr y"
  by (simp add: pfail_def)

lemma prepeat_length: "prepeat n p r = Inr (xs, r') \<Longrightarrow> length xs = n"
  by (induction n arbitrary: xs r r') (auto elim!: pbind_InrE)

lemma ptraverse_length: "ptraverse f ys r = Inr (xs, r') \<Longrightarrow> length xs = length ys"
  by (induction ys arbitrary: xs r r') (auto elim!: pbind_InrE)

section \<open>Content of a reader\<close>

lemma content_simps [simp]:
  "content (newBufReader bs) = bs"
  "content (newBytesReader bs) = bs"
  by (simp_all add: content_def newBufReader_def newBytesReader_def)

lemma readByte_Inr:
  "readByte r = Inr (b, r') \<Longrightarrow> content r = b # content r'"
proof (cases "rbuf r")
  case Nil
  assume "readByte r = Inr (b, r')"
  with Nil obtain bs where "take bufSize (rsrc r) = b # bs"
    and r': "r' = \<lparr>rbuf = bs, rsrc = drop bufSize (rsrc r)\<rparr>"
    by (auto simp: readByte_def split: list.splits)
  with Nil show ?thesis
    using append_take_drop_id [of bufSize "rsrc r"] by (simp add: content_def)
qed (auto simp: readByte_def content_def split: list.splits)

lemma readByte_Inl: "readByte r = Inl e \<longleftrightarrow> content r = [] \<and> e = EOF"
  by (auto simp: readByte_def content_def bufSize_def take_eq_Nil split: list.splits)

lemma readByte_Nil: "content r = [] \<Longrightarrow> readByte r = Inl EOF"
  by (simp add: readByte_Inl)

lemma readByte_Cons:
  assumes "content r = b # bs"
  obtains r' where "readByte r = Inr (b, r')" and "content r' = bs"
proof (cases "readByte r")
  case (Inl e)
  with assms show ?thesis by (simp add: readByte_Inl)
next
  case (Inr y)
  with assms that show ?thesis
    by (cases y) (auto dest: readByte_Inr)
qed

lemma readSome_Inr:
  assumes "readSome n r = Inr (bs, r')"
  shows "content r = bs @ content r'"
proof (cases "n = 0 \<or> rbuf r \<noteq> [] \<or> bufSize \<le> n")
  case True
  with assms show ?thesis
    by (auto simp: readSome_def content_def split: if_splits)
next
  case False
  with assms have "bs = take n (take bufSize (rsrc r))"
    and "r' = \<lparr>rbuf = drop n (take bufSize (rsrc r)), rsrc = drop bufSize (rsrc r)\<rparr>"
    by (auto simp: readSome_def split: if_splits)
  with False show ?thesis
    by (simp only: content_def select_convs append_assoc [symmetric] append_take_drop_id) simp
qed

lemma readSome_Inl: "readSome n r = Inl e \<Longrightarrow> content r = [] \<and> e = EOF"
  by (auto simp: readSome_def content_def split: if_splits)

lemma readUpTo_0 [simp]: "readUpTo cap 0 r = ([], r)"
  by (simp add: readUpTo.simps)

lemma readUpTo_content:
  "readUpTo cap n r = (bs, r') \<Longrightarrow> 0 < cap \<Longrightarrow>
   bs = take n (content r) \<and> content r' = drop n (content r)"
proof (induction cap n r arbitrary: bs r' rule: readUpTo.induct)
  case (1 cap n r)
  show ?case
  proof (cases "n = 0")
    case True
    with "1.prems" show ?thesis by simp
  next
    case n: False
    show ?thesis
    proof (cases "readSome (min cap n) r")
      case (Inl e)
      with n "1.prems" show ?thesis
        by (auto simp: readUpTo.simps [of cap n] dest: readSome_Inl)
    next
      case (Inr y)
      obtain cs s where y: "y = (cs, s)" by (cases y)
      obtain ds t where rec: "readUpTo cap (n - length cs) s = (ds, t)"
        by (cases "readUpTo cap (n - length cs) s")
      have IH: "ds = take (n - length cs) (content s) \<and> content t = drop (n - length cs) (content s)"
        using "1.IH" [of "(cs, s)" cs s ds t] n Inr y "1.prems"(2) rec by simp
      have len: "length cs \<le> n"
        using readSome_progress [of "min cap n" r cs s] Inr y n "1.prems"(2) by simp
      have cnt: "content r = cs @ content s"
        using Inr y by (simp add: readSome_Inr)
      have "bs = cs @ ds" and "r' = t"
        using "1.prems" n Inr y rec by (simp_all add: readUpTo.simps [of cap n])
      with IH cnt len show ?thesis by simp
    qed
  qed
qed

section \<open>Parsers that never lengthen the input\<close>

definition shrinks :: "'a parser \<Rightarrow> bool" where
  "shrinks p \<longleftrightarrow> (\<forall>r x r'. p r = Inr (x, r') \<longrightarrow> length (content r') \<le> length (content r))"

lemma shrinksI:
  "(\<And>r x r'. p r = Inr (x, r') \<Longrightarrow> length (content r') \<le> length (content r)) \<Longrightarrow> shrinks p"
  by (simp add: shrinks_def)

lemma shrinksD: "shrinks p \<Longrightarrow> p r = Inr (x, r') \<Longrightarrow> length (content r') \<le> length (content r)"
  by (auto simp: shrinks_def)

lemma shrinks_preturn [shrink_intros]: "shrinks (preturn x)"
  by (simp add: shrinks_def)

lemma shrinks_pfail [shrink_intros]: "shrinks (pfail e)"
  by (simp add: shrinks_def)

lemma shrinks_pcheck [shrink_intros]: "shrinks (pcheck c)"
  by (cases c) (simp_all add: shrink_intros)

lemma shrinks_plift [shrink_intros]: "shrinks (plift m)"
  by (cases m) (simp_all add: shrink_intros)

lemma shrinks_pbind [shrink_intros]: "shrinks p \<Longrightarrow> (\<And>x. shrinks (f x)) \<Longrightarrow> shrinks (pbind p f)"
  by (rule shrinksI) (auto elim!: pbind_InrE dest!: shrinksD intro: order_trans)

lemma shrinks_if [shrink_intros]: "shrinks p \<Longrightarrow> shrinks q \<Longrightarrow> shrinks (if b then p else q)"
  by simp

lemma shrinks_let [shrink_intros]: "shrinks (f v) \<Longrightarrow> shrinks (let x = v in f x)"
  by simp

lemma shrinks_prepeat [shrink_intros]: "shrinks p \<Longrightarrow> shrinks (prepeat n p)"
  by (induction n) (auto intro!: shrink_intros)

lemma shrinks_ptraverse [shrink_intros]: "(\<And>x. shrinks (f x)) \<Longrightarrow> shrinks (ptraverse f xs)"
  by (induction xs) (auto intro!: shrink_intros)

lemma shrinks_readByte [shrink_intros]: "shrinks readByte"
  by (rule shrinksI) (simp add: readByte_Inr)

lemma shrinks_readSome [shrink_intros]: "shrinks (readSome n)"
  by (rule shrinksI) (simp add: readSome_Inr)

lemma length_readUpTo: "length (content (snd (readUpTo cap n r))) \<le> length (content r)"
proof (cases "cap = 0")
  case True
  then show ?thesis by (simp add: readUpTo.simps)
next
  case False
  then show ?thesis
    using readUpTo_content [of cap n r "fst (readUpTo cap n r)" "snd (readUpTo cap n r)"] by simp
qed

lemma shrinks_readFull [shrink_intros]: "shrinks (readFull n)"
proof (rule shrinksI)
  fix r x r'
  assume "readFull n r = Inr (x, r')"
  then have "r' = snd (readUpTo n n r)"
    by (auto simp: readFull_def split: prod.splits if_splits)
  then show "length (content r') \<le> length (content r)"
    by (simp add: length_readUpTo)
qed

lemma shrinks_readUint32LE [shrink_intros]: "shrinks readUint32LE"
  by (simp add: readUint32LE_def shrink_intros)

lemma shrinks_readUint64LE [shrink_intros]: "shrinks readUint64LE"
  by (simp add: readUint64LE_def shrink_intros)

section \<open>Decoding what was encoded\<close>

text \<open>
  \<open>feed bs r\<close> is a reader with \<open>bs\<close> in its buffer before all that \<open>r\<close> still has. An
  encoder and a parser fit together when the parser, on what the encoder wrote for \<open>x\<close>,
  returns \<open>norm x\<close> and leaves exactly what followed.
\<close>

definition feed :: "byte list \<Rightarrow> reader \<Rightarrow> reader" where
  "feed bs r = r\<lparr>rbuf := bs @ rbuf r\<rparr>"

lemma feed_Nil [decode_simps]: "feed [] r = r"
  by (simp add: feed_def)

lemma feed_append: "feed (xs @ ys) r = feed xs (feed ys r)"
  by (simp add: feed_def)

lemma feed_Cons: "feed (x # xs) r = feed [x] (feed xs r)"
  by (simp add: feed_def)

lemma content_feed [simp]: "content (feed bs r) = bs @ content r"
  by (simp add: feed_def content_def)

lemma newBytesReader_feed: "newBytesReader bs = feed bs (newBytesReader [])"
  by (simp add: newBytesReader_def feed_def)

lemma readByte_feed [decode_simps]: "readByte (feed (b # bs) r) = Inr (b, feed bs r)"
  by (simp add: readByte_def feed_def)

lemma pbind_readByte_feed [decode_simps]: "pbind readByte f (feed (b # bs) r) = f b (feed bs r)"
  by (simp add: pbind_Inr readByte_feed)

lemma preturn_feed [decode_simps]: "preturn x r = Inr (x, r)"
  by simp

lemma readSome_feed:
  "readSome (length bs) (feed bs r) = Inr (bs, r)"
  by (cases bs) (simp_all add: readSome_def feed_def)

lemma readUpTo_feed: "0 < cap \<Longrightarrow> readUpTo cap (length bs) (feed bs r) = (bs, r)"
proof (induction "length bs" arbitrary: bs rule: less_induct)
  case less
  show ?case
  proof (cases "bs = []")
    case True
    then show ?thesis by (simp add: feed_Nil)
  next
    case False
    have rd: "readSome (min cap (length bs)) (feed bs r)
        = Inr (take (min cap (length bs)) bs, feed (drop (min cap (length bs)) bs) r)"
      using False less.prems by (simp add: readSome_def feed_def)
    have IH: "readUpTo cap (length (drop (min cap (length bs)) bs))
        (feed (drop (min cap (length bs)) bs) r) = (drop (min cap (length bs)) bs, r)"
      using False less.prems by (intro less.hyps) simp_all
    show ?thesis
      using False less.prems rd IH
      by (simp add: readUpTo.simps [of cap "length bs"] min_def feed_Nil split: if_splits)
  qed
qed

lemma readFull_feed: "length bs = n \<Longrightarrow> readFull n (feed bs r) = Inr (bs, r)"
  by (cases "n = 0") (auto simp: readFull_def feed_Nil readUpTo_feed)

locale codec_view =
  fixes enc :: "'a \<Rightarrow> byte list"
    and dec :: "'b parser"
    and ok :: "'a \<Rightarrow> bool"
    and view :: "'a \<Rightarrow> 'b"
  assumes dec_enc: "ok x \<Longrightarrow> dec (feed (enc x) r) = Inr (view x, r)"
begin

lemma bind_enc: "ok x \<Longrightarrow> pbind dec f (feed (enc x @ bs) r) = f (view x) (feed bs r)"
  by (simp add: feed_append pbind_Inr dec_enc)

lemma bind_enc_only: "ok x \<Longrightarrow> pbind dec f (feed (enc x) r) = f (view x) r"
  by (simp add: pbind_Inr dec_enc)

lemma repeat_enc:
  "list_all ok xs \<Longrightarrow> prepeat (length xs) dec (feed (concat (map enc xs)) r) = Inr (map view xs, r)"
  by (induction xs) (simp_all add: feed_Nil bind_enc pbind_Inr)

lemma bind_repeat_enc:
  "list_all ok xs \<Longrightarrow> n = length xs \<Longrightarrow>
   pbind (prepeat n dec) f (feed (concat (map enc xs) @ bs) r) = f (map view xs) (feed bs r)"
  by (simp add: feed_append pbind_Inr repeat_enc)

lemma bind_repeat_enc_only:
  "list_all ok xs \<Longrightarrow> n = length xs \<Longrightarrow>
   pbind (prepeat n dec) f (feed (concat (map enc xs)) r) = f (map view xs) r"
  by (simp add: pbind_Inr repeat_enc)

end

locale codec = codec_view enc dec ok "\<lambda>x. x"
  for enc :: "'a \<Rightarrow> byte list" and dec :: "'a parser" and ok :: "'a \<Rightarrow> bool"
begin

lemma prefix_free:
  assumes "ok x" and "ok y" and "enc x @ bs = enc y @ cs"
  shows "x = y \<and> bs = cs"
proof -
  have "dec (feed (enc x @ bs) (newBytesReader [])) = Inr (x, feed bs (newBytesReader []))"
    and "dec (feed (enc y @ cs) (newBytesReader [])) = Inr (y, feed cs (newBytesReader []))"
    using assms(1,2) by (simp_all add: feed_append dec_enc)
  with assms(3) have "x = y" and "feed bs (newBytesReader []) = feed cs (newBytesReader [])"
    by simp_all
  then show ?thesis by (simp add: feed_def newBytesReader_def)
qed

lemma enc_inject: "ok x \<Longrightarrow> ok y \<Longrightarrow> enc x = enc y \<longleftrightarrow> x = y"
  using prefix_free [of x y "[]" "[]"] by auto

end

section \<open>Fixed-width integers\<close>

lemma length_putUint [simp]: "length (putUint32 v) = 4" "length (putUint64 w) = 8"
  by (simp_all add: putUint32_def putUint64_def)

lemma le_bytes_fold:
  fixes v :: "'a::len word"
  shows "foldr (\<lambda>b w. ucast b OR push_bit 8 w)
           (map (\<lambda>i. ucast (drop_bit (8 * i) v) :: byte) [k..<k + n]) 0
         = take_bit (8 * n) (drop_bit (8 * k) v)"
proof (induction n arbitrary: k)
  case 0
  show ?case by simp
next
  case (Suc n)
  have "[k..<k + Suc n] = k # [Suc k..<Suc k + n]"
    by (simp add: upt_conv_Cons)
  moreover have "ucast (ucast (drop_bit (8 * k) v) :: byte)
      OR push_bit 8 (take_bit (8 * n) (drop_bit (8 * Suc k) v))
      = take_bit (8 * Suc n) (drop_bit (8 * k) v)"
    by (rule bit_word_eqI) (auto simp: bit_simps algebra_simps)
  ultimately show ?case
    by (simp only: list.map foldr.simps comp_apply Suc.IH)
qed

lemma le32_put [simp]: "le32 (putUint32 v) = v"
  using le_bytes_fold [of v 0 4] by (simp add: le32_def putUint32_def upt_rec take_bit_word_eq_self)

lemma le64_put [simp]: "le64 (putUint64 v) = v"
  using le_bytes_fold [of v 0 8] by (simp add: le64_def putUint64_def upt_rec take_bit_word_eq_self)

text \<open>Four bytes and the word they are.\<close>

lemma bit_le32:
  assumes "length w = 4" and "n < 32"
  shows "bit (le32 w) n = bit (w ! (n div 8)) (n mod 8)"
proof -
  obtain a b c d where w: "w = [a, b, c, d]"
    using assms(1) by (auto simp: length_Suc_conv numeral_eq_Suc)
  have byte: "\<not> bit (x :: byte) m" if "8 \<le> m" for x m
    using that by (auto dest: bit_imp_le_length)
  consider "n < 8" | "8 \<le> n" "n < 16" | "16 \<le> n" "n < 24" | "24 \<le> n" by arith
  then show ?thesis
  proof cases
    case 1
    then show ?thesis using assms(2) by (simp add: w le32_def bit_simps)
  next
    case 2
    then have "n div 8 = 1" "n mod 8 = n - 8" by (simp_all add: div_nat_eqI le_mod_geq)
    with 2 assms(2) show ?thesis by (auto simp: w le32_def bit_simps byte)
  next
    case 3
    then have "n div 8 = 2" "n mod 8 = n - 16" by (simp_all add: div_nat_eqI le_mod_geq)
    with 3 assms(2) show ?thesis by (auto simp: w le32_def bit_simps byte)
  next
    case 4
    then have "n div 8 = 3" "n mod 8 = n - 24" using assms(2) by (simp_all add: div_nat_eqI le_mod_geq)
    with 4 assms(2) show ?thesis by (auto simp: w le32_def bit_simps byte)
  qed
qed

lemma put_le32:
  assumes "length w = 4"
  shows "putUint32 (le32 w) = w"
proof (rule nth_equalityI)
  fix i assume "i < length (putUint32 (le32 w))"
  then have i: "i < 4" by simp
  then have "i \<in> {0, 1, 2, 3}" by auto
  then have put: "putUint32 v ! i = ucast (drop_bit (8 * i) v)" for v
    by (auto simp: putUint32_def)
  show "putUint32 (le32 w) ! i = w ! i"
  proof (rule bit_word_eqI)
    fix n assume n: "n < LENGTH(8)"
    then have "(8 * i + n) div 8 = i" "(8 * i + n) mod 8 = n" by simp_all
    with n i assms show "bit (putUint32 (le32 w) ! i) n = bit (w ! i) n"
      using bit_le32 [of w "8 * i + n"] by (simp add: put bit_simps)
  qed
qed (use assms in simp)

interpretation byte_codec: codec "\<lambda>b. [b]" readByte "\<lambda>_. True"
  by unfold_locales (simp add: readByte_feed feed_Nil)

interpretation u32_codec: codec putUint32 readUint32LE "\<lambda>_. True"
  by unfold_locales (simp add: readUint32LE_def pbind_Inr readFull_feed)

interpretation u64_codec: codec putUint64 readUint64LE "\<lambda>_. True"
  by unfold_locales (simp add: readUint64LE_def pbind_Inr readFull_feed)

section \<open>Signed readings\<close>

lemma sint_of_nat: "n < 2 ^ 63 \<Longrightarrow> sint (of_nat n :: u64) = int n"
  by (simp add: signed_of_nat signed_take_bit_int_eq_self)

end
