(* ===== verification/Numbers.thy ===== *)
theory Numbers
  imports Prelude
begin

unbundle bit_operations_syntax

text \<open>
  The number encodings of the archive header: the readers at the top of \<open>types.go\<close>
  (\<open>checkUint64\<close> to \<open>readCRC\<close>) and the writers of \<open>write_types.go\<close>. A writer is the list
  of bytes it appends to its sink, which is always an in-memory \<open>bytes.Buffer\<close> and never
  fails. \<open>math.MaxInt\<close> is the 64-bit one.
\<close>

section \<open>Readers (types.go)\<close>

definition checkUint64 :: "u64 \<Rightarrow> bool \<Rightarrow> sz_error option" where
  "checkUint64 v nonZero =
     (if nonZero \<and> v = 0 then Some ErrUint64NonZero
      else if 0x7FFFFFFFFFFFFFFF < v \<or> 0xFFFFFFFF < v then Some ErrUint64TooLarge
      else None)"

text \<open>\<open>bits.LeadingZeros8\<close>.\<close>

definition leadingZeros8 :: "byte \<Rightarrow> nat" where
  "leadingZeros8 x = length (takeWhile (\<lambda>i. \<not> bit x i) [7, 6, 5, 4, 3, 2, 1, 0])"

fun readUint64Loop :: "nat \<Rightarrow> nat \<Rightarrow> u64 \<Rightarrow> u64 parser" where
  "readUint64Loop i 0 v = preturn v"
| "readUint64Loop i (Suc n) v =
     pbind readByte (\<lambda>b. readUint64Loop (Suc i) n (v OR push_bit (8 * i) (ucast b)))"

definition readUint64 :: "u64 parser" where
  "readUint64 =
     pbind readByte (\<lambda>b.
       let l = leadingZeros8 (NOT b);
           v = (if l < 7 then push_bit (8 * l) (ucast (b AND (push_bit (8 - l) 1 - 1))) else 0)
       in readUint64Loop 0 l v)"

definition readUint64Bounded :: "bool \<Rightarrow> u64 parser" where
  "readUint64Bounded nonZero =
     pbind readUint64 (\<lambda>v. pbind (pcheck (checkUint64 v nonZero)) (\<lambda>_. preturn v))"

fun readBoolLoop :: "nat \<Rightarrow> byte \<Rightarrow> byte \<Rightarrow> bool list parser" where
  "readBoolLoop 0 b msk = preturn []"
| "readBoolLoop (Suc n) b msk =
     (if msk = 0
      then pbind readByte (\<lambda>b'.
             pbind (readBoolLoop n b' (drop_bit 1 0x80)) (\<lambda>ds. preturn ((b' AND 0x80 \<noteq> 0) # ds)))
      else pbind (readBoolLoop n b (drop_bit 1 msk)) (\<lambda>ds. preturn ((b AND msk \<noteq> 0) # ds)))"

definition readBool :: "u64 \<Rightarrow> bool list parser" where
  "readBool count =
     pbind (pcheck (checkUint64 count True)) (\<lambda>_. readBoolLoop (unat count) 0 0)"

definition readOptionalBool :: "u64 \<Rightarrow> bool list parser" where
  "readOptionalBool count =
     pbind (pcheck (checkUint64 count True)) (\<lambda>_.
     pbind readByte (\<lambda>all.
       if all = 0 then readBool count
       else preturn (replicate (unat count) True)))"

definition readSizes :: "u64 \<Rightarrow> u64 list parser" where
  "readSizes count =
     pbind (pcheck (checkUint64 count True)) (\<lambda>_. prepeat (unat count) readUint64)"

text \<open>A value is read where \<open>defined\<close> holds; elsewhere the zero of the array stays.\<close>

definition readDefined :: "'a parser \<Rightarrow> 'a \<Rightarrow> bool list \<Rightarrow> 'a list parser" where
  "readDefined p zero defined =
     ptraverse (\<lambda>d. if d then p else preturn zero) defined"

definition readCRC :: "u64 \<Rightarrow> u32 list parser" where
  "readCRC count =
     pbind (pcheck (checkUint64 count True)) (\<lambda>_.
     pbind (readOptionalBool count) (\<lambda>defined.
     readDefined readUint32LE 0 defined))"

section \<open>Writers (write_types.go)\<close>

definition writeUint64 :: "u64 \<Rightarrow> byte list" where
  "writeUint64 v =
     (if v < 0x80 then [ucast v]
      else if v < 0x4000 then [ucast (drop_bit 8 v) OR 0x80, ucast v]
      else if v < 0x200000 then
        [ucast (drop_bit 16 v) OR 0xc0, ucast v, ucast (drop_bit 8 v)]
      else if v < 0x10000000 then
        [ucast (drop_bit 24 v) OR 0xe0, ucast v, ucast (drop_bit 8 v), ucast (drop_bit 16 v)]
      else if v < 0x800000000 then
        [ucast (drop_bit 32 v) OR 0xf0, ucast v, ucast (drop_bit 8 v), ucast (drop_bit 16 v),
         ucast (drop_bit 24 v)]
      else if v < 0x40000000000 then
        [ucast (drop_bit 40 v) OR 0xf8, ucast v, ucast (drop_bit 8 v), ucast (drop_bit 16 v),
         ucast (drop_bit 24 v), ucast (drop_bit 32 v)]
      else if v < 0x2000000000000 then
        [ucast (drop_bit 48 v) OR 0xfc, ucast v, ucast (drop_bit 8 v), ucast (drop_bit 16 v),
         ucast (drop_bit 24 v), ucast (drop_bit 32 v), ucast (drop_bit 40 v)]
      else if v < 0x100000000000000 then
        [ucast (drop_bit 56 v) OR 0xfe, ucast v, ucast (drop_bit 8 v), ucast (drop_bit 16 v),
         ucast (drop_bit 24 v), ucast (drop_bit 32 v), ucast (drop_bit 40 v), ucast (drop_bit 48 v)]
      else
        [0xff, ucast v, ucast (drop_bit 8 v), ucast (drop_bit 16 v), ucast (drop_bit 24 v),
         ucast (drop_bit 32 v), ucast (drop_bit 40 v), ucast (drop_bit 48 v),
         ucast (drop_bit 56 v)])"

fun writeBoolLoop :: "byte \<Rightarrow> byte \<Rightarrow> bool list \<Rightarrow> byte list" where
  "writeBoolLoop b msk [] = (if msk \<noteq> 0x80 then [b] else [])"
| "writeBoolLoop b msk (def # defined) =
     (let b' = (if def then b OR msk else b);
          msk' = drop_bit 1 msk
      in if msk' = 0 then b' # writeBoolLoop 0 0x80 defined
         else writeBoolLoop b' msk' defined)"

definition writeBool :: "bool list \<Rightarrow> byte list" where
  "writeBool defined = writeBoolLoop 0 0x80 defined"

definition writeOptionalBool :: "bool list \<Rightarrow> byte list" where
  "writeOptionalBool defined =
     (if list_all (\<lambda>d. d) defined then [1] else 0 # writeBool defined)"

definition writeSizes :: "u64 list \<Rightarrow> byte list" where
  "writeSizes sizes = concat (map writeUint64 sizes)"

text \<open>
  Values at the positions where \<open>defined\<close> holds; \<open>defined[i]\<close> panics when the mask is
  shorter than the values.
\<close>

definition writeDefined :: "('a \<Rightarrow> byte list) \<Rightarrow> 'a list \<Rightarrow> bool list \<Rightarrow> byte list" where
  "writeDefined enc xs defined = concat (map (\<lambda>(x, d). if d then enc x else []) (zip xs defined))"

definition writeCRC :: "u32 list \<Rightarrow> bool list \<Rightarrow> byte list result" where
  "writeCRC crcs defined =
     (if length defined < length crcs then Inl Panic
      else Inr (writeOptionalBool defined @ writeDefined putUint32 crcs defined))"

section \<open>What the readers consume\<close>

lemma shrinks_readUint64Loop [shrink_intros]: "shrinks (readUint64Loop i n v)"
  by (induction i n v rule: readUint64Loop.induct) (auto intro!: shrink_intros)

lemma shrinks_readUint64 [shrink_intros]: "shrinks readUint64"
  by (auto simp: readUint64_def Let_def intro!: shrink_intros)

lemma shrinks_readUint64Bounded [shrink_intros]: "shrinks (readUint64Bounded nz)"
  by (auto simp: readUint64Bounded_def intro!: shrink_intros)

lemma shrinks_readBoolLoop [shrink_intros]: "shrinks (readBoolLoop n b msk)"
  by (induction n b msk rule: readBoolLoop.induct) (auto intro!: shrink_intros)

lemma shrinks_readBool [shrink_intros]: "shrinks (readBool n)"
  by (auto simp: readBool_def intro!: shrink_intros)

lemma shrinks_readOptionalBool [shrink_intros]: "shrinks (readOptionalBool n)"
  by (auto simp: readOptionalBool_def intro!: shrink_intros)

lemma shrinks_readSizes [shrink_intros]: "shrinks (readSizes n)"
  by (auto simp: readSizes_def intro!: shrink_intros)

lemma shrinks_readDefined [shrink_intros]: "shrinks p \<Longrightarrow> shrinks (readDefined p z ds)"
  by (auto simp: readDefined_def intro!: shrink_intros)

lemma shrinks_readCRC [shrink_intros]: "shrinks (readCRC n)"
  by (auto simp: readCRC_def intro!: shrink_intros)

section \<open>Variable-length integers\<close>

lemma checkUint64_None:
  "checkUint64 v nz = None \<longleftrightarrow> (nz \<longrightarrow> v \<noteq> 0) \<and> v \<le> 0xFFFFFFFF"
  by (auto simp: checkUint64_def word_less_nat_alt word_le_nat_alt)

lemma readUint64Bounded_Inr:
  "readUint64Bounded nz r = Inr (v, r') \<longleftrightarrow>
   readUint64 r = Inr (v, r') \<and> checkUint64 v nz = None"
  by (auto simp: readUint64Bounded_def pbind_def pcheck_def preturn_def pfail_def
      split: sum.splits option.splits)

text \<open>
  The prefix of the first byte: \<open>n\<close> one bits, a zero bit, then the high bits of the value.
\<close>

lemma leadingZeros8_prefix:
  assumes "n \<le> 8" and "\<And>i. 8 - n \<le> i \<Longrightarrow> i < 8 \<Longrightarrow> bit b i" and "n < 8 \<Longrightarrow> \<not> bit b (7 - n)"
  shows "leadingZeros8 (NOT b) = n"
proof -
  have n: "n \<in> {0, 1, 2, 3, 4, 5, 6, 7, 8}" using assms(1) by auto
  show ?thesis
    using n assms(2) [of 0] assms(2) [of 1] assms(2) [of 2] assms(2) [of 3] assms(2) [of 4]
      assms(2) [of 5] assms(2) [of 6] assms(2) [of 7] assms(3)
    by (elim insertE) (simp_all add: leadingZeros8_def bit_simps)
qed

lemma readUint64_first:
  assumes "leadingZeros8 (NOT b) = n"
  shows "readUint64 (feed (b # bs) r) =
    readUint64Loop 0 n (if n < 7 then push_bit (8 * n) (ucast (b AND (push_bit (8 - n) 1 - 1))) else 0)
      (feed bs r)"
  using assms by (simp add: readUint64_def decode_simps Let_def)

lemma readUint64Loop_feed:
  "length bs = n \<Longrightarrow> readUint64Loop i n v (feed bs r)
     = Inr (v OR push_bit (8 * i) (foldr (\<lambda>b w. ucast b OR push_bit 8 w) bs 0), r)"
proof (induction bs arbitrary: i n v)
  case Nil
  then show ?case by (simp add: feed_Nil)
next
  case (Cons b bs)
  then show ?case
    by (auto simp: decode_simps push_bit_or push_bit_push_bit algebra_simps or.assoc)
qed

lemma bit_above_less:
  fixes v :: "'a::len word"
  assumes "unat v < 2 ^ k" and "k \<le> j"
  shows "\<not> bit v j"
proof -
  have "take_bit k (unat v) = unat v"
    using assms(1) by (simp add: take_bit_nat_eq_self)
  then have "\<not> bit (unat v) j"
    using assms(2) bit_take_bit_iff [of k "unat v" j] by simp
  then show ?thesis by (simp add: bit_simps)
qed

text \<open>The encoding with \<open>n\<close> bytes after the first one.\<close>

definition varBytes :: "nat \<Rightarrow> u64 \<Rightarrow> byte list" where
  "varBytes n v =
     (ucast (drop_bit (8 * n) v) OR NOT (mask (8 - n)))
     # map (\<lambda>i. ucast (drop_bit (8 * i) v)) [0..<n]"

lemma readUint64_varBytes:
  assumes n: "n \<le> 8" and v: "n < 8 \<Longrightarrow> unat v < 2 ^ (7 * n + 7)"
  shows "readUint64 (feed (varBytes n v) r) = Inr (v, r)"
proof -
  define b where "b = (ucast (drop_bit (8 * n) v) OR NOT (mask (8 - n)) :: byte)"
  have high: "\<not> bit v j" if "n < 8" "7 * n + 7 \<le> j" for j
    using bit_above_less [OF v] that by blast
  have l: "leadingZeros8 (NOT b) = n"
    by (rule leadingZeros8_prefix) (use n high [of "8 * n + (7 - n)"] in \<open>auto simp: b_def bit_simps\<close>)
  have fold: "foldr (\<lambda>b w. ucast b OR push_bit 8 w)
      (map (\<lambda>i. ucast (drop_bit (8 * i) v) :: byte) [0..<n]) 0 = take_bit (8 * n) v"
    using le_bytes_fold [of v 0 n] by simp
  have "(if n < 7 then push_bit (8 * n) (ucast (b AND (push_bit (8 - n) 1 - 1))) else 0)
      OR take_bit (8 * n) v = v" (is "?x OR _ = v")
  proof (rule bit_word_eqI)
    fix j assume j: "j < LENGTH(64)"
    have m: "push_bit (8 - n) 1 - 1 = (mask (8 - n) :: byte)"
      by (simp add: mask_eq_decr_exp push_bit_eq_mult)
    show "bit (?x OR take_bit (8 * n) v) j = bit v j"
    proof (cases "n < 7")
      case True
      with high [of j] have "bit v j \<longrightarrow> j < 7 * n + 7"
        by (force simp: not_less)
      with j True show ?thesis
        unfolding m b_def by (cases "bit v j") (auto simp: bit_simps)
    next
      case False
      with n consider "n = 7" | "n = 8" by linarith
      moreover from high [of j] have "n < 8 \<longrightarrow> bit v j \<longrightarrow> j < 7 * n + 7"
        by (force simp: not_less)
      ultimately show ?thesis
        using j by cases (auto simp: bit_simps)
    qed
  qed
  then show ?thesis
    unfolding varBytes_def b_def [symmetric]
    by (simp add: readUint64_first [OF l] readUint64Loop_feed fold)
qed

lemma writeUint64_varBytes:
  obtains n where "n \<le> 8" and "n < 8 \<Longrightarrow> unat v < 2 ^ (7 * n + 7)" and "writeUint64 v = varBytes n v"
proof -
  have upts: "[0..<2] = [0, 1::nat]" "[0..<3] = [0, 1, 2::nat]" "[0..<4] = [0, 1, 2, 3::nat]"
    "[0..<5] = [0, 1, 2, 3, 4::nat]" "[0..<6] = [0, 1, 2, 3, 4, 5::nat]"
    "[0..<7] = [0, 1, 2, 3, 4, 5, 6::nat]" "[0..<8] = [0, 1, 2, 3, 4, 5, 6, 7::nat]"
    by (simp_all add: upt_rec)
  have masks: "NOT (mask 8) = (0::byte)" "NOT (mask 7) = (0x80::byte)"
    "NOT (mask 6) = (0xc0::byte)" "NOT (mask 5) = (0xe0::byte)" "NOT (mask 4) = (0xf0::byte)"
    "NOT (mask 3) = (0xf8::byte)" "NOT (mask 2) = (0xfc::byte)" "- 2 = (0xfe::byte)"
    by (simp_all add: mask_eq_exp_minus_1)
  have top: "ucast (drop_bit 64 v) OR 0xff = (0xff::byte)"
    by (simp add: drop_bit_word_beyond)
  consider (0) "v < 0x80" | (1) "\<not> v < 0x80" "v < 0x4000" | (2) "\<not> v < 0x4000" "v < 0x200000"
    | (3) "\<not> v < 0x200000" "v < 0x10000000" | (4) "\<not> v < 0x10000000" "v < 0x800000000"
    | (5) "\<not> v < 0x800000000" "v < 0x40000000000"
    | (6) "\<not> v < 0x40000000000" "v < 0x2000000000000"
    | (7) "\<not> v < 0x2000000000000" "v < 0x100000000000000" | (8) "\<not> v < 0x100000000000000"
    by blast
  then show thesis
  proof cases
    case 0
    then show thesis
      by (intro that [of 0]) (auto simp: word_less_nat_alt writeUint64_def varBytes_def masks)
  next
    case 1
    then show thesis
      by (intro that [of 1]) (auto simp: word_less_nat_alt writeUint64_def varBytes_def masks)
  next
    case 2
    then show thesis
      by (intro that [of 2]) (auto simp: word_less_nat_alt writeUint64_def varBytes_def masks upts)
  next
    case 3
    then show thesis
      by (intro that [of 3]) (auto simp: word_less_nat_alt writeUint64_def varBytes_def masks upts)
  next
    case 4
    then show thesis
      by (intro that [of 4]) (auto simp: word_less_nat_alt writeUint64_def varBytes_def masks upts)
  next
    case 5
    then show thesis
      by (intro that [of 5]) (auto simp: word_less_nat_alt writeUint64_def varBytes_def masks upts)
  next
    case 6
    then show thesis
      by (intro that [of 6]) (auto simp: word_less_nat_alt writeUint64_def varBytes_def masks upts)
  next
    case 7
    then show thesis
      by (intro that [of 7]) (auto simp: word_less_nat_alt writeUint64_def varBytes_def masks upts)
  next
    case 8
    then show thesis
      by (intro that [of 8]) (auto simp: word_less_nat_alt writeUint64_def varBytes_def upts top)
  qed
qed

lemma readUint64_writeUint64: "readUint64 (feed (writeUint64 v) r) = Inr (v, r)"
proof -
  obtain n where "n \<le> 8" "n < 8 \<Longrightarrow> unat v < 2 ^ (7 * n + 7)" "writeUint64 v = varBytes n v"
    using writeUint64_varBytes [of v] by blast
  then show ?thesis using readUint64_varBytes [of n v r] by simp
qed

interpretation varint: codec writeUint64 readUint64 "\<lambda>_. True"
  by unfold_locales (rule readUint64_writeUint64)

interpretation varint_bounded: codec writeUint64 "readUint64Bounded nz" "\<lambda>v. checkUint64 v nz = None"
  for nz
  by unfold_locales (simp add: readUint64Bounded_Inr readUint64_writeUint64)

lemma length_writeUint64: "1 \<le> length (writeUint64 v) \<and> length (writeUint64 v) \<le> 9"
  by (simp add: writeUint64_def)

section \<open>Packed booleans\<close>

lemma bit_and_push: "(b AND push_bit j 1 \<noteq> (0::byte)) \<longleftrightarrow> j < 8 \<and> bit b j"
  by (auto simp: push_bit_of_1 and_exp_eq_0_iff_not_bit dest: bit_imp_le_length)

lemma push_bit_byte_0: "push_bit j 1 = (0::byte) \<longleftrightarrow> 8 \<le> j"
  by (simp add: push_bit_of_1 exp_eq_zero_iff)

lemma drop_push: "drop_bit 1 (push_bit j 1 :: byte) = (if j = 0 \<or> 8 \<le> j then 0 else push_bit (j - 1) 1)"
  by (rule bit_word_eqI) (auto simp: bit_simps)

lemma mask_top: "(0x80::byte) = push_bit 7 1"
  by simp

lemma drop_bit_not_top: "drop_bit (Suc 0) (m::byte) \<noteq> 0x80"
proof
  assume "drop_bit (Suc 0) m = 0x80"
  then have "bit (drop_bit (Suc 0) m) 7 = bit (0x80::byte) 7" by simp
  then show False by (auto simp: bit_simps dest: bit_imp_le_length)
qed

lemma writeBoolLoop_nonempty: "ds \<noteq> [] \<or> msk \<noteq> 0x80 \<Longrightarrow> writeBoolLoop b msk ds \<noteq> []"
  by (induction ds arbitrary: b msk) (auto simp: Let_def drop_bit_not_top)

lemma readBoolLoop_next: "0 < n \<Longrightarrow> readBoolLoop n b 0 (feed (b' # bs) r) = readBoolLoop n b' 0x80 (feed bs r)"
  by (cases n) (simp_all add: decode_simps)

lemma readBoolLoop_writeBoolLoop:
  assumes "j < 8" and "\<And>i. i \<le> j \<Longrightarrow> \<not> bit b i"
    and "writeBoolLoop b (push_bit j 1) ds = B # bs"
  shows "(\<forall>i > j. bit B i = bit b i) \<and>
    readBoolLoop (length ds) B (push_bit j 1) (feed bs r) = Inr (ds, r)"
  using assms
proof (induction ds arbitrary: b j B bs)
  case Nil
  then show ?case by (auto simp: feed_Nil split: if_splits)
next
  case (Cons d ds)
  define b' where "b' = (if d then b OR push_bit j 1 else b)"
  have b': "bit b' i = (if i = j then d else bit b i)" for i
    using Cons.prems(1,2) by (auto simp: b'_def bit_simps)
  show ?case
  proof (cases "j = 0")
    case True
    with Cons.prems(3) have B: "B = b'" and bs: "bs = writeBoolLoop 0 0x80 ds"
      by (auto simp: b'_def Let_def)
    have "readBoolLoop (length ds) b' 0 (feed bs r) = Inr (ds, r)"
    proof (cases ds)
      case Nil
      with bs show ?thesis by (simp add: feed_Nil)
    next
      case (Cons d' ds')
      then have "ds \<noteq> []" by simp
      then have "bs \<noteq> []"
        unfolding bs using writeBoolLoop_nonempty [of ds "0x80" 0] by blast
      then obtain B' cs where bs': "bs = B' # cs"
        by (cases bs) auto
      then have "readBoolLoop (length ds) B' (push_bit 7 1) (feed cs r) = Inr (ds, r)"
        using Cons.IH [of 7 0 B' cs] bs by (simp flip: mask_top)
      then show ?thesis
        using Cons bs' readBoolLoop_next [of "length ds" b' B' cs r] by (simp flip: mask_top)
    qed
    with True B b' [of 0] b' show ?thesis
      using bit_and_push [of b' 0] by (simp add: pbind_Inr)
  next
    case False
    then have dp: "drop_bit 1 (push_bit j 1 :: byte) = push_bit (j - 1) 1"
      and nz: "push_bit (j - 1) 1 \<noteq> (0::byte)" "push_bit j 1 \<noteq> (0::byte)"
      using Cons.prems(1) by (simp_all only: drop_push push_bit_byte_0) auto
    then have "writeBoolLoop b' (push_bit (j - 1) 1) ds = B # bs"
      using Cons.prems(3) by (simp only: writeBoolLoop.simps Let_def b'_def if_False)
    with False Cons.prems(1,2) have IH: "(\<forall>i > j - 1. bit B i = bit b' i) \<and>
        readBoolLoop (length ds) B (push_bit (j - 1) 1) (feed bs r) = Inr (ds, r)"
      by (intro Cons.IH) (auto simp: b')
    then have "\<forall>i > j. bit B i = bit b i" and "bit B j = d"
      using False b' by auto
    moreover have "readBoolLoop (length (d # ds)) B (push_bit j 1) (feed bs r) = Inr (bit B j # ds, r)"
      using IH nz dp Cons.prems(1) bit_and_push [of B j]
      by (simp only: list.size add_Suc_right add_0_right readBoolLoop.simps if_False) (simp add: pbind_Inr)
    ultimately show ?thesis by simp
  qed
qed

lemma readBool_writeBool:
  assumes "length ds = unat n" and "checkUint64 n True = None"
  shows "readBool n (feed (writeBool ds) r) = Inr (ds, r)"
proof -
  have "ds \<noteq> []"
    using assms by (auto simp: checkUint64_None unat_eq_zero)
  then obtain B bs where w: "writeBoolLoop 0 0x80 ds = B # bs"
    using writeBoolLoop_nonempty [of ds "0x80" 0] by (cases "writeBoolLoop 0 0x80 ds") auto
  then have "readBoolLoop (length ds) B (push_bit 7 1) (feed bs r) = Inr (ds, r)"
    using readBoolLoop_writeBoolLoop [of 7 0 ds B bs r] by (simp flip: mask_top)
  moreover have "0 < unat n"
    using \<open>ds \<noteq> []\<close> assms(1) by (metis length_greater_0_conv)
  ultimately show ?thesis
    using w assms readBoolLoop_next [of "length ds" 0 B bs r]
    by (auto simp: readBool_def writeBool_def)
qed

interpretation bools: codec writeBool "readBool n"
  "\<lambda>ds. length ds = unat n \<and> checkUint64 n True = None" for n
  by unfold_locales (simp add: readBool_writeBool)

lemma readOptionalBool_write:
  assumes "length ds = unat n" and "checkUint64 n True = None"
  shows "readOptionalBool n (feed (writeOptionalBool ds) r) = Inr (ds, r)"
proof (cases "list_all (\<lambda>d. d) ds")
  case True
  then have "ds = replicate (unat n) True"
    using assms(1) by (auto simp: list_all_iff intro: replicate_eqI)
  with True assms show ?thesis
    by (simp add: readOptionalBool_def writeOptionalBool_def decode_simps)
next
  case False
  with assms show ?thesis
    by (simp add: readOptionalBool_def writeOptionalBool_def decode_simps readBool_writeBool)
qed

interpretation optional_bools: codec writeOptionalBool "readOptionalBool n"
  "\<lambda>ds. length ds = unat n \<and> checkUint64 n True = None" for n
  by unfold_locales (simp add: readOptionalBool_write)

section \<open>Arrays with undefined entries\<close>

lemma readDefined_length: "readDefined p z ds r = Inr (xs, r') \<Longrightarrow> length xs = length ds"
  by (simp add: readDefined_def ptraverse_length)

text \<open>
  Entries that are not defined come back as the zero value; the writers leave out exactly
  those that are zero already.
\<close>

context codec
begin

lemma read_defined:
  assumes "list_all2 (\<lambda>x d. if d then ok x else x = z) xs ds"
  shows "readDefined dec z ds (feed (writeDefined enc xs ds) r) = Inr (xs, r)"
  using assms
  by (induction xs ds rule: list_all2_induct)
    (auto simp: readDefined_def writeDefined_def feed_Nil bind_enc pbind_Inr split: if_splits)

lemma bind_read_defined:
  assumes "list_all2 (\<lambda>x d. if d then ok x else x = z) xs ds"
  shows "pbind (readDefined dec z ds) f (feed (writeDefined enc xs ds @ bs) r) = f xs (feed bs r)"
  by (simp add: feed_append pbind_Inr read_defined assms)

end

lemma readSizes_writeSizes:
  assumes "length vs = unat n" and "checkUint64 n True = None"
  shows "readSizes n (feed (writeSizes vs) r) = Inr (vs, r)"
proof -
  have "list_all (\<lambda>_. True) vs" by (simp add: list_all_iff)
  from varint.repeat_enc [OF this, of r] assms show ?thesis
    by (simp add: readSizes_def writeSizes_def)
qed

interpretation sizes: codec writeSizes "readSizes n"
  "\<lambda>vs. length vs = unat n \<and> checkUint64 n True = None" for n
  by unfold_locales (simp add: readSizes_writeSizes)

lemma readCRC_writeCRC:
  assumes "writeCRC cs ds = Inr bs" and "length cs = unat n" and "length ds = unat n"
    and "checkUint64 n True = None" and "list_all2 (\<lambda>c d. d \<or> c = 0) cs ds"
  shows "readCRC n (feed bs r) = Inr (cs, r)"
proof -
  have bs: "bs = writeOptionalBool ds @ writeDefined putUint32 cs ds"
    using assms(1) by (auto simp: writeCRC_def split: if_splits)
  have "list_all2 (\<lambda>c d. if d then True else c = 0) cs ds"
    using assms(5) by (auto elim!: list_all2_mono)
  then show ?thesis
    using assms by (simp add: bs readCRC_def optional_bools.bind_enc u32_codec.read_defined)
qed

text \<open>The digests of the archive header are all defined.\<close>

definition crcBytes :: "u32 list \<Rightarrow> byte list" where
  "crcBytes cs = writeOptionalBool (replicate (length cs) True)
     @ writeDefined putUint32 cs (replicate (length cs) True)"

lemma writeCRC_all: "writeCRC cs (replicate (length cs) True) = Inr (crcBytes cs)"
  by (simp add: writeCRC_def crcBytes_def)

interpretation digests: codec crcBytes "readCRC n"
  "\<lambda>cs. length cs = unat n \<and> checkUint64 n True = None" for n
  by unfold_locales
    (auto intro!: readCRC_writeCRC [OF writeCRC_all] simp: list_all2_conv_all_nth)

section \<open>Lengths\<close>

lemma length_writeBoolLoop:
  "j < 8 \<Longrightarrow> length (writeBoolLoop b (push_bit j 1) ds) = (length ds + (7 - j) + 7) div 8"
proof (induction ds arbitrary: b j)
  case Nil
  have "push_bit j 1 = (0x80::byte) \<longleftrightarrow> j = 7"
  proof
    assume "push_bit j 1 = (0x80::byte)"
    then have "bit (push_bit j 1 :: byte) 7 = bit (0x80::byte) 7" by simp
    with Nil show "j = 7" by (simp add: bit_simps)
  qed simp
  with Nil show ?case by auto
next
  case (Cons d ds)
  show ?case
  proof (cases "j = 0")
    case True
    with Cons.IH [of 7 0] show ?thesis
      by (simp add: Let_def flip: mask_top)
  next
    case False
    then have "drop_bit 1 (push_bit j 1 :: byte) = push_bit (j - 1) 1"
      and "push_bit (j - 1) 1 \<noteq> (0::byte)"
      using Cons.prems by (simp_all only: drop_push push_bit_byte_0) auto
    with False Cons.prems Cons.IH [of "j - 1"] show ?thesis
      by (simp only: writeBoolLoop.simps Let_def if_False) simp
  qed
qed

lemma length_writeBool: "length (writeBool ds) = (length ds + 7) div 8"
  using length_writeBoolLoop [of 7 0 ds] by (simp add: writeBool_def)

section \<open>Properties\<close>

text \<open>
A 64-bit number written by \<open>writeUint64\<close> takes one to nine bytes, is read back by
\<open>readUint64\<close> whatever follows, and the bytes behind it are left in place.
\<close>

lemma uint64_roundtrip:
  "readUint64 (feed (writeUint64 v @ bs) r) = Inr (v, feed bs r)
   \<and> 1 \<le> length (writeUint64 v) \<and> length (writeUint64 v) \<le> 9"
  using length_writeUint64 [of v] by (simp add: varint.dec_enc feed_append)

end
