(* ===== verification/Structs.thy ===== *)
theory Structs
  imports Prelude
begin

unbundle bit_operations_syntax

text \<open>
  The data of \<open>struct.go\<close>: the structures of an archive header and the computations over
  them (bind pairs, unpacked sizes, the folder, size and checksum of the n-th file, the
  offset of a folder's packed streams) and the file mode of a \<open>FileHeader\<close>. A nil pointer
  is \<open>None\<close>; a nil slice and an empty one are both \<open>[]\<close>.
\<close>

section \<open>Structures\<close>

record packInfo =
  pi_position :: u64
  pi_streams :: u64
  pi_size :: "u64 list"
  pi_digest :: "u32 list"

record coder =
  co_id :: "byte list"
  co_in :: u64
  co_out :: u64
  co_properties :: "byte list"

record bindPair =
  bp_in :: u64
  bp_out :: u64

record folder =
  fo_in :: u64
  fo_out :: u64
  fo_packedStreams :: u64
  fo_coder :: "coder list"
  fo_bindPair :: "bindPair list"
  fo_size :: "u64 list"
  fo_packed :: "u64 list"

record unpackInfo =
  ui_folder :: "folder list"
  ui_digest :: "u32 list"

record subStreamsInfo =
  ss_streams :: "u64 list"
  ss_size :: "u64 list"
  ss_digest :: "u32 list"

record streamsInfo =
  si_packInfo :: "packInfo option"
  si_unpackInfo :: "unpackInfo option"
  si_subStreamsInfo :: "subStreamsInfo option"

text \<open>
  A Go string is its bytes. A \<open>time.Time\<close> is the instant in nanoseconds since the Unix
  epoch; the zero time is midnight of January 1, year 1.
\<close>

type_synonym gostring = "byte list"
type_synonym time = int

definition zeroTime :: time where
  "zeroTime = - 62135596800 * 1000000000"

record fileHeader =
  fh_Name :: gostring
  fh_Created :: time
  fh_Accessed :: time
  fh_Modified :: time
  fh_Attributes :: u32
  fh_CRC32 :: u32
  fh_UncompressedSize :: u64
  fh_Stream :: nat
  fh_isEmptyStream :: bool
  fh_isEmptyFile :: bool

record filesInfo =
  fi_file :: "fileHeader list"

record header =
  hd_streamsInfo :: "streamsInfo option"
  hd_filesInfo :: "filesInfo option"

definition zeroFileHeader :: fileHeader where
  "zeroFileHeader =
     \<lparr>fh_Name = [], fh_Created = zeroTime, fh_Accessed = zeroTime, fh_Modified = zeroTime,
      fh_Attributes = 0, fh_CRC32 = 0, fh_UncompressedSize = 0, fh_Stream = 0,
      fh_isEmptyStream = False, fh_isEmptyFile = False\<rparr>"

section \<open>Folders and streams\<close>

definition findInBindPair :: "folder \<Rightarrow> u64 \<Rightarrow> bindPair option" where
  "findInBindPair f i = find (\<lambda>v. bp_in v = i) (fo_bindPair f)"

definition findOutBindPair :: "folder \<Rightarrow> u64 \<Rightarrow> bindPair option" where
  "findOutBindPair f i = find (\<lambda>v. bp_out v = i) (fo_bindPair f)"

text \<open>The size of the last output that no bind pair consumes.\<close>

definition unpackSize :: "folder \<Rightarrow> u64" where
  "unpackSize f =
     (if fo_size f = [] then 0
      else case find (\<lambda>i. findOutBindPair f (of_nat i) = None) (rev [0..<length (fo_size f)]) of
             Some i \<Rightarrow> fo_size f ! i
           | None \<Rightarrow> last (fo_size f))"

definition Folders :: "streamsInfo option \<Rightarrow> nat" where
  "Folders si =
     (case si of None \<Rightarrow> 0
      | Some s \<Rightarrow> (case si_unpackInfo s of None \<Rightarrow> 0 | Some u \<Rightarrow> length (ui_folder u)))"

text \<open>
  The loop \<open>for folder, streams = range ...\<close> of \<open>FileFolderAndSize\<close>: it stops at the folder
  in which the running total first exceeds \<open>file\<close> and otherwise leaves the last pair.
\<close>

fun scanStreams :: "nat \<Rightarrow> u64 \<Rightarrow> u64 \<Rightarrow> nat \<times> u64 \<Rightarrow> u64 list \<Rightarrow> nat \<times> u64" where
  "scanStreams i tot file acc [] = acc"
| "scanStreams i tot file acc (s # ss) =
     (if file < tot + s then (i, s) else scanStreams (Suc i) (tot + s) file (i, s) ss)"

definition FileFolderAndSize :: "streamsInfo \<Rightarrow> nat \<Rightarrow> (nat \<times> u64 \<times> u32) result" where
  "FileFolderAndSize si file =
     (let (folder, streams) =
        (case si_subStreamsInfo si of None \<Rightarrow> (0, 1)
         | Some s \<Rightarrow> scanStreams 0 0 (of_nat file) (0, 1) (ss_streams s))
      in
      rbind (case si_subStreamsInfo si of None \<Rightarrow> Inr 0
             | Some s \<Rightarrow> if 0 < length (ss_digest s) then idx (ss_digest s) file else Inr 0) (\<lambda>crc.
      if streams = 1 then
        rbind (deref (si_unpackInfo si)) (\<lambda>u.
        rbind (if 0 < length (ui_digest u) then idx (ui_digest u) folder else Inr crc) (\<lambda>crc.
        rbind (idx (ui_folder u) folder) (\<lambda>f.
        rbind (if fo_coder f = [] then Inl Panic
               else idx (fo_size f) (length (fo_coder f) - 1)) (\<lambda>size.
        Inr (folder, size, crc)))))
      else
        rbind (deref (si_subStreamsInfo si)) (\<lambda>s.
        rbind (idx (ss_size s) file) (\<lambda>size.
        Inr (folder, size, crc)))))"

fun addSizes :: "u64 list \<Rightarrow> nat list \<Rightarrow> u64 \<Rightarrow> u64 result" where
  "addSizes sizes [] offset = Inr offset"
| "addSizes sizes (j # js) offset =
     rbind (idx sizes j) (\<lambda>s. addSizes sizes js (offset + s))"

fun folderOffsetLoop :: "u64 list \<Rightarrow> folder list \<Rightarrow> u64 \<Rightarrow> u64 \<Rightarrow> u64 result" where
  "folderOffsetLoop sizes [] k offset = Inr offset"
| "folderOffsetLoop sizes (f # fs) k offset =
     rbind (addSizes sizes [unat k..<unat (k + fo_packedStreams f)] offset) (\<lambda>offset.
     folderOffsetLoop sizes fs (k + fo_packedStreams f) offset)"

text \<open>\<open>int64\<close> of an unsigned value is its two's complement reading.\<close>

definition folderOffset :: "streamsInfo \<Rightarrow> nat \<Rightarrow> int result" where
  "folderOffset si folder =
     (if folder = 0 then rbind (deref (si_packInfo si)) (\<lambda>p. Inr (sint (pi_position p + 0)))
      else
        rbind (deref (si_unpackInfo si)) (\<lambda>u.
        rbind (deref (si_packInfo si)) (\<lambda>p.
        if length (ui_folder u) < folder then Inl Panic
        else
        rbind (folderOffsetLoop (pi_size p) (take folder (ui_folder u)) 0 0) (\<lambda>offset.
        Inr (sint (pi_position p + offset))))))"

section \<open>File modes\<close>

type_synonym fileMode = u32

abbreviation (input) ModeDir :: fileMode where "ModeDir \<equiv> 0x80000000"
abbreviation (input) ModeSymlink :: fileMode where "ModeSymlink \<equiv> 0x08000000"
abbreviation (input) ModeDevice :: fileMode where "ModeDevice \<equiv> 0x04000000"
abbreviation (input) ModeNamedPipe :: fileMode where "ModeNamedPipe \<equiv> 0x02000000"
abbreviation (input) ModeSocket :: fileMode where "ModeSocket \<equiv> 0x01000000"
abbreviation (input) ModeSetuid :: fileMode where "ModeSetuid \<equiv> 0x00800000"
abbreviation (input) ModeSetgid :: fileMode where "ModeSetgid \<equiv> 0x00400000"
abbreviation (input) ModeCharDevice :: fileMode where "ModeCharDevice \<equiv> 0x00200000"
abbreviation (input) ModeSticky :: fileMode where "ModeSticky \<equiv> 0x00100000"

definition modeIsDir :: "fileMode \<Rightarrow> bool" where
  "modeIsDir m \<longleftrightarrow> m AND ModeDir \<noteq> 0"

definition msdosModeToFileMode :: "u32 \<Rightarrow> fileMode" where
  "msdosModeToFileMode m =
     (let mode = (if m AND 0x10 \<noteq> 0 then ModeDir OR 0x1FF else 0x1B6)
      in if m AND 0x01 \<noteq> 0 then mode AND NOT 0x92 else mode)"

definition unixModeToFileMode :: "u32 \<Rightarrow> fileMode" where
  "unixModeToFileMode m =
     (let mode = m AND 0x1FF;
          t = m AND 0xf000;
          mode =
            (if t = 0x6000 then mode OR ModeDevice
             else if t = 0x2000 then mode OR (ModeDevice OR ModeCharDevice)
             else if t = 0x4000 then mode OR ModeDir
             else if t = 0x1000 then mode OR ModeNamedPipe
             else if t = 0xa000 then mode OR ModeSymlink
             else if t = 0x8000 then mode
             else if t = 0xc000 then mode OR ModeSocket
             else mode);
          mode = (if m AND 0x400 \<noteq> 0 then mode OR ModeSetgid else mode);
          mode = (if m AND 0x800 \<noteq> 0 then mode OR ModeSetuid else mode)
      in if m AND 0x200 \<noteq> 0 then mode OR ModeSticky else mode)"

definition slash :: byte where
  "slash = 0x2F"

definition Mode :: "fileHeader \<Rightarrow> fileMode" where
  "Mode h =
     (let mode = (if fh_Attributes h AND 0xf0000000 \<noteq> 0
                  then unixModeToFileMode (drop_bit 16 (fh_Attributes h))
                  else msdosModeToFileMode (fh_Attributes h))
      in if 0 < length (fh_Name h) \<and> last (fh_Name h) = slash then mode OR ModeDir else mode)"

end
