(* ===== verification/Header_Read.thy ===== *)
theory Header_Read
  imports Numbers Structs
begin

unbundle bit_operations_syntax

text \<open>
  The header parser: \<open>readPackInfo\<close> to \<open>readEncodedHeader\<close> of \<open>types.go\<close>, one definition
  per function. Code outside the repository that the parser calls is collected in
  \<open>externals\<close>: the UTF-16LE decoder of \<open>golang.org/x/text\<close> (bytes of a stream to bytes of
  the UTF-8 string) and \<open>Filetime.Nanoseconds\<close> of \<open>github.com/bodgit/windows\<close>.
\<close>

record externals =
  utf16Decode :: "byte list \<Rightarrow> gostring"
  filetimeNanoseconds :: "u64 \<Rightarrow> time"

section \<open>Property identifiers\<close>

abbreviation (input) idEnd :: byte where "idEnd \<equiv> 0x00"
abbreviation (input) idHeader :: byte where "idHeader \<equiv> 0x01"
abbreviation (input) idArchiveProperties :: byte where "idArchiveProperties \<equiv> 0x02"
abbreviation (input) idAdditionalStreamsInfo :: byte where "idAdditionalStreamsInfo \<equiv> 0x03"
abbreviation (input) idMainStreamsInfo :: byte where "idMainStreamsInfo \<equiv> 0x04"
abbreviation (input) idFilesInfo :: byte where "idFilesInfo \<equiv> 0x05"
abbreviation (input) idPackInfo :: byte where "idPackInfo \<equiv> 0x06"
abbreviation (input) idUnpackInfo :: byte where "idUnpackInfo \<equiv> 0x07"
abbreviation (input) idSubStreamsInfo :: byte where "idSubStreamsInfo \<equiv> 0x08"
abbreviation (input) idSize :: byte where "idSize \<equiv> 0x09"
abbreviation (input) idCRC :: byte where "idCRC \<equiv> 0x0A"
abbreviation (input) idFolder :: byte where "idFolder \<equiv> 0x0B"
abbreviation (input) idCodersUnpackSize :: byte where "idCodersUnpackSize \<equiv> 0x0C"
abbreviation (input) idNumUnpackStream :: byte where "idNumUnpackStream \<equiv> 0x0D"
abbreviation (input) idEmptyStream :: byte where "idEmptyStream \<equiv> 0x0E"
abbreviation (input) idEmptyFile :: byte where "idEmptyFile \<equiv> 0x0F"
abbreviation (input) idName :: byte where "idName \<equiv> 0x11"
abbreviation (input) idCTime :: byte where "idCTime \<equiv> 0x12"
abbreviation (input) idATime :: byte where "idATime \<equiv> 0x13"
abbreviation (input) idMTime :: byte where "idMTime \<equiv> 0x14"
abbreviation (input) idWinAttributes :: byte where "idWinAttributes \<equiv> 0x15"
abbreviation (input) idEncodedHeader :: byte where "idEncodedHeader \<equiv> 0x17"
abbreviation (input) idStartPos :: byte where "idStartPos \<equiv> 0x18"
abbreviation (input) idDummy :: byte where "idDummy \<equiv> 0x19"

text \<open>
  The recurring idiom \<open>if id == want { x = read(); id = readByte() }\<close>: an optional section,
  after which \<open>id\<close> is the identifier that follows.
\<close>

definition optSection :: "byte \<Rightarrow> byte \<Rightarrow> 'a parser \<Rightarrow> 'a \<Rightarrow> ('a \<times> byte) parser" where
  "optSection got want p absent =
     (if got = want then pbind p (\<lambda>x. pbind readByte (\<lambda>next. preturn (x, next)))
      else preturn (absent, got))"

section \<open>Streams\<close>

definition readPackInfo :: "packInfo parser" where
  "readPackInfo =
     pbind readUint64 (\<lambda>position.
     pbind (readUint64Bounded True) (\<lambda>streams.
     pbind readByte (\<lambda>id.
     pbind (optSection id idSize (readSizes streams) []) (\<lambda>(size, id).
     pbind (optSection id idCRC (readCRC streams) []) (\<lambda>(digest, id).
     if id \<noteq> idEnd then pfail ErrUnexpectedID
     else preturn \<lparr>pi_position = position, pi_streams = streams,
                   pi_size = size, pi_digest = digest\<rparr>)))))"

text \<open>
  \<open>readCoder\<close> calls \<open>Read\<close> once for the identifier and once for the properties, and takes
  a short read for an error.
\<close>

definition readExact :: "nat \<Rightarrow> byte list parser" where
  "readExact n =
     pbind (readSome n) (\<lambda>bs. if length bs \<noteq> n then pfail ErrIncompleteRead else preturn bs)"

definition readCoder :: "coder parser" where
  "readCoder =
     pbind readByte (\<lambda>v.
     pbind (readExact (unat (v AND 0x0F))) (\<lambda>id.
     pbind (if v AND 0x10 \<noteq> 0
            then pbind (readUint64Bounded True) (\<lambda>cin.
                 pbind (readUint64Bounded True) (\<lambda>cout. preturn (cin, cout)))
            else preturn (1, 1)) (\<lambda>(cin, cout).
     pbind (if v AND 0x20 \<noteq> 0
            then pbind (readUint64Bounded True) (\<lambda>size. readExact (unat size))
            else preturn []) (\<lambda>properties.
     preturn \<lparr>co_id = id, co_in = cin, co_out = cout, co_properties = properties\<rparr>))))"

definition readBindPair :: "bindPair parser" where
  "readBindPair =
     pbind (readUint64Bounded False) (\<lambda>bin.
     pbind (readUint64Bounded False) (\<lambda>bout.
     preturn \<lparr>bp_in = bin, bp_out = bout\<rparr>))"

definition readFolder :: "folder parser" where
  "readFolder =
     pbind (readUint64Bounded True) (\<lambda>coders.
     pbind (prepeat (unat coders) readCoder) (\<lambda>coder.
     let fin = sum_list (map co_in coder);
         fout = sum_list (map co_out coder)
     in
     pbind (pcheck (checkUint64 fin True)) (\<lambda>_.
     pbind (pcheck (checkUint64 fout True)) (\<lambda>_.
     if fin < fout then pfail ErrInvalidBindPair
     else
       let bindPairs = fout - 1 in
       pbind (prepeat (unat bindPairs) readBindPair) (\<lambda>bindPair.
       let packedStreams = fin - bindPairs;
           f = \<lparr>fo_in = fin, fo_out = fout, fo_packedStreams = packedStreams, fo_coder = coder,
                fo_bindPair = bindPair, fo_size = [], fo_packed = []\<rparr>
       in
       if packedStreams = 1
       then preturn (f\<lparr>fo_packed :=
              filter (\<lambda>i. findInBindPair f i = None) (map of_nat [0..<unat fin])\<rparr>)
       else pbind (prepeat (unat packedStreams) readUint64) (\<lambda>packed.
            preturn (f\<lparr>fo_packed := packed\<rparr>)))))))"

definition readFolderSize :: "folder \<Rightarrow> folder parser" where
  "readFolderSize f =
     (let tot = sum_list (map co_out (fo_coder f)) in
      pbind (pcheck (checkUint64 tot True)) (\<lambda>_.
      pbind (prepeat (unat tot) readUint64) (\<lambda>size.
      preturn (f\<lparr>fo_size := size\<rparr>))))"

definition readUnpackInfo :: "unpackInfo parser" where
  "readUnpackInfo =
     pbind readByte (\<lambda>id.
     if id \<noteq> idFolder then pfail ErrUnexpectedID
     else
     pbind (readUint64Bounded True) (\<lambda>folders.
     pbind readByte (\<lambda>external.
     if 0 < external then pfail ErrTodoExternal
     else
     pbind (prepeat (unat folders) readFolder) (\<lambda>folder.
     pbind readByte (\<lambda>id.
     if id \<noteq> idCodersUnpackSize then pfail ErrUnexpectedID
     else
     pbind (ptraverse readFolderSize folder) (\<lambda>folder.
     pbind readByte (\<lambda>id.
     pbind (optSection id idCRC (readCRC folders) []) (\<lambda>(digest, id).
     if id \<noteq> idEnd then pfail ErrUnexpectedID
     else preturn \<lparr>ui_folder = folder, ui_digest = digest\<rparr>))))))))"

text \<open>
  The size loop of \<open>readSubStreamsInfo\<close>. \<open>size\<close> is the array \<open>s.size\<close>, \<open>k\<close> the next index;
  writing at \<open>k\<close> panics when the array is too short, which happens when the sum of the
  stream counts, taken modulo 2^64, is smaller than the counts.
\<close>

definition storeAt :: "u64 list \<Rightarrow> nat \<Rightarrow> u64 \<Rightarrow> u64 list result" where
  "storeAt sizes k v = (if k < length sizes then Inr (sizes[k := v]) else Inl Panic)"

text \<open>One pass of the inner loop reads, then stores; the panic does not depend on the read.\<close>

fun readSubSizesOf :: "nat \<Rightarrow> u64 \<Rightarrow> nat \<Rightarrow> u64 list \<Rightarrow> (u64 \<times> nat \<times> u64 list) parser" where
  "readSubSizesOf 0 tot k sizes = preturn (tot, k, sizes)"
| "readSubSizesOf (Suc n) tot k sizes =
     (if length sizes \<le> k then pfail Panic
      else
      pbind readUint64 (\<lambda>v.
      pbind (plift (storeAt sizes k v)) (\<lambda>sizes.
      readSubSizesOf n (tot + v) (Suc k) sizes)))"

fun readSubSizes :: "(u64 \<times> folder) list \<Rightarrow> nat \<Rightarrow> u64 list \<Rightarrow> u64 list parser" where
  "readSubSizes [] k sizes = preturn sizes"
| "readSubSizes ((streams, f) # rest) k sizes =
     (if streams = 0 then readSubSizes rest k sizes
      else
      pbind (readSubSizesOf (unat streams - 1) 0 k sizes) (\<lambda>(tot, k, sizes).
      pbind (plift (storeAt sizes k (unpackSize f - tot))) (\<lambda>sizes.
      readSubSizes rest (Suc k) sizes)))"

definition readSubStreamsInfo :: "folder list \<Rightarrow> subStreamsInfo parser" where
  "readSubStreamsInfo folder =
     pbind readByte (\<lambda>id.
     pbind (optSection id idNumUnpackStream
              (prepeat (length folder) readUint64) (replicate (length folder) 1)) (\<lambda>(streams, id).
     let files = sum_list streams in
     pbind (pcheck (checkUint64 files False)) (\<lambda>_.
     pbind (optSection id idSize
              (readSubSizes (zip streams folder) 0 (replicate (unat files) 0)) []) (\<lambda>(size, id).
     pbind (optSection id idCRC (readCRC files) []) (\<lambda>(digest, id).
     if id \<noteq> idEnd then pfail ErrUnexpectedID
     else preturn \<lparr>ss_streams = streams, ss_size = size, ss_digest = digest\<rparr>)))))"

definition pSome :: "'a parser \<Rightarrow> 'a option parser" where
  "pSome p = pbind p (\<lambda>x. preturn (Some x))"

definition readStreamsInfo :: "streamsInfo parser" where
  "readStreamsInfo =
     pbind readByte (\<lambda>id.
     pbind (optSection id idPackInfo (pSome readPackInfo) None) (\<lambda>(packInfo, id).
     pbind (optSection id idUnpackInfo (pSome readUnpackInfo) None) (\<lambda>(unpackInfo, id).
     pbind (optSection id idSubStreamsInfo
              (case unpackInfo of
                 None \<Rightarrow> pfail ErrMissingUnpackInfo
               | Some u \<Rightarrow> pSome (readSubStreamsInfo (ui_folder u))) None) (\<lambda>(subStreamsInfo, id).
     if id \<noteq> idEnd then pfail ErrUnexpectedID
     else preturn \<lparr>si_packInfo = packInfo, si_unpackInfo = unpackInfo,
                   si_subStreamsInfo = subStreamsInfo\<rparr>))))"

end
