(* ===== verification/Unicode.thy ===== *)
theory Unicode
  imports Prelude
begin

unbundle bit_operations_syntax

text \<open>
  What the sources use of Go's strings: the conversion \<open>[]rune(s)\<close> of a string to code
  points, where each malformed byte becomes U+FFFD, \<open>utf16.Encode\<close> of the standard library,
  and UTF-8 encoding. The decoder from UTF-16LE back to UTF-8 belongs to
  \<open>golang.org/x/text\<close>; \<open>utf16_law\<close> states its documented behaviour on well-formed input.
  A code point is a natural number.
\<close>

section \<open>From UTF-8 to code points\<close>

definition runeError :: nat where
  "runeError = 0xFFFD"

definition isCont :: "nat \<Rightarrow> nat \<Rightarrow> byte \<Rightarrow> bool" where
  "isCont lo hi b \<longleftrightarrow> lo \<le> unat b \<and> unat b \<le> hi"

text \<open>The code point at the start of \<open>b # bs\<close> and how many bytes of \<open>bs\<close> belong to it.\<close>

definition decodeRune :: "byte \<Rightarrow> byte list \<Rightarrow> nat \<times> nat" where
  "decodeRune b bs =
     (let x = unat b in
      if x < 0x80 then (x, 0)
      else if 0xC2 \<le> x \<and> x \<le> 0xDF then
        (case bs of
           b1 # _ \<Rightarrow>
             if isCont 0x80 0xBF b1 then ((x mod 32) * 64 + unat b1 mod 64, 1) else (runeError, 0)
         | _ \<Rightarrow> (runeError, 0))
      else if 0xE0 \<le> x \<and> x \<le> 0xEF then
        (case bs of
           b1 # b2 # _ \<Rightarrow>
             if isCont (if x = 0xE0 then 0xA0 else 0x80) (if x = 0xED then 0x9F else 0xBF) b1
                \<and> isCont 0x80 0xBF b2
             then ((x mod 16) * 4096 + (unat b1 mod 64) * 64 + unat b2 mod 64, 2)
             else (runeError, 0)
         | _ \<Rightarrow> (runeError, 0))
      else if 0xF0 \<le> x \<and> x \<le> 0xF4 then
        (case bs of
           b1 # b2 # b3 # _ \<Rightarrow>
             if isCont (if x = 0xF0 then 0x90 else 0x80) (if x = 0xF4 then 0x8F else 0xBF) b1
                \<and> isCont 0x80 0xBF b2 \<and> isCont 0x80 0xBF b3
             then ((x mod 8) * 262144 + (unat b1 mod 64) * 4096 + (unat b2 mod 64) * 64
                     + unat b3 mod 64, 3)
             else (runeError, 0)
         | _ \<Rightarrow> (runeError, 0))
      else (runeError, 0))"

function runes :: "byte list \<Rightarrow> nat list" where
  "runes [] = []"
| "runes (b # bs) = (case decodeRune b bs of (r, n) \<Rightarrow> r # runes (drop n bs))"
  by pat_completeness auto
termination
  by (relation "measure length") auto

text \<open>A Unicode scalar value: a code point that is no surrogate.\<close>

definition scalar :: "nat \<Rightarrow> bool" where
  "scalar r \<longleftrightarrow> r < 0xD800 \<or> 0xE000 \<le> r \<and> r < 0x110000"

lemma mod_offset:
  fixes x :: nat
  assumes "c * m \<le> x" and "x < c * m + m"
  obtains k where "x = c * m + k" and "k < m" and "x mod m = k"
proof -
  have "x - c * m < m" and "x = c * m + (x - c * m)"
    using assms by linarith+
  moreover from this have "x mod m = x - c * m"
    by (metis add.commute mod_less mod_mult_self1)
  ultimately show thesis using that by blast
qed

lemma scalar2: "scalar ((x mod 32) * 64 + y mod 64)"
proof -
  have "x mod 32 < 32" and "y mod 64 < 64" by simp_all
  then show ?thesis unfolding scalar_def by linarith
qed

lemma scalar3:
  assumes "0xE0 \<le> x" "x \<le> 0xEF" "0x80 \<le> y" "y \<le> (if x = 0xED then 0x9F else 0xBF)"
  shows "scalar ((x mod 16) * 4096 + (y mod 64) * 64 + z mod 64)"
proof -
  obtain k where k: "x = 14 * 16 + k" "k < 16" "x mod 16 = k"
    using mod_offset [of 14 16 x] assms(1,2) by auto
  obtain m where m: "y = 2 * 64 + m" "m < 64" "y mod 64 = m"
    using mod_offset [of 2 64 y] assms(3,4) by (auto split: if_splits)
  have z: "z mod 64 < 64" by simp
  have "k \<le> 12 \<or> (k = 13 \<and> m < 32) \<or> 14 \<le> k"
    using assms(4) k(1) m(1) by (cases "k = 13") auto
  then consider "k \<le> 12" | "k = 13" "m < 32" | "14 \<le> k"
    by blast
  then show ?thesis
    unfolding scalar_def k(3) m(3) using k(2) m(2) z by cases linarith+
qed

lemma scalar3_lead:
  "0x80 \<le> y \<Longrightarrow> y \<le> 0xBF \<Longrightarrow> scalar (y mod 64 * 64 + z mod 64)"
  "0x80 \<le> y \<Longrightarrow> y \<le> 0x9F \<Longrightarrow> scalar (53248 + y mod 64 * 64 + z mod 64)"
  using scalar3 [where x = "0xE0" and y = y and z = z] scalar3 [where x = "0xED" and y = y and z = z]
  by simp_all

lemma scalar4:
  assumes "0xF0 \<le> x" "x \<le> 0xF4" "(if x = 0xF0 then 0x90 else 0x80) \<le> y"
    "y \<le> (if x = 0xF4 then 0x8F else 0xBF)"
  shows "scalar ((x mod 8) * 262144 + (y mod 64) * 4096 + (z mod 64) * 64 + w mod 64)"
proof -
  obtain k where k: "x = 30 * 8 + k" "k < 8" "x mod 8 = k"
    using mod_offset [of 30 8 x] assms(1,2) by auto
  obtain m where m: "y = 2 * 64 + m" "m < 64" "y mod 64 = m"
    using mod_offset [of 2 64 y] assms(3,4) by (auto split: if_splits)
  have zw: "z mod 64 < 64" "w mod 64 < 64" by simp_all
  consider "k = 0" "16 \<le> m" | "1 \<le> k" "k \<le> 3" | "k = 4" "m < 16"
    using assms k(1) m(1) by (cases "k = 0"; cases "k = 4") auto
  then show ?thesis
    unfolding scalar_def k(3) m(3) using m(2) zw by cases linarith+
qed

lemma scalar4_lead:
  "0x90 \<le> y \<Longrightarrow> y \<le> 0xBF \<Longrightarrow> scalar (y mod 64 * 4096 + z mod 64 * 64 + w mod 64)"
  "0x80 \<le> y \<Longrightarrow> y \<le> 0x8F \<Longrightarrow> scalar (1048576 + y mod 64 * 4096 + z mod 64 * 64 + w mod 64)"
  using scalar4 [where x = "0xF0" and y = y and z = z and w = w]
    scalar4 [where x = "0xF4" and y = y and z = z and w = w] by simp_all

lemma scalar_small: "scalar runeError" "x < 0x80 \<Longrightarrow> scalar x"
  by (simp_all add: scalar_def runeError_def)

lemma scalar_decodeRune: "scalar (fst (decodeRune b bs))"
proof -
  consider "unat b < 0x80" | "0xC2 \<le> unat b" "unat b \<le> 0xDF" | "0xE0 \<le> unat b" "unat b \<le> 0xEF"
    | "0xF0 \<le> unat b" "unat b \<le> 0xF4" | "0x80 \<le> unat b" "unat b < 0xC2" | "0xF4 < unat b"
    by linarith
  then show ?thesis
  proof cases
    case 1
    then show ?thesis by (simp add: decodeRune_def scalar_small)
  next
    case 2
    then show ?thesis
      by (cases bs) (simp_all add: decodeRune_def scalar_small scalar2)
  next
    case 3
    then show ?thesis
      by (cases bs; cases "tl bs") (auto simp: decodeRune_def isCont_def Let_def scalar_small intro!: scalar3 scalar3_lead split: if_splits)
  next
    case 4
    then show ?thesis
      by (cases bs; cases "tl bs"; cases "tl (tl bs)")
        (auto simp: decodeRune_def isCont_def Let_def scalar_small
          intro!: scalar4 scalar4_lead split: if_splits)
  qed (simp_all add: decodeRune_def scalar_small)
qed

lemma scalar_runes: "list_all scalar (runes s)"
proof (induction s rule: runes.induct)
  case (2 b bs)
  then show ?case
    using scalar_decodeRune [of b bs] by (cases "decodeRune b bs") auto
qed simp

section \<open>UTF-8 and UTF-16 encoding\<close>

definition utf8Rune :: "nat \<Rightarrow> byte list" where
  "utf8Rune r =
     (if r < 0x80 then [of_nat r]
      else if r < 0x800 then [of_nat (0xC0 + r div 64), of_nat (0x80 + r mod 64)]
      else if r < 0x10000 then
        [of_nat (0xE0 + r div 4096), of_nat (0x80 + r div 64 mod 64), of_nat (0x80 + r mod 64)]
      else
        [of_nat (0xF0 + r div 262144), of_nat (0x80 + r div 4096 mod 64),
         of_nat (0x80 + r div 64 mod 64), of_nat (0x80 + r mod 64)])"

definition utf8Encode :: "nat list \<Rightarrow> byte list" where
  "utf8Encode rs = concat (map utf8Rune rs)"

definition utf16Rune :: "nat \<Rightarrow> u16 list" where
  "utf16Rune r =
     (if r < 0xD800 \<or> 0xE000 \<le> r \<and> r < 0x10000 then [of_nat r]
      else if 0x10000 \<le> r \<and> r < 0x110000 then
        [of_nat (0xD800 + (r - 0x10000) div 1024 mod 1024), of_nat (0xDC00 + (r - 0x10000) mod 1024)]
      else [of_nat runeError])"

definition utf16Encode :: "nat list \<Rightarrow> u16 list" where
  "utf16Encode rs = concat (map utf16Rune rs)"

definition utf16le :: "u16 list \<Rightarrow> byte list" where
  "utf16le us = concat (map (\<lambda>u. [ucast u, ucast (drop_bit 8 u)]) us)"

lemma utf8Encode_simps [simp]:
  "utf8Encode [] = []"
  "utf8Encode (r # rs) = utf8Rune r @ utf8Encode rs"
  "utf8Encode (rs @ qs) = utf8Encode rs @ utf8Encode qs"
  by (simp_all add: utf8Encode_def)

lemma utf16le_simps [simp]:
  "utf16le [] = []"
  "utf16le (u # us) = ucast u # ucast (drop_bit 8 u) # utf16le us"
  "utf16le (us @ vs) = utf16le us @ utf16le vs"
  by (simp_all add: utf16le_def)

lemma utf16Encode_simps [simp]:
  "utf16Encode [] = []"
  "utf16Encode (r # rs) = utf16Rune r @ utf16Encode rs"
  "utf16Encode (rs @ qs) = utf16Encode rs @ utf16Encode qs"
  by (simp_all add: utf16Encode_def)

text \<open>
  The decoder of \<open>unicode.UTF16(LittleEndian, IgnoreBOM)\<close>: well-formed UTF-16LE becomes the
  same text in UTF-8.
\<close>

definition utf16_law :: "(byte list \<Rightarrow> byte list) \<Rightarrow> bool" where
  "utf16_law dec \<longleftrightarrow> (\<forall>rs. list_all scalar rs \<longrightarrow> dec (utf16le (utf16Encode rs)) = utf8Encode rs)"

section \<open>A decoder that satisfies the law\<close>

text \<open>
  A plain decoder, used to show that the law can hold: pairs of bytes to code units, then
  surrogate pairs to code points; what is malformed becomes U+FFFD.
\<close>

fun codeUnits :: "byte list \<Rightarrow> nat list" where
  "codeUnits (lo # hi # bs) = (unat lo + 256 * unat hi) # codeUnits bs"
| "codeUnits _ = []"

fun fromUnits :: "nat list \<Rightarrow> nat list" where
  "fromUnits (u # v # us) =
     (if 0xD800 \<le> u \<and> u < 0xDC00 \<and> 0xDC00 \<le> v \<and> v < 0xE000
      then (0x10000 + (u - 0xD800) * 1024 + (v - 0xDC00)) # fromUnits us
      else (if scalar u then u else runeError) # fromUnits (v # us))"
| "fromUnits [u] = [if scalar u then u else runeError]"
| "fromUnits [] = []"

definition plainDecode :: "byte list \<Rightarrow> byte list" where
  "plainDecode bs = utf8Encode (fromUnits (codeUnits bs))"

lemma unit_bytes: "unat (ucast u :: byte) + 256 * unat (ucast (drop_bit 8 u) :: byte) = unat (u :: u16)"
proof -
  have u: "unat u < 65536"
    using unsigned_less [of u, where ?'a = nat] by simp
  have "unat (drop_bit 8 u) = unat u div 256"
    by (simp only: unat_drop_bit_eq) (simp add: drop_bit_eq_div)
  moreover have "unat u div 256 < 256" using u by simp
  ultimately show ?thesis
    by (simp add: unsigned_ucast_eq take_bit_eq_mod)
qed

lemma codeUnits_utf16le: "codeUnits (utf16le us) = map unat us"
  by (induction us) (simp_all add: unit_bytes)

lemma unat_of_nat_small: "n < 65536 \<Longrightarrow> unat (of_nat n :: u16) = n"
  by (simp add: unat_of_nat)

lemma fromUnits_utf16Encode:
  "list_all scalar rs \<Longrightarrow> fromUnits (map unat (utf16Encode rs)) = rs"
proof (induction rs)
  case (Cons r rs)
  then have IH: "fromUnits (map unat (utf16Encode rs)) = rs" and r: "scalar r" by simp_all
  show ?case
  proof (cases "r < 0x10000")
    case True
    with r have u: "utf16Rune r = [of_nat r]" "unat (of_nat r :: u16) = r" "\<not> (0xD800 \<le> r \<and> r < 0xDC00)"
      by (auto simp: utf16Rune_def scalar_def unat_of_nat)
    then show ?thesis
      using IH r by (cases "map unat (utf16Encode rs)") auto
  next
    case False
    define h where "h = 0xD800 + (r - 0x10000) div 1024 mod 1024"
    define l where "l = 0xDC00 + (r - 0x10000) mod 1024"
    have "utf16Rune r = [of_nat h, of_nat l]" and r': "r < 0x110000"
      using False r by (auto simp: utf16Rune_def scalar_def h_def l_def)
    moreover have hl: "0xD800 \<le> h \<and> h < 0xDC00 \<and> 0xDC00 \<le> l \<and> l < 0xE000"
      using mod_less_divisor [of 1024 "(r - 0x10000) div 1024"]
        mod_less_divisor [of 1024 "r - 0x10000"] by (simp add: h_def l_def)
    moreover have "unat (of_nat h :: u16) = h" "unat (of_nat l :: u16) = l"
      by (rule unat_of_nat_small, use hl in simp)+
    moreover have "0x10000 + (h - 0xD800) * 1024 + (l - 0xDC00) = r"
    proof -
      have "(r - 0x10000) div 1024 < 1024"
        using r' by (simp add: less_mult_imp_div_less)
      then show ?thesis
        using False div_mult_mod_eq [of "r - 0x10000" 1024] by (simp add: h_def l_def)
    qed
    ultimately show ?thesis using IH by simp
  qed
qed simp

lemma utf16_law_plainDecode: "utf16_law plainDecode"
  by (simp add: utf16_law_def plainDecode_def codeUnits_utf16le fromUnits_utf16Encode)

end
