(* ===== verification/Header_Write.thy ===== *)
theory Header_Write
  imports Header_Read Unicode
begin

unbundle bit_operations_syntax

text \<open>
  The header writer, \<open>write_struct.go\<close>. The sink is always a \<open>bytes.Buffer\<close>, whose writes
  never fail, so a writer is the list of bytes it appends. A writer that can panic (an index
  into an array that is too short, a nil pointer) returns \<open>byte list result\<close>.
\<close>

section \<open>Streams\<close>

text \<open>One write after the other.\<close>

fun wcat :: "byte list result list \<Rightarrow> byte list result" where
  "wcat [] = Inr []"
| "wcat (w # ws) = rbind w (\<lambda>bs. rbind (wcat ws) (\<lambda>cs. Inr (bs @ cs)))"

definition allDefined :: "'a list \<Rightarrow> bool list" where
  "allDefined xs = replicate (length xs) True"

definition writePackInfo :: "packInfo \<Rightarrow> byte list result" where
  "writePackInfo p = wcat
     [Inr (writeUint64 (pi_position p)),
      Inr (writeUint64 (pi_streams p)),
      Inr (if 0 < length (pi_size p) then idSize # writeSizes (pi_size p) else []),
      (if 0 < length (pi_digest p)
       then rbind (writeCRC (pi_digest p) (allDefined (pi_digest p))) (\<lambda>bs. Inr (idCRC # bs))
       else Inr []),
      Inr [idEnd]]"

definition writeCoder :: "coder \<Rightarrow> byte list" where
  "writeCoder c =
     (let isComplex = (co_in c \<noteq> 1 \<or> co_out c \<noteq> 1);
          hasProps = (0 < length (co_properties c));
          flags = (of_nat (length (co_id c)) AND 0x0F)
                  OR (if isComplex then 0x10 else 0) OR (if hasProps then 0x20 else 0)
      in flags # co_id c
         @ (if isComplex then writeUint64 (co_in c) @ writeUint64 (co_out c) else [])
         @ (if hasProps
            then writeUint64 (of_nat (length (co_properties c))) @ co_properties c else []))"

definition writeBindPair :: "bindPair \<Rightarrow> byte list" where
  "writeBindPair bp = writeUint64 (bp_in bp) @ writeUint64 (bp_out bp)"

definition writeFolder :: "folder \<Rightarrow> byte list" where
  "writeFolder f =
     writeUint64 (of_nat (length (fo_coder f)))
     @ concat (map writeCoder (fo_coder f))
     @ concat (map writeBindPair (fo_bindPair f))
     @ (if 1 < fo_packedStreams f then concat (map writeUint64 (fo_packed f)) else [])"

definition writeUnpackInfo :: "unpackInfo \<Rightarrow> byte list result" where
  "writeUnpackInfo u = wcat
     [Inr [idFolder],
      Inr (writeUint64 (of_nat (length (ui_folder u)))),
      Inr [0],
      Inr (concat (map writeFolder (ui_folder u))),
      Inr [idCodersUnpackSize],
      Inr (concat (map (\<lambda>f. concat (map writeUint64 (fo_size f))) (ui_folder u))),
      (if 0 < length (ui_digest u)
       then rbind (writeCRC (ui_digest u) (allDefined (ui_digest u))) (\<lambda>bs. Inr (idCRC # bs))
       else Inr []),
      Inr [idEnd]]"

text \<open>
  The sizes of all but the last file of each folder; \<open>s.size[k]\<close> panics when the array is too
  short, and the index of the last file is skipped without being read.
\<close>

fun writeSubSizesOf :: "u64 list \<Rightarrow> nat \<Rightarrow> nat \<Rightarrow> byte list result" where
  "writeSubSizesOf sizes k 0 = Inr []"
| "writeSubSizesOf sizes k (Suc n) =
     rbind (idx sizes k) (\<lambda>v.
     rbind (writeSubSizesOf sizes (Suc k) n) (\<lambda>bs. Inr (writeUint64 v @ bs)))"

fun writeSubSizes :: "u64 list \<Rightarrow> nat \<Rightarrow> u64 list \<Rightarrow> byte list result" where
  "writeSubSizes sizes k [] = Inr []"
| "writeSubSizes sizes k (count # counts) =
     (if count = 0 then writeSubSizes sizes k counts
      else
        rbind (writeSubSizesOf sizes k (unat count - 1)) (\<lambda>bs.
        rbind (writeSubSizes sizes (k + unat count) counts) (\<lambda>cs. Inr (bs @ cs))))"

definition writeSubStreamsInfo :: "subStreamsInfo \<Rightarrow> byte list result" where
  "writeSubStreamsInfo s = wcat
     [Inr (if 0 < length (ss_streams s) \<and> \<not> list_all (\<lambda>count. count = 1) (ss_streams s)
           then idNumUnpackStream # concat (map writeUint64 (ss_streams s)) else []),
      (if 0 < length (ss_size s) \<and> list_ex (\<lambda>count. 1 < count) (ss_streams s)
       then rbind (writeSubSizes (ss_size s) 0 (ss_streams s)) (\<lambda>bs. Inr (idSize # bs))
       else Inr []),
      (if 0 < length (ss_digest s)
       then rbind (writeCRC (ss_digest s) (allDefined (ss_digest s))) (\<lambda>bs. Inr (idCRC # bs))
       else Inr []),
      Inr [idEnd]]"

definition writeStreamsInfo :: "streamsInfo \<Rightarrow> byte list result" where
  "writeStreamsInfo s = wcat
     [(case si_packInfo s of None \<Rightarrow> Inr []
       | Some p \<Rightarrow> rbind (writePackInfo p) (\<lambda>bs. Inr (idPackInfo # bs))),
      (case si_unpackInfo s of None \<Rightarrow> Inr []
       | Some u \<Rightarrow> rbind (writeUnpackInfo u) (\<lambda>bs. Inr (idUnpackInfo # bs))),
      (case si_subStreamsInfo s of None \<Rightarrow> Inr []
       | Some ss \<Rightarrow>
           rbind (deref (si_unpackInfo s)) (\<lambda>_.
           rbind (writeSubStreamsInfo ss) (\<lambda>bs. Inr (idSubStreamsInfo # bs)))),
      Inr [idEnd]]"

section \<open>Files\<close>

text \<open>
  \<open>t.Unix()\<close> and \<open>t.Nanosecond()\<close> are the quotient and the remainder of the nanoseconds by
  10^9; the arithmetic is that of \<open>uint64\<close>.
\<close>

definition timeToFiletime :: "time \<Rightarrow> u64" where
  "timeToFiletime t =
     (if t = zeroTime then 0
      else of_int (t div 1000000000 * 10000000) + of_int (t mod 1000000000 div 100)
           + 116444736000000000)"

definition hasTime :: "filesInfo \<Rightarrow> (fileHeader \<Rightarrow> time) \<Rightarrow> bool" where
  "hasTime f get = list_ex (\<lambda>fh. get fh \<noteq> zeroTime) (fi_file f)"

text \<open>A property: its identifier, the length of its body, the body.\<close>

definition propBytes :: "byte \<Rightarrow> byte list \<Rightarrow> byte list" where
  "propBytes pid body = pid # writeUint64 (of_nat (length body)) @ body"

definition writeTimeProp :: "byte \<Rightarrow> filesInfo \<Rightarrow> (fileHeader \<Rightarrow> time) \<Rightarrow> byte list" where
  "writeTimeProp pid f get =
     (let defined = map (\<lambda>fh. get fh \<noteq> zeroTime) (fi_file f) in
      propBytes pid
        (writeOptionalBool defined @ [0]
         @ concat (map (\<lambda>fh. if get fh \<noteq> zeroTime then putUint64 (timeToFiletime (get fh)) else [])
                   (fi_file f))))"

definition writeNames :: "filesInfo \<Rightarrow> byte list" where
  "writeNames f =
     propBytes idName
       (0 # concat (map (\<lambda>fh. utf16le (utf16Encode (runes (fh_Name fh))) @ [0, 0]) (fi_file f)))"

definition writeEmptyStreams :: "filesInfo \<Rightarrow> byte list" where
  "writeEmptyStreams f =
     (let emptyStreams = map fh_isEmptyStream (fi_file f);
          emptyFiles = map fh_isEmptyFile (filter fh_isEmptyStream (fi_file f))
      in
      if list_ex (\<lambda>e. e) emptyStreams then
        idEmptyStream # writeUint64 (of_nat ((length emptyStreams + 7) div 8))
          @ writeBool emptyStreams
        @ (if list_ex (\<lambda>e. e) emptyFiles then
             idEmptyFile # writeUint64 (of_nat ((length emptyFiles + 7) div 8))
               @ writeBool emptyFiles
           else [])
      else [])"

definition writeAttributes :: "filesInfo \<Rightarrow> byte list" where
  "writeAttributes f =
     (if list_ex (\<lambda>fh. fh_Attributes fh \<noteq> 0) (fi_file f) then
        let defined = map (\<lambda>fh. fh_Attributes fh \<noteq> 0) (fi_file f) in
        propBytes idWinAttributes
          (writeOptionalBool defined @ [0]
           @ concat (map (\<lambda>fh. if fh_Attributes fh \<noteq> 0 then putUint32 (fh_Attributes fh) else [])
                     (fi_file f)))
      else [])"

definition writeFilesInfo :: "filesInfo \<Rightarrow> byte list" where
  "writeFilesInfo f =
     writeUint64 (of_nat (length (fi_file f)))
     @ writeEmptyStreams f
     @ (if hasTime f fh_Created then writeTimeProp idCTime f fh_Created else [])
     @ (if hasTime f fh_Accessed then writeTimeProp idATime f fh_Accessed else [])
     @ (if hasTime f fh_Modified then writeTimeProp idMTime f fh_Modified else [])
     @ writeNames f
     @ writeAttributes f
     @ [idEnd]"

definition writeHeader :: "header \<Rightarrow> byte list result" where
  "writeHeader h = wcat
     [(case hd_streamsInfo h of None \<Rightarrow> Inr []
       | Some s \<Rightarrow> rbind (writeStreamsInfo s) (\<lambda>bs. Inr (idMainStreamsInfo # bs))),
      Inr (case hd_filesInfo h of None \<Rightarrow> []
           | Some f \<Rightarrow> idFilesInfo # writeFilesInfo f),
      Inr [idEnd]]"

end
