(* ===== verification/Checksum.thy ===== *)
theory Checksum
  imports Prelude
begin

unbundle bit_operations_syntax

text \<open>
  CRC-32: the IEEE checksum of \<open>hash/crc32\<close>, bit by bit, and \<open>util.CRC32Equal\<close>, with which
  the reader compares the big-endian bytes of a running checksum with a stored number. Shown
  here: hashing is incremental, the comparison decides equality, and two messages of one
  length that differ in a single byte never have the same checksum.
\<close>

section \<open>The checksum\<close>

definition crcBit :: "u32 \<Rightarrow> u32" where
  "crcBit c = (if bit c 0 then drop_bit 1 c XOR 0xEDB88320 else drop_bit 1 c)"

definition crcByte :: "byte \<Rightarrow> u32 \<Rightarrow> u32" where
  "crcByte b c = (crcBit ^^ 8) (c XOR ucast b)"

definition crc32Update :: "u32 \<Rightarrow> byte list \<Rightarrow> u32" where
  "crc32Update c bs = NOT (fold crcByte bs (NOT c))"

definition checksumIEEE :: "byte list \<Rightarrow> u32" where
  "checksumIEEE bs = crc32Update 0 bs"

text \<open>The bytes of \<open>h.Sum(nil)\<close>.\<close>

definition sumBytes :: "u32 \<Rightarrow> byte list" where
  "sumBytes c = [ucast (drop_bit 24 c), ucast (drop_bit 16 c), ucast (drop_bit 8 c), ucast c]"

definition CRC32Equal :: "byte list \<Rightarrow> u32 \<Rightarrow> bool" where
  "CRC32Equal b c \<longleftrightarrow>
     b = [ucast (0xff AND drop_bit 24 c), ucast (0xff AND drop_bit 16 c),
          ucast (0xff AND drop_bit 8 c), ucast (0xff AND c)]"

lemma crc32Update_append: "crc32Update c (xs @ ys) = crc32Update (crc32Update c xs) ys"
  by (simp add: crc32Update_def)

lemma crc32Update_Nil [simp]: "crc32Update c [] = c"
  by (simp add: crc32Update_def)

lemma checksum_append: "checksumIEEE (xs @ ys) = crc32Update (checksumIEEE xs) ys"
  by (simp add: checksumIEEE_def crc32Update_append)

section \<open>The comparison\<close>

lemma ucast_and_255: "(ucast (0xff AND w) :: byte) = ucast (w :: u32)"
proof (rule bit_word_eqI)
  fix n assume "n < LENGTH(8)"
  then have "bit (0xff :: u32) n"
    by (subgoal_tac "n \<in> {0, 1, 2, 3, 4, 5, 6, 7}") auto
  then show "bit (ucast (0xff AND w) :: byte) n = bit (ucast w :: byte) n"
    by (simp add: bit_simps)
qed

lemma sumBytes_inject: "sumBytes c = sumBytes d \<longleftrightarrow> c = d"
proof
  assume eq: "sumBytes c = sumBytes d"
  have byte: "bit (ucast (drop_bit k w) :: byte) m = bit (w :: u32) (k + m)" if "m < 8" for k w m
    using that by (auto simp: bit_simps)
  show "c = d"
  proof (rule bit_word_eqI)
    fix n assume n: "n < LENGTH(32)"
    have "n div 8 \<in> {0, 1, 2, 3}" using n by auto
    moreover have "ucast (drop_bit (8 * q) c) = (ucast (drop_bit (8 * q) d) :: byte)"
      if "q \<in> {0, 1, 2, 3}" for q
      using eq that by (auto simp: sumBytes_def)
    ultimately have "ucast (drop_bit (8 * (n div 8)) c) = (ucast (drop_bit (8 * (n div 8)) d) :: byte)"
      by blast
    then have "bit (ucast (drop_bit (8 * (n div 8)) c) :: byte) (n mod 8)
      = bit (ucast (drop_bit (8 * (n div 8)) d) :: byte) (n mod 8)" by (rule arg_cong)
    then show "bit c n = bit d n"
      by (simp only: byte mod_less_divisor zero_less_numeral mult_div_mod_eq)
  qed
qed simp

lemma CRC32Equal_sum: "CRC32Equal (sumBytes c) d \<longleftrightarrow> c = d"
proof -
  have "CRC32Equal b d \<longleftrightarrow> b = sumBytes d" for b
    by (simp only: CRC32Equal_def sumBytes_def ucast_and_255)
  then show ?thesis by (simp add: sumBytes_inject)
qed

section \<open>Errors in one byte\<close>

lemma crcBit_31: "bit (crcBit c) 31 = bit c 0"
proof -
  have "\<not> bit c 32" by (auto dest: bit_imp_le_length)
  then show ?thesis by (simp add: crcBit_def bit_simps)
qed

lemma xor_cancel: "x XOR z = y XOR z \<longleftrightarrow> x = (y :: u32)" "z XOR x = z XOR y \<longleftrightarrow> x = y"
  by (auto simp: bit_eq_iff bit_xor_iff)

lemma ucast_byte_inject: "(ucast a :: u32) = ucast b \<longleftrightarrow> a = (b :: byte)"
proof
  assume "(ucast a :: u32) = ucast b"
  then have "unat (ucast a :: u32) = unat (ucast b :: u32)" by simp
  then show "a = b"
    by (simp add: unsigned_ucast_eq take_bit_nat_eq_self unsigned_less [where ?'a = nat, THEN order_less_le_trans]
        word_unat_eq_iff)
qed simp

lemma crcBit_inject: "crcBit c = crcBit d \<longleftrightarrow> c = d"
proof
  assume eq: "crcBit c = crcBit d"
  then have low: "bit c 0 = bit d 0" by (metis crcBit_31)
  then have "drop_bit 1 c = drop_bit 1 d"
    using eq by (auto simp: crcBit_def xor_cancel split: if_splits)
  then have up: "bit c (Suc n) = bit d (Suc n)" for n
    by (metis bit_drop_bit_eq comp_apply plus_1_eq_Suc)
  show "c = d"
  proof (rule bit_word_eqI)
    fix n show "bit c n = bit d n"
      using low up by (cases n) auto
  qed
qed simp

lemma crcBits_inject: "(crcBit ^^ n) c = (crcBit ^^ n) d \<longleftrightarrow> c = d"
  by (induction n) (simp_all add: crcBit_inject)

lemma crcByte_inject [simp]:
  "crcByte b c = crcByte b d \<longleftrightarrow> c = d" "crcByte a c = crcByte b c \<longleftrightarrow> a = b"
  by (simp_all add: crcByte_def crcBits_inject xor_cancel ucast_byte_inject)

lemma crcBytes_inject: "fold crcByte bs c = fold crcByte bs d \<longleftrightarrow> c = d"
  by (induction bs arbitrary: c d) simp_all

lemma checksum_one_byte:
  "a \<noteq> b \<Longrightarrow> checksumIEEE (xs @ a # ys) \<noteq> checksumIEEE (xs @ b # ys)"
  by (simp add: checksumIEEE_def crc32Update_def crcBytes_inject)

section \<open>Properties\<close>

text \<open>
The CRC-32 that \<open>util.CRC32Equal\<close> compares detects every change of one byte: with all the
other bytes equal, the stored digest of one content matches the other content only when the
bytes are the same.
\<close>

lemma digest_detects_byte:
  "CRC32Equal (sumBytes (checksumIEEE (xs @ a # ys))) (checksumIEEE (xs @ b # ys)) \<longleftrightarrow> a = b"
  by (simp add: CRC32Equal_sum checksumIEEE_def crc32Update_def crcBytes_inject)

end
