(* ===== verification/Aes7z.thy ===== *)
theory Aes7z
  imports Prelude
begin

unbundle bit_operations_syntax

text \<open>
  AES-CBC streams: \<open>internal/aes7z\<close> (key derivation with its cache, the decrypting reader) and
  the \<open>aesWriter\<close> of \<open>writer.go\<close>. The AES block function, SHA-256, the UTF-16 encoder and the
  LRU cache are outside the repository: they are arguments, collected in \<open>crypto\<close> and
  \<open>keyCache\<close>. CBC chaining is written out.

  The derivation appends the password to \<open>bytes.NewBuffer(salt)\<close>, where the salt is a slice
  of the coder's properties. The model keeps the backing array, because the append lands in it
  when it fits.
\<close>

section \<open>The environment\<close>

record crypto =
  aesEncrypt :: "byte list \<Rightarrow> byte list \<Rightarrow> byte list"
  aesDecrypt :: "byte list \<Rightarrow> byte list \<Rightarrow> byte list"
  sha256 :: "byte list \<Rightarrow> byte list"
  utf16Encoder :: "byte list \<Rightarrow> byte list"

definition block_law :: "crypto \<Rightarrow> bool" where
  "block_law c \<longleftrightarrow>
     (\<forall>key block. length key = 32 \<and> length block = 16 \<longrightarrow>
        length (aesEncrypt c key block) = 16 \<and> aesDecrypt c key (aesEncrypt c key block) = block)"

record cacheKey =
  ck_password :: "byte list"
  ck_cycles :: nat
  ck_salt :: "byte list"

record 'c keyCache =
  cacheGet :: "'c \<Rightarrow> cacheKey \<Rightarrow> byte list option \<times> 'c"
  cacheAdd :: "'c \<Rightarrow> cacheKey \<Rightarrow> byte list \<Rightarrow> 'c"

text \<open>
  A cache only ever returns what was added: \<open>view\<close> is what it may still hold, \<open>Get\<close> reads it
  and keeps or shrinks it, \<open>Add\<close> adds one entry and may evict others.
\<close>

definition cache_law :: "'c keyCache \<Rightarrow> ('c \<Rightarrow> cacheKey \<Rightarrow> byte list option) \<Rightarrow> bool" where
  "cache_law kc view \<longleftrightarrow>
     (\<forall>c k. (fst (cacheGet kc c k) = None \<or> fst (cacheGet kc c k) = view c k)
        \<and> view (snd (cacheGet kc c k)) \<subseteq>\<^sub>m view c)
     \<and> (\<forall>c k v. view (cacheAdd kc c k v) \<subseteq>\<^sub>m (view c)(k \<mapsto> v))"

datatype aes_error =
    AlreadyClosed | NeedOneReader | InsufficientProperties | NoPasswordSet | UnsupportedMethod
  | CyclesPowerTooLarge | AesEOF | BlockUnexpectedEOF

section \<open>Key derivation\<close>

definition maxCyclesPower :: nat where
  "maxCyclesPower = 24"

definition hexDigit :: "byte \<Rightarrow> byte" where
  "hexDigit d = (if d < 10 then 0x30 + d else 0x57 + d)"

definition hexEncode :: "byte list \<Rightarrow> byte list" where
  "hexEncode bs = concat (map (\<lambda>b. [hexDigit (drop_bit 4 b), hexDigit (b AND 0x0F)]) bs)"

text \<open>
  The bytes the hash consumes: for each counter value the salted password and the counter.
  They are described as a list; the code feeds them to the hash one by one.
\<close>

definition hashInput :: "nat \<Rightarrow> byte list \<Rightarrow> byte list" where
  "hashInput cycles b = concat (map (\<lambda>i. b @ putUint64 (of_nat i)) [0..<2 ^ cycles])"

definition deriveKey :: "crypto \<Rightarrow> nat \<Rightarrow> byte list \<Rightarrow> aes_error + byte list" where
  "deriveKey c cycles b =
     (if cycles = 0x3f then Inr (take 32 (b @ replicate 32 0))
      else if maxCyclesPower < cycles then Inl CyclesPowerTooLarge
      else Inr (take 32 (sha256 c (hashInput cycles b) @ replicate 32 0)))"

text \<open>
  \<open>bytes.NewBuffer(p[off:off+len])\<close> followed by one \<open>Write\<close>: when the data fits behind the
  slice in its array it is copied there, otherwise into a new array.
\<close>

definition bufferAppend :: "byte list \<Rightarrow> nat \<Rightarrow> nat \<Rightarrow> byte list \<Rightarrow> byte list \<times> byte list" where
  "bufferAppend p off len w =
     (take len (drop off p) @ w,
      if off + len + length w \<le> length p
      then take (off + len) p @ w @ drop (off + len + length w) p else p)"

text \<open>The key, the cache and the array the salt lies in.\<close>

definition calculateKey ::
    "crypto \<Rightarrow> 'c keyCache \<Rightarrow> 'c \<Rightarrow> byte list \<Rightarrow> nat \<Rightarrow> byte list \<Rightarrow> nat \<Rightarrow> nat
     \<Rightarrow> (aes_error + byte list) \<times> 'c \<times> byte list" where
  "calculateKey c kc cache password cycles p off len =
     (let salt = take len (drop off p);
          ck = \<lparr>ck_password = password, ck_cycles = cycles, ck_salt = hexEncode salt\<rparr>
      in case cacheGet kc cache ck of
           (Some key, cache) \<Rightarrow> (Inr key, cache, p)
         | (None, cache) \<Rightarrow>
             (let (b, p) = bufferAppend p off len (utf16Encoder c password) in
              case deriveKey c cycles b of
                Inl e \<Rightarrow> (Inl e, cache, p)
              | Inr key \<Rightarrow> (Inr key, cacheAdd kc cache ck key, p)))"

section \<open>Cipher block chaining\<close>

definition xorBytes :: "byte list \<Rightarrow> byte list \<Rightarrow> byte list" where
  "xorBytes xs ys = map2 (XOR) xs ys"

text \<open>\<open>CryptBlocks\<close> on one block: the block and the next chaining value.\<close>

definition cbcEncrypt1 :: "crypto \<Rightarrow> byte list \<Rightarrow> byte list \<Rightarrow> byte list \<Rightarrow> byte list \<times> byte list" where
  "cbcEncrypt1 c key iv block = (let e = aesEncrypt c key (xorBytes block iv) in (e, e))"

definition cbcDecrypt1 :: "crypto \<Rightarrow> byte list \<Rightarrow> byte list \<Rightarrow> byte list \<Rightarrow> byte list \<times> byte list" where
  "cbcDecrypt1 c key iv block = (xorBytes (aesDecrypt c key block) iv, block)"

section \<open>The encrypting writer\<close>

record aesWriter =
  aw_key :: "byte list"
  aw_iv :: "byte list"
  aw_buf :: "byte list"
  aw_count :: u64

definition newAesWriter :: "byte list \<Rightarrow> byte list \<Rightarrow> aesWriter" where
  "newAesWriter key iv = \<lparr>aw_key = key, aw_iv = iv, aw_buf = [], aw_count = 0\<rparr>"

text \<open>The loop of \<open>Write\<close>: whole blocks leave, at most 15 bytes stay. The second result is
  what was written to the underlying writer.\<close>

function aesDrain :: "crypto \<Rightarrow> aesWriter \<Rightarrow> aesWriter \<times> byte list" where
  "aesDrain c aw =
     (if 16 \<le> length (aw_buf aw) then
        let (e, iv) = cbcEncrypt1 c (aw_key aw) (aw_iv aw) (take 16 (aw_buf aw));
            (aw', out) = aesDrain c (aw\<lparr>aw_iv := iv, aw_buf := drop 16 (aw_buf aw),
                                       aw_count := aw_count aw + 16\<rparr>)
        in (aw', e @ out)
      else (aw, []))"
  by pat_completeness auto
termination
  by (relation "measure (\<lambda>(c, aw). length (aw_buf aw))") auto

declare aesDrain.simps [simp del]

definition aesWrite :: "crypto \<Rightarrow> aesWriter \<Rightarrow> byte list \<Rightarrow> aesWriter \<times> byte list" where
  "aesWrite c aw p = aesDrain c (aw\<lparr>aw_buf := aw_buf aw @ p\<rparr>)"

definition aesClose :: "crypto \<Rightarrow> aesWriter \<Rightarrow> aesWriter \<times> byte list" where
  "aesClose c aw =
     (if 0 < length (aw_buf aw) then
        let block = aw_buf aw @ replicate (16 - length (aw_buf aw)) 0;
            (e, iv) = cbcEncrypt1 c (aw_key aw) (aw_iv aw) block
        in (aw\<lparr>aw_iv := iv, aw_buf := e, aw_count := aw_count aw + 16\<rparr>, e)
      else (aw, []))"

section \<open>The decrypting reader\<close>

text \<open>
  \<open>ar_rc\<close> is what the underlying reader still returns (\<open>None\<close> once closed), \<open>ar_salt\<close> the
  length of the salt, which starts at byte 2 of the properties.
\<close>

record aesReader =
  ar_rc :: "byte list option"
  ar_salt :: nat
  ar_iv :: "byte list"
  ar_cycles :: nat
  ar_cbc :: "(byte list \<times> byte list) option"
  ar_buf :: "byte list"

definition aesNewReader :: "byte list \<Rightarrow> byte list list \<Rightarrow> aes_error + aesReader" where
  "aesNewReader p readers =
     (case readers of
        [rc] \<Rightarrow>
          if length p < 2 then Inl InsufficientProperties
          else if p ! 0 AND 0xc0 = 0 then Inl UnsupportedMethod
          else
            let salt = (drop_bit 7 (p ! 0) AND 1) + drop_bit 4 (p ! 1);
                iv = (drop_bit 6 (p ! 0) AND 1) + (p ! 1 AND 0x0f)
            in
            if length p \<noteq> unat (2 + salt + iv) then Inl InsufficientProperties
            else Inr \<lparr>ar_rc = Some rc, ar_salt = unat salt,
                      ar_iv = take 16 (drop (2 + unat salt) p @ replicate 16 0),
                      ar_cycles = unat (p ! 0 AND 0x3f), ar_cbc = None, ar_buf = []\<rparr>
      | _ \<Rightarrow> Inl NeedOneReader)"

definition aesPassword ::
    "crypto \<Rightarrow> 'c keyCache \<Rightarrow> 'c \<Rightarrow> byte list \<Rightarrow> byte list \<Rightarrow> aesReader
     \<Rightarrow> (aes_error + aesReader) \<times> 'c \<times> byte list" where
  "aesPassword c kc cache p password r =
     (case calculateKey c kc cache password (ar_cycles r) p 2 (ar_salt r) of
        (Inl e, cache, p) \<Rightarrow> (Inl e, cache, p)
      | (Inr key, cache, p) \<Rightarrow> (Inr (r\<lparr>ar_cbc := Some (key, ar_iv r)\<rparr>), cache, p))"

text \<open>The loop of \<open>Read\<close>: blocks are decrypted until the buffer holds \<open>n\<close> bytes.\<close>

function aesFill ::
    "crypto \<Rightarrow> nat \<Rightarrow> byte list \<Rightarrow> byte list \<times> byte list \<times> byte list
     \<Rightarrow> aes_error option \<times> byte list \<times> byte list \<times> byte list" where
  "aesFill c n key (iv, rc, buf) =
     (if n \<le> length buf \<or> rc = [] then (None, iv, rc, buf)
      else if length rc < 16 then (Some BlockUnexpectedEOF, iv, [], buf)
      else
        let (block, iv) = cbcDecrypt1 c key iv (take 16 rc)
        in aesFill c n key (iv, drop 16 rc, buf @ block))"
  by pat_completeness auto
termination
  by (relation "measure (\<lambda>(c, n, key, iv, rc, buf). length rc)") auto

declare aesFill.simps [simp del]

text \<open>A read of \<open>n\<close> bytes: the bytes, the error if there is one, and the reader.\<close>

definition aesRead ::
    "crypto \<Rightarrow> aesReader \<Rightarrow> nat \<Rightarrow> byte list \<times> aes_error option \<times> aesReader" where
  "aesRead c r n =
     (case (ar_rc r, ar_cbc r) of
        (None, _) \<Rightarrow> ([], Some AlreadyClosed, r)
      | (Some rc, None) \<Rightarrow> ([], Some NoPasswordSet, r)
      | (Some rc, Some (key, iv)) \<Rightarrow>
          (case aesFill c n key (iv, rc, ar_buf r) of
             (Some e, iv, rc, buf) \<Rightarrow>
               ([], Some e, r\<lparr>ar_rc := Some rc, ar_cbc := Some (key, iv), ar_buf := buf\<rparr>)
           | (None, iv, rc, buf) \<Rightarrow>
               (take n buf, if buf = [] \<and> 0 < n then Some AesEOF else None,
                r\<lparr>ar_rc := Some rc, ar_cbc := Some (key, iv), ar_buf := drop n buf\<rparr>)))"

definition aesReaderClose :: "aesReader \<Rightarrow> aes_error option \<times> aesReader" where
  "aesReaderClose r =
     (case ar_rc r of None \<Rightarrow> (Some AlreadyClosed, r) | Some rc \<Rightarrow> (None, r\<lparr>ar_rc := None\<rparr>))"

end
