(* ===== verification/Io_Reader.thy ===== *)
theory Io_Reader
  imports Main
begin

text \<open>
  The contract of \<open>io.Reader\<close> as the readers of this package keep it towards each other. A
  reader has something left to deliver; a read of at least one byte returns a prefix of it,
  which is empty only at the end, where it reports the end of the stream. Decoders over other
  readers can then forget how their input was cut into reads.
\<close>

text \<open>A sequence of reads with the given buffer sizes: what they return together.\<close>

fun reads :: "('r \<Rightarrow> nat \<Rightarrow> 'b list \<times> 'e option \<times> 'r) \<Rightarrow> 'r \<Rightarrow> nat list \<Rightarrow> 'b list \<times> 'r" where
  "reads rd r [] = ([], r)"
| "reads rd r (m # ms) =
     (let (bs, e, r) = rd r m; (cs, r) = reads rd r ms in (bs @ cs, r))"

locale io_reader =
  fixes rd :: "'r \<Rightarrow> nat \<Rightarrow> 'b list \<times> 'e option \<times> 'r"
    and rest :: "'r \<Rightarrow> 'b list"
    and valid :: "'r \<Rightarrow> bool"
    and eof :: 'e
  assumes read_rest: "valid r \<Longrightarrow> 0 < m \<Longrightarrow>
    \<exists>q r'. rd r m = (take q (rest r), if rest r = [] then Some eof else None, r')
      \<and> q \<le> m \<and> (rest r \<noteq> [] \<longrightarrow> 0 < q) \<and> rest r' = drop q (rest r) \<and> valid r'"
begin

lemma reads_rest:
  assumes "valid r" and "list_all (\<lambda>m. 0 < m) ms"
  shows "valid (snd (reads rd r ms))
    \<and> fst (reads rd r ms) @ rest (snd (reads rd r ms)) = rest r
    \<and> (length (rest r) \<le> length ms \<longrightarrow> rest (snd (reads rd r ms)) = [])"
  using assms
proof (induction ms arbitrary: r)
  case (Cons m ms)
  then obtain q r' where q: "rd r m = (take q (rest r), if rest r = [] then Some eof else None, r')"
      "rest r \<noteq> [] \<longrightarrow> 0 < q" "rest r' = drop q (rest r)" "valid r'"
    using read_rest [of r m] by auto
  have "list_all (\<lambda>m. 0 < m) ms" using Cons.prems by simp
  note IH = Cons.IH [OF q(4) this]
  have "length (rest r') \<le> length ms" if "length (rest r) \<le> length (m # ms)"
    using that q(2,3) by (cases "rest r = []") (auto simp: le_diff_conv)
  with IH q show ?case by (simp add: split_beta Let_def)
qed simp

text \<open>As many reads as there are bytes deliver everything; fewer deliver a prefix.\<close>

lemma reads_all:
  assumes "valid r" and "list_all (\<lambda>m. 0 < m) ms" and "length (rest r) \<le> length ms"
  shows "fst (reads rd r ms) = rest r"
  using reads_rest [OF assms(1,2)] assms(3) by (metis append_Nil2)

lemma reads_prefix:
  assumes "valid r" and "list_all (\<lambda>m. 0 < m) ms"
  shows "\<exists>n. fst (reads rd r ms) = take n (rest r)"
  using reads_rest [OF assms] by (metis append_eq_conv_conj)

text \<open>The end is reported exactly when nothing is left, and stays reported.\<close>

lemma read_eof:
  assumes "valid r" and "0 < m"
  shows "fst (snd (rd r m)) = (if rest r = [] then Some eof else None)"
    and "rest r = [] \<Longrightarrow> fst (rd r m) = [] \<and> rest (snd (snd (rd r m))) = []"
  using read_rest [OF assms] by auto

lemma read_progress:
  assumes "valid r" and "0 < m" and "rest r \<noteq> []"
  shows "fst (rd r m) \<noteq> []" and "length (rest (snd (snd (rd r m)))) < length (rest r)"
  using read_rest [OF assms(1,2)] assms(3) by auto

end

end
