(* ===== verification/Aes_RoundTrip.thy ===== *)
theory Aes_RoundTrip
  imports Aes7z Io_Reader
begin

unbundle bit_operations_syntax

text \<open>
  What the AES streams compute. The writer is CBC over the concatenation of everything
  written, whatever the chunks; the reader is CBC decryption of its source, whatever the sizes
  of the reads; the one undoes the other up to the padding. The key cache never changes a key.
  The salt buffer does overwrite the initialisation vector in the properties when the encoded
  password fits behind the salt.
\<close>

section \<open>CBC on lists\<close>

function cbcEnc :: "crypto \<Rightarrow> byte list \<Rightarrow> byte list \<Rightarrow> byte list \<Rightarrow> byte list" where
  "cbcEnc c key iv bs =
     (if length bs < 16 then []
      else let e = aesEncrypt c key (xorBytes (take 16 bs) iv) in e @ cbcEnc c key e (drop 16 bs))"
  by pat_completeness auto
termination
  by (relation "measure (\<lambda>(c, key, iv, bs). length bs)") auto

function cbcIv :: "crypto \<Rightarrow> byte list \<Rightarrow> byte list \<Rightarrow> byte list \<Rightarrow> byte list" where
  "cbcIv c key iv bs =
     (if length bs < 16 then iv
      else cbcIv c key (aesEncrypt c key (xorBytes (take 16 bs) iv)) (drop 16 bs))"
  by pat_completeness auto
termination
  by (relation "measure (\<lambda>(c, key, iv, bs). length bs)") auto

function cbcDec :: "crypto \<Rightarrow> byte list \<Rightarrow> byte list \<Rightarrow> byte list \<Rightarrow> byte list" where
  "cbcDec c key iv bs =
     (if length bs < 16 then []
      else xorBytes (aesDecrypt c key (take 16 bs)) iv @ cbcDec c key (take 16 bs) (drop 16 bs))"
  by pat_completeness auto
termination
  by (relation "measure (\<lambda>(c, key, iv, bs). length bs)") auto

declare cbcEnc.simps [simp del] cbcIv.simps [simp del] cbcDec.simps [simp del]

definition partial :: "byte list \<Rightarrow> byte list" where
  "partial bs = drop (16 * (length bs div 16)) bs"

lemma div16: "16 \<le> n \<Longrightarrow> n div 16 = Suc ((n - 16) div (16::nat))"
  by (simp add: le_div_geq)

lemma partial_step: "16 \<le> length bs \<Longrightarrow> partial bs = partial (drop 16 bs)"
  by (simp add: partial_def div16 [of "length bs"] add.commute)

lemma partial_short [simp]: "length bs < 16 \<Longrightarrow> partial bs = bs"
  by (simp add: partial_def)

lemma length_partial: "length (partial bs) = length bs mod 16"
  by (simp add: partial_def minus_mult_div_eq_mod)

lemma cbc_short [simp]:
  "length bs < 16 \<Longrightarrow> cbcEnc c key iv bs = []" "length bs < 16 \<Longrightarrow> cbcIv c key iv bs = iv"
  "length bs < 16 \<Longrightarrow> cbcDec c key iv bs = []"
  by (simp_all add: cbcEnc.simps cbcIv.simps cbcDec.simps)

text \<open>Encryption of a concatenation goes on where the first part left off.\<close>

lemma cbc_append:
  "cbcEnc c key iv (xs @ ys) = cbcEnc c key iv xs @ cbcEnc c key (cbcIv c key iv xs) (partial xs @ ys)
   \<and> cbcIv c key iv (xs @ ys) = cbcIv c key (cbcIv c key iv xs) (partial xs @ ys)
   \<and> partial (xs @ ys) = partial (partial xs @ ys)"
proof (induction c key iv xs rule: cbcEnc.induct)
  case (1 c key iv bs)
  show ?case
  proof (cases "length bs < 16")
    case False
    with 1 [OF False refl] show ?thesis
      by (simp add: cbcEnc.simps [of c key iv] cbcIv.simps [of c key iv] partial_step Let_def
          partial_step [of "bs @ ys"])
  qed simp
qed

lemma length_xorBytes [simp]: "length (xorBytes xs ys) = min (length xs) (length ys)"
  by (simp add: xorBytes_def)

lemma xorBytes_twice: "length xs \<le> length ys \<Longrightarrow> xorBytes (xorBytes xs ys) ys = xs"
  by (rule nth_equalityI) (simp_all add: xorBytes_def xor.assoc)

definition goodKey :: "crypto \<Rightarrow> byte list \<Rightarrow> bool" where
  "goodKey c key \<longleftrightarrow> (\<forall>block. length block = 16 \<longrightarrow>
     length (aesEncrypt c key block) = 16 \<and> aesDecrypt c key (aesEncrypt c key block) = block)"

lemma block_law_goodKey: "block_law c \<Longrightarrow> length key = 32 \<Longrightarrow> goodKey c key"
  by (simp add: block_law_def goodKey_def)

lemma cbcDec_cbcEnc:
  "goodKey c key \<Longrightarrow> length iv = 16 \<Longrightarrow> 16 dvd length bs \<Longrightarrow> cbcDec c key iv (cbcEnc c key iv bs) = bs"
proof (induction c key iv bs rule: cbcEnc.induct)
  case (1 c key iv bs)
  show ?case
  proof (cases "length bs < 16")
    case True
    with "1.prems"(3) show ?thesis by (simp add: nat_dvd_not_less) (metis dvd_imp_le leD length_0_conv neq0_conv)
  next
    case False
    define e where "e = aesEncrypt c key (xorBytes (take 16 bs) iv)"
    have e: "length e = 16" "aesDecrypt c key e = xorBytes (take 16 bs) iv"
      using "1.prems"(1,2) False by (simp_all add: goodKey_def e_def)
    have "16 dvd length (drop 16 bs)"
      using "1.prems"(3) False by (simp add: dvd_diff_nat)
    with "1.IH" [OF False e_def] e "1.prems"(1)
    have "cbcDec c key e (cbcEnc c key e (drop 16 bs)) = drop 16 bs" by simp
    with e False "1.prems"(2) show ?thesis
      by (simp add: cbcEnc.simps [of c key iv] cbcDec.simps [of c key iv] e_def [symmetric] xorBytes_twice)
  qed
qed

lemma length_cbcEnc:
  "goodKey c key \<Longrightarrow> length iv = 16 \<Longrightarrow> length (cbcEnc c key iv bs) = length bs - length bs mod 16"
proof (induction c key iv bs rule: cbcEnc.induct)
  case (1 c key iv bs)
  show ?case
  proof (cases "length bs < 16")
    case False
    define e where "e = aesEncrypt c key (xorBytes (take 16 bs) iv)"
    have e: "length e = 16" using "1.prems" False by (simp add: goodKey_def e_def)
    have "(length bs - 16) mod 16 = length bs mod 16" using False by (simp add: le_mod_geq)
    with "1.IH" [OF False e_def] e "1.prems"(1) False show ?thesis
      by (simp add: cbcEnc.simps [of c key iv] e_def [symmetric])
  qed simp
qed

section \<open>The writer\<close>

lemma aesDrain_cbc:
  "aesDrain c aw = (aw\<lparr>aw_iv := cbcIv c (aw_key aw) (aw_iv aw) (aw_buf aw), aw_buf := partial (aw_buf aw),
      aw_count := aw_count aw + of_nat (16 * (length (aw_buf aw) div 16))\<rparr>,
    cbcEnc c (aw_key aw) (aw_iv aw) (aw_buf aw))"
proof (induction c aw rule: aesDrain.induct)
  case (1 c aw)
  show ?case
  proof (cases "16 \<le> length (aw_buf aw)")
    case True
    with 1 [OF True] show ?thesis
      by (simp add: aesDrain.simps [of c aw] cbcEncrypt1_def Let_def cbcEnc.simps [of c _ "aw_iv aw"]
          cbcIv.simps [of c _ "aw_iv aw"] partial_step div16 [of "length (aw_buf aw)"])
  next
    case False
    then show ?thesis by (simp add: aesDrain.simps [of c aw])
  qed
qed

text \<open>Writing in pieces.\<close>

fun aesWrites :: "crypto \<Rightarrow> aesWriter \<Rightarrow> byte list list \<Rightarrow> aesWriter \<times> byte list" where
  "aesWrites c aw [] = (aw, [])"
| "aesWrites c aw (p # ps) =
     (let (aw', out) = aesWrite c aw p; (aw'', outs) = aesWrites c aw' ps in (aw'', out @ outs))"

lemma aesWrites_cbc:
  assumes "length (aw_buf aw) < 16"
  shows "aw_key (fst (aesWrites c aw ps)) = aw_key aw
    \<and> aw_iv (fst (aesWrites c aw ps)) = cbcIv c (aw_key aw) (aw_iv aw) (aw_buf aw @ concat ps)
    \<and> aw_buf (fst (aesWrites c aw ps)) = partial (aw_buf aw @ concat ps)
    \<and> snd (aesWrites c aw ps) = cbcEnc c (aw_key aw) (aw_iv aw) (aw_buf aw @ concat ps)"
  using assms
proof (induction ps arbitrary: aw)
  case (Cons p ps)
  have "length (partial (aw_buf aw @ p)) < 16" by (simp add: length_partial)
  with Cons.IH [of "fst (aesWrite c aw p)"]
    cbc_append [of c "aw_key aw" "aw_iv aw" "aw_buf aw @ p" "concat ps"]
  show ?case
    by (simp add: aesWrite_def aesDrain_cbc split_beta Let_def)
qed simp

definition pad16 :: "byte list \<Rightarrow> byte list" where
  "pad16 bs = bs @ replicate ((16 - length bs mod 16) mod 16) 0"

text \<open>Everything a closed writer has written: CBC of the padded data.\<close>

definition aesEncryptAll :: "crypto \<Rightarrow> byte list \<Rightarrow> byte list \<Rightarrow> byte list list \<Rightarrow> byte list" where
  "aesEncryptAll c key iv ps =
     (let (aw, out) = aesWrites c (newAesWriter key iv) ps; (aw', out') = aesClose c aw in out @ out')"

lemma length_pad16: "16 dvd length (pad16 bs)"
proof (cases "length bs mod 16 = 0")
  case True
  then show ?thesis by (simp add: pad16_def mod_eq_0_iff_dvd)
next
  case False
  then have "(16 - length bs mod 16) mod 16 = 16 - length bs mod 16" by simp
  moreover have "length bs mod 16 < 16" by simp
  ultimately have "length (pad16 bs) mod 16 = 0"
    unfolding pad16_def length_append length_replicate
    by (metis le_add_diff_inverse less_imp_le_nat mod_add_left_eq mod_self)
  then show ?thesis by (simp add: mod_eq_0_iff_dvd)
qed

lemma aesEncryptAll_cbc: "aesEncryptAll c key iv ps = cbcEnc c key iv (pad16 (concat ps))"
proof -
  define aw where "aw = fst (aesWrites c (newAesWriter key iv) ps)"
  define out where "out = snd (aesWrites c (newAesWriter key iv) ps)"
  have w: "aw_key aw = key" "aw_iv aw = cbcIv c key iv (concat ps)" "aw_buf aw = partial (concat ps)"
      "out = cbcEnc c key iv (concat ps)"
    using aesWrites_cbc [of "newAesWriter key iv" c ps] by (simp_all add: newAesWriter_def aw_def out_def)
  have all: "aesEncryptAll c key iv ps = out @ snd (aesClose c aw)"
    by (simp add: aesEncryptAll_def split_beta Let_def aw_def out_def)
  show ?thesis
  proof (cases "length (concat ps) mod 16 = 0")
    case True
    then have "partial (concat ps) = []" using length_partial [of "concat ps"] by simp
    with True w show ?thesis by (simp add: all aesClose_def pad16_def)
  next
    case False
    define z where "z = replicate (16 - length (concat ps) mod 16) (0 :: byte)"
    have pad: "pad16 (concat ps) = concat ps @ z" using False by (simp add: pad16_def z_def)
    have len: "length (partial (concat ps) @ z) = 16"
      by (simp add: length_partial z_def le_add_diff_inverse less_imp_le)
    have "cbcEnc c key (aw_iv aw) (partial (concat ps) @ z)
      = aesEncrypt c key (xorBytes (partial (concat ps) @ z) (aw_iv aw))"
      using len by (simp add: cbcEnc.simps [of c key "aw_iv aw"] Let_def)
    moreover have "0 < length (partial (concat ps))" using False by (simp add: length_partial)
    ultimately show ?thesis
      using w cbc_append [of c key iv "concat ps" z]
      by (simp add: all pad aesClose_def cbcEncrypt1_def Let_def length_partial z_def)
  qed
qed

section \<open>The reader\<close>

lemma aesFill_plain:
  assumes "16 dvd length rc"
  shows "\<exists>iv' rc' buf'. aesFill c n key (iv, rc, buf) = (None, iv', rc', buf')
    \<and> buf' @ cbcDec c key iv' rc' = buf @ cbcDec c key iv rc
    \<and> 16 dvd length rc' \<and> (n \<le> length buf' \<or> rc' = [])"
  using assms
proof (induction "length rc" arbitrary: iv rc buf rule: less_induct)
  case less
  show ?case
  proof (cases "n \<le> length buf \<or> rc = []")
    case True
    then show ?thesis using less.prems by (subst aesFill.simps) auto
  next
    case False
    then have long: "16 \<le> length rc" using less.prems by (auto dest: dvd_imp_le)
    define block where "block = xorBytes (aesDecrypt c key (take 16 rc)) iv"
    have "aesFill c n key (iv, rc, buf) = aesFill c n key (take 16 rc, drop 16 rc, buf @ block)"
      using False long by (subst aesFill.simps) (auto simp: cbcDecrypt1_def block_def)
    moreover have "cbcDec c key iv rc = block @ cbcDec c key (take 16 rc) (drop 16 rc)"
      using long by (simp add: cbcDec.simps [of c key iv] block_def)
    moreover have "length (drop 16 rc) < length rc" "16 dvd length (drop 16 rc)"
      using long less.prems by (simp_all add: dvd_diff_nat)
    ultimately show ?thesis
      using less.hyps [of "drop 16 rc" "take 16 rc" "buf @ block"] by simp
  qed
qed

text \<open>What a reader with a password still has to deliver.\<close>

definition aesPlain :: "crypto \<Rightarrow> aesReader \<Rightarrow> byte list" where
  "aesPlain c r =
     (case (ar_rc r, ar_cbc r) of
        (Some rc, Some (key, iv)) \<Rightarrow> ar_buf r @ cbcDec c key iv rc
      | _ \<Rightarrow> [])"

definition aesReady :: "aesReader \<Rightarrow> bool" where
  "aesReady r \<longleftrightarrow>
     (case (ar_rc r, ar_cbc r) of (Some rc, Some _) \<Rightarrow> 16 dvd length rc | _ \<Rightarrow> False)"

lemma aesRead_plain:
  assumes ready: "aesReady r"
  shows "\<exists>r'. aesRead c r n = (take n (aesPlain c r), if aesPlain c r = [] \<and> 0 < n then Some AesEOF else None, r')
    \<and> aesReady r' \<and> aesPlain c r' = drop n (aesPlain c r)"
proof -
  obtain rc key iv where r: "ar_rc r = Some rc" "ar_cbc r = Some (key, iv)" "16 dvd length rc"
    using ready by (auto simp: aesReady_def split: option.splits)
  from aesFill_plain [OF r(3), of c n key iv "ar_buf r"]
  obtain iv' rc' buf' where f: "aesFill c n key (iv, rc, ar_buf r) = (None, iv', rc', buf')"
      "buf' @ cbcDec c key iv' rc' = ar_buf r @ cbcDec c key iv rc"
      "16 dvd length rc'" "n \<le> length buf' \<or> rc' = []" by blast
  have plain: "aesPlain c r = buf' @ cbcDec c key iv' rc'"
    using f(2) r by (simp add: aesPlain_def)
  have tk: "take n (aesPlain c r) = take n buf'" "drop n (aesPlain c r) = drop n buf' @ cbcDec c key iv' rc'"
    using f(4) by (auto simp: plain)
  have em: "aesPlain c r = [] \<and> 0 < n \<longleftrightarrow> buf' = [] \<and> 0 < n"
    using f(4) by (auto simp: plain)
  define r' where "r' = r\<lparr>ar_rc := Some rc', ar_cbc := Some (key, iv'), ar_buf := drop n buf'\<rparr>"
  have new: "aesPlain c r' = drop n buf' @ cbcDec c key iv' rc'"
    by (simp add: aesPlain_def r'_def)
  have "aesRead c r n = (take n (aesPlain c r), if aesPlain c r = [] \<and> 0 < n then Some AesEOF else None, r')"
    by (simp only: em tk) (simp add: aesRead_def r f(1) r'_def)
  moreover have "aesReady r'" "aesPlain c r' = drop n (aesPlain c r)"
    using f(3) new tk(2) by (simp_all add: aesReady_def r'_def)
  ultimately show ?thesis by blast
qed

text \<open>A reader over what a writer wrote, with the writer's key.\<close>

lemma aesPlain_back:
  assumes "goodKey c key" and "length iv = 16"
    and "ar_rc r = Some (aesEncryptAll c key iv ps)" "ar_cbc r = Some (key, iv)" "ar_buf r = []"
  shows "aesReady r \<and> aesPlain c r = pad16 (concat ps)"
proof -
  have "16 dvd length (cbcEnc c key iv (pad16 (concat ps)))"
    using length_cbcEnc [OF assms(1,2)] length_pad16 [of "concat ps"] by (simp add: mod_eq_0_iff_dvd)
  with assms cbcDec_cbcEnc [OF assms(1,2) length_pad16] show ?thesis
    by (simp add: aesReady_def aesPlain_def aesEncryptAll_cbc)
qed

section \<open>Coder properties\<close>

text \<open>The properties as \<open>CreateHeader\<close> and \<open>Close\<close> build them in \<open>writer.go\<close>.\<close>

definition aesProps :: "byte list \<Rightarrow> byte list \<Rightarrow> byte list" where
  "aesProps salt iv = [0xd3, 0x7f] @ salt @ iv"

lemma aesNewReader_props:
  assumes "length salt = 8" and "length iv = 16"
  shows "aesNewReader (aesProps salt iv) [rc] = Inr \<lparr>ar_rc = Some rc, ar_salt = 8, ar_iv = iv,
    ar_cycles = 19, ar_cbc = None, ar_buf = []\<rparr>"
  using assms by (simp add: aesNewReader_def aesProps_def Let_def)

section \<open>Keys\<close>

lemma hexDigit_inject: "a < 16 \<Longrightarrow> b < 16 \<Longrightarrow> hexDigit a = hexDigit b \<longleftrightarrow> a = b"
proof -
  have all: "list_all (\<lambda>a. list_all (\<lambda>b. (hexDigit (of_nat a) = hexDigit (of_nat b)) = (a = b)) [0..<16]) [0..<16]"
    by (simp add: hexDigit_def upt_rec)
  then have "\<forall>a\<in>set [0..<16]. \<forall>b\<in>set [0..<16]. (hexDigit (of_nat a) = hexDigit (of_nat b)) = (a = b)"
    by (simp only: list_all_iff)
  then have nats: "(hexDigit (of_nat m) = hexDigit (of_nat n)) = (m = n)" if "m < 16" "n < 16" for m n
  proof -
    assume all: "\<forall>a\<in>set [0..<16]. \<forall>b\<in>set [0..<16]. (hexDigit (of_nat a) = hexDigit (of_nat b)) = (a = b)"
    have "m \<in> set [0..<16]" "n \<in> set [0..<16]" using that by simp_all
    then show ?thesis using all by blast
  qed
  assume "a < 16" and "b < 16"
  then have "unat a < 16" "unat b < 16" by (simp_all add: word_less_nat_alt)
  from nats [OF this] show ?thesis by (simp add: word_unat_eq_iff [of a b])
qed

lemma hexEncode_inject: "hexEncode xs = hexEncode ys \<longleftrightarrow> xs = ys"
proof (induction xs arbitrary: ys)
  case Nil
  show ?case by (cases ys) (simp_all add: hexEncode_def)
next
  case (Cons x xs)
  have dig: "hexDigit (drop_bit 4 x) = hexDigit (drop_bit 4 y) \<and> hexDigit (x AND 0x0F) = hexDigit (y AND 0x0F)
      \<longleftrightarrow> x = y" for y
  proof -
    have lt: "drop_bit 4 z < 16" "z AND 0x0F < 16" for z :: byte
    proof -
      show "drop_bit 4 z < 16"
        using unsigned_less [of z, where ?'a = nat] by (simp add: word_less_nat_alt unat_drop_bit_eq drop_bit_eq_div unat_div)
      have "z AND 0x0F \<le> 0x0F" by (rule word_and_le1)
      then show "z AND 0x0F < 16" by (rule order_le_less_trans) simp
    qed
    have "x = y" if "drop_bit 4 x = drop_bit 4 y" "x AND 0x0F = y AND 0x0F"
    proof (rule bit_word_eqI)
      fix n assume n: "n < LENGTH(8)"
      show "bit x n = bit y n"
      proof (cases "n < 4")
        case True
        then have m: "bit (0x0F :: byte) n"
          by (subgoal_tac "n \<in> {0, 1, 2, 3}") auto
        have "bit (x AND 0x0F) n = bit (y AND 0x0F) n" using that(2) by simp
        with m show ?thesis by (simp add: bit_and_iff)
      next
        case False
        have "bit (drop_bit 4 x) (n - 4) = bit (drop_bit 4 y) (n - 4)" using that(1) by simp
        with False show ?thesis by (simp add: bit_drop_bit_eq)
      qed
    qed
    with lt show ?thesis by (auto simp: hexDigit_inject)
  qed
  show ?case
  proof (cases ys)
    case (Cons y ys')
    with dig [of y] Cons.IH [of ys'] show ?thesis by (simp add: hexEncode_def) blast
  qed (simp add: hexEncode_def)
qed

text \<open>A cache whose entries are all derived keys.\<close>

definition cacheSound :: "crypto \<Rightarrow> ('c \<Rightarrow> cacheKey \<Rightarrow> byte list option) \<Rightarrow> 'c \<Rightarrow> bool" where
  "cacheSound c view cache \<longleftrightarrow>
     (\<forall>password cycles salt key.
        view cache \<lparr>ck_password = password, ck_cycles = cycles, ck_salt = hexEncode salt\<rparr> = Some key
        \<longrightarrow> deriveKey c cycles (salt @ utf16Encoder c password) = Inr key)"

lemma calculateKey_derive:
  assumes law: "cache_law kc view" and sound: "cacheSound c view cache"
  shows "fst (calculateKey c kc cache password cycles p off len)
      = deriveKey c cycles (take len (drop off p) @ utf16Encoder c password)"
    and "cacheSound c view (fst (snd (calculateKey c kc cache password cycles p off len)))"
proof -
  define ck where "ck = \<lparr>ck_password = password, ck_cycles = cycles, ck_salt = hexEncode (take len (drop off p))\<rparr>"
  obtain hit cache1 where get: "cacheGet kc cache ck = (hit, cache1)" by fastforce
  have h: "hit = None \<or> hit = view cache ck" and v1: "view cache1 \<subseteq>\<^sub>m view cache"
    using law get unfolding cache_law_def by (metis fst_conv, metis snd_conv)
  have le: "view cache1 k = Some key \<Longrightarrow> view cache k = Some key" for k key
    using v1 unfolding map_le_def by (metis domI)
  have s1: "cacheSound c view cache1"
    using sound unfolding cacheSound_def by (blast dest: le)
  have add: "view (cacheAdd kc cache1 ck key) \<subseteq>\<^sub>m (view cache1)(ck \<mapsto> key)" for key
    using law by (simp add: cache_law_def)
  show "fst (calculateKey c kc cache password cycles p off len)
      = deriveKey c cycles (take len (drop off p) @ utf16Encoder c password)"
  proof (cases hit)
    case (Some key)
    with h have "view cache ck = Some key" by simp
    with sound have "deriveKey c cycles (take len (drop off p) @ utf16Encoder c password) = Inr key"
      unfolding cacheSound_def ck_def by blast
    with Some get show ?thesis by (simp add: calculateKey_def Let_def ck_def)
  next
    case None
    with get show ?thesis
      by (simp add: calculateKey_def bufferAppend_def Let_def ck_def split: sum.split)
  qed
  show "cacheSound c view (fst (snd (calculateKey c kc cache password cycles p off len)))"
  proof (cases hit)
    case (Some key)
    with get s1 show ?thesis by (simp add: calculateKey_def Let_def ck_def)
  next
    case None
    show ?thesis
    proof (cases "deriveKey c cycles (take len (drop off p) @ utf16Encoder c password)")
      case (Inl e)
      with None get s1 show ?thesis by (simp add: calculateKey_def bufferAppend_def Let_def ck_def)
    next
      case (Inr key)
      have "cacheSound c view (cacheAdd kc cache1 ck key)"
        unfolding cacheSound_def
      proof (intro allI impI)
        fix password' cycles' salt' key'
        let ?ck = "\<lparr>ck_password = password', ck_cycles = cycles', ck_salt = hexEncode salt'\<rparr>"
        assume "view (cacheAdd kc cache1 ck key) ?ck = Some key'"
        with add [of key] have "((view cache1)(ck \<mapsto> key)) ?ck = Some key'"
          unfolding map_le_def by (metis domI)
        then show "deriveKey c cycles' (salt' @ utf16Encoder c password') = Inr key'"
          using Inr s1 unfolding cacheSound_def
          by (auto simp: ck_def hexEncode_inject split: if_splits)
      qed
      with None get Inr show ?thesis by (simp add: calculateKey_def bufferAppend_def Let_def ck_def)
    qed
  qed
qed

text \<open>
  The derivation leaves the properties alone on a cache hit and when the encoded password does
  not fit behind the salt; otherwise the password replaces what followed the salt.
\<close>

lemma calculateKey_properties:
  "snd (snd (calculateKey c kc cache password cycles p off len)) =
     (let ck = \<lparr>ck_password = password, ck_cycles = cycles, ck_salt = hexEncode (take len (drop off p))\<rparr>;
          w = utf16Encoder c password
      in if fst (cacheGet kc cache ck) \<noteq> None \<or> length p < off + len + length w then p
         else take (off + len) p @ w @ drop (off + len + length w) p)"
  by (auto simp: calculateKey_def bufferAppend_def Let_def split: option.splits sum.splits prod.splits)

section \<open>Properties\<close>

text \<open>The decrypting reader with a password keeps the contract of a reader.\<close>

interpretation aes: io_reader "aesRead c" "aesPlain c" aesReady AesEOF for c
proof
  fix r :: aesReader and m :: nat
  assume "aesReady r" and "0 < m"
  with aesRead_plain [of r c m]
  show "\<exists>q r'. aesRead c r m = (take q (aesPlain c r), if aesPlain c r = [] then Some AesEOF else None, r')
      \<and> q \<le> m \<and> (aesPlain c r \<noteq> [] \<longrightarrow> 0 < q) \<and> aesPlain c r' = drop q (aesPlain c r) \<and> aesReady r'"
    by (intro exI [of _ m]) auto
qed

text \<open>It fills every buffer as long as there are bytes.\<close>

lemma aesReads_plain:
  "aesReady r \<Longrightarrow> fst (reads (aesRead c) r ns) = take (sum_list ns) (aesPlain c r)"
proof (induction ns arbitrary: r)
  case (Cons n ns)
  from aesRead_plain [OF Cons.prems, of c n] obtain r' where
    "fst (aesRead c r n) = take n (aesPlain c r)" "snd (snd (aesRead c r n)) = r'"
    "aesReady r'" "aesPlain c r' = drop n (aesPlain c r)" by (metis fst_conv snd_conv)
  with Cons.IH [of r'] show ?case
    by (simp add: split_beta Let_def take_add)
qed simp

text \<open>The ciphers and caches of the examples: blocks as they are, and a list of all entries.\<close>

definition plainCrypto :: crypto where
  "plainCrypto = \<lparr>aesEncrypt = \<lambda>key b. b, aesDecrypt = \<lambda>key b. b, sha256 = \<lambda>b. replicate 32 0,
     utf16Encoder = \<lambda>b. concat (map (\<lambda>x. [x, 0]) b)\<rparr>"

definition listCache :: "(cacheKey \<times> byte list) list keyCache" where
  "listCache = \<lparr>cacheGet = \<lambda>c k. (map_of c k, c), cacheAdd = \<lambda>c k v. (k, v) # c\<rparr>"

lemma plain_laws: "block_law plainCrypto" "cache_law listCache map_of" "cacheSound c map_of []"
  by (simp_all add: block_law_def plainCrypto_def cache_law_def listCache_def cacheSound_def)

text \<open>
C6: Encryption round trip. What the encrypting writer produced with the key it derives from a
password, whatever the sizes of its writes, is read back by a decrypting reader that was made
from the coder properties of the archive and given the same password: reads of any sizes
deliver the written bytes, followed only by the zeros that fill the last block. The key comes
from the cache or is derived; the cache may hold and evict anything that it was given.
\<close>

theorem encrypted_stream_reads_back:
  assumes laws: "block_law c" "cache_law kc view" "cacheSound c view cache"
    and lens: "length salt = 8" "length iv = 16"
    and key: "deriveKey c 19 (salt @ utf16Encoder c password) = Inr key" "length key = 32"
    and reader: "aesNewReader (aesProps salt iv) [aesEncryptAll c key iv ps] = Inr r"
    and pass: "fst (aesPassword c kc cache (aesProps salt iv) password r) = Inr r'"
  shows "fst (reads (aesRead c) r' ns)
    = take (sum_list ns) (concat ps @ replicate ((16 - length (concat ps) mod 16) mod 16) 0)"
proof -
  have r: "r = \<lparr>ar_rc = Some (aesEncryptAll c key iv ps), ar_salt = 8, ar_iv = iv, ar_cycles = 19,
      ar_cbc = None, ar_buf = []\<rparr>"
    using reader aesNewReader_props [OF lens] by simp
  have "take 8 (drop 2 (aesProps salt iv)) = salt" using lens by (simp add: aesProps_def)
  then have "fst (calculateKey c kc cache password 19 (aesProps salt iv) 2 8) = Inr key"
    using calculateKey_derive(1) [OF laws(2,3)] key(1) by simp
  then have "r' = r\<lparr>ar_cbc := Some (key, iv)\<rparr>"
    using pass by (auto simp: aesPassword_def r split: sum.splits prod.splits)
  with aesPlain_back [OF block_law_goodKey [OF laws(1) key(2)] lens(2)]
  have "aesReady r' \<and> aesPlain c r' = pad16 (concat ps)" by (simp add: r)
  with aesReads_plain show ?thesis by (simp add: pad16_def)
qed

theorem encrypted_stream_reads_back_witness:
  "\<exists>r r' key. deriveKey plainCrypto 19 (replicate 8 5 @ utf16Encoder plainCrypto [112]) = Inr key
    \<and> aesNewReader (aesProps (replicate 8 5) (replicate 16 6))
        [aesEncryptAll plainCrypto key (replicate 16 6) [[1, 2], [3]]] = Inr r
    \<and> fst (aesPassword plainCrypto listCache [] (aesProps (replicate 8 5) (replicate 16 6)) [112] r) = Inr r'
    \<and> fst (reads (aesRead plainCrypto) r' [2, 1]) = [1, 2, 3]"
proof -
  let ?salt = "replicate 8 (5::byte)" and ?iv = "replicate 16 (6::byte)"
  let ?key = "replicate 32 (0::byte)"
  have key: "deriveKey plainCrypto 19 (?salt @ utf16Encoder plainCrypto [112]) = Inr ?key"
    by (simp add: deriveKey_def maxCyclesPower_def plainCrypto_def)
  let ?ct = "aesEncryptAll plainCrypto ?key ?iv [[1, 2], [3]]"
  obtain r where r: "aesNewReader (aesProps ?salt ?iv) [?ct] = Inr r" "ar_cycles r = 19" "ar_salt r = 8"
    using aesNewReader_props [of ?salt ?iv ?ct] by simp
  have "fst (calculateKey plainCrypto listCache [] [112] 19 (aesProps ?salt ?iv) 2 8) = Inr ?key"
    using calculateKey_derive(1) [OF plain_laws(2,3), of plainCrypto "[112]" 19] key
    by (simp add: aesProps_def)
  then obtain cache' p' where "calculateKey plainCrypto listCache [] [112] 19 (aesProps ?salt ?iv) 2 8 = (Inr ?key, cache', p')"
    by (metis prod.collapse)
  then obtain r' where r': "fst (aesPassword plainCrypto listCache [] (aesProps ?salt ?iv) [112] r) = Inr r'"
    by (simp add: aesPassword_def r(2,3))
  from encrypted_stream_reads_back [OF plain_laws _ _ key _ r(1) r', of "[2, 1]"]
  have "fst (reads (aesRead plainCrypto) r' [2, 1]) = [1, 2, 3]" by simp
  with key r(1) r' show ?thesis by blast
qed

text \<open>
C19: The key cache never changes a key: for every state a cache can be in that holds only
derived keys, \<open>calculateKey\<close> returns exactly what the derivation returns for this password,
number of cycles and salt, error included, and leaves such a cache.
\<close>

theorem cached_key_is_derived:
  assumes "cache_law kc view" and "cacheSound c view cache"
  shows "fst (calculateKey c kc cache password cycles p off len)
      = deriveKey c cycles (take len (drop off p) @ utf16Encoder c password)
    \<and> cacheSound c view (fst (snd (calculateKey c kc cache password cycles p off len)))"
  using calculateKey_derive [OF assms] by blast

theorem cached_key_is_derived_witness:
  "fst (calculateKey plainCrypto listCache [] [112] 25 [1, 2, 3] 0 3) = Inl CyclesPowerTooLarge"
  using cached_key_is_derived [OF plain_laws(2,3), of plainCrypto "[112]" 25 "[1, 2, 3]" 0 3]
  by (simp add: deriveKey_def maxCyclesPower_def)

text \<open>
C18: A key that is derived with an empty cache overwrites the coder properties it was derived
from: the encoded password lands behind the salt. With the properties the writer makes and a
password of at most eight characters, the initialisation vector of the folder is lost, so that
a second reader of the same folder gets another vector.
\<close>

theorem password_overwrites_vector:
  assumes "length salt = 8" and "length iv = 16" and "length (utf16Encoder c password) \<le> 16"
    and "fst (cacheGet kc cache \<lparr>ck_password = password, ck_cycles = 19, ck_salt = hexEncode salt\<rparr>) = None"
  shows "snd (snd (calculateKey c kc cache password 19 (aesProps salt iv) 2 8))
    = aesProps salt (utf16Encoder c password @ drop (length (utf16Encoder c password)) iv)"
proof -
  have "take 8 (drop 2 (aesProps salt iv)) = salt" "take 10 (aesProps salt iv) = [0xd3, 0x7f] @ salt"
    "drop 10 (aesProps salt iv) = iv" "length (aesProps salt iv) = 26"
    using assms(1,2) by (simp_all add: aesProps_def)
  with assms show ?thesis
    by (simp add: calculateKey_properties Let_def drop_drop [symmetric] add.commute [of 10] del: drop_drop)
      (simp add: aesProps_def)
qed

theorem password_overwrites_vector_witness:
  "snd (snd (calculateKey plainCrypto listCache [] [112, 119] 19 (aesProps (replicate 8 5) (replicate 16 6)) 2 8))
    = aesProps (replicate 8 5) ([112, 0, 119, 0] @ replicate 12 6)"
  using password_overwrites_vector [of "replicate 8 5" "replicate 16 6" plainCrypto "[112, 119]" listCache "[]"]
  by (simp add: plainCrypto_def listCache_def)

end
