(* ===== verification/Writer.thy ===== *)
theory Writer
  imports Header_Write Checksum Aes_RoundTrip "HOL-Library.Signed_Division"
begin

unbundle bit_operations_syntax

text \<open>
  The archive writer, \<open>writer.go\<close>. A \<open>Writer\<close> is one record; the pointers of the program are
  indices into its tables of file entries, folders and file writers. Operations that run
  concurrently are interleaved at the level of whole calls, and the coordinator goroutine is
  the operation \<open>coordStep\<close>, one received folder at a time.

  The LZMA2 encoder (\<open>github.com/unxed/xz/lzma\<close>) is an argument: what a new encoder, a write
  and a close hand to the writer underneath. The destination is an \<open>io.WriteSeeker\<close> that
  accepts every write. Random salts and vectors are arguments of the operations that draw them.
\<close>

section \<open>The environment\<close>

record 'z lzmaLib =
  lzNew :: "int \<Rightarrow> int \<Rightarrow> 'z"
  lzWrite :: "'z \<Rightarrow> byte list \<Rightarrow> 'z \<times> byte list"
  lzClose :: "'z \<Rightarrow> byte list"
  encodeDictCap :: "int \<Rightarrow> byte"
  decodeDictCap :: "byte \<Rightarrow> int"
  minDictCap :: int

record 'z env =
  en_lzma :: "'z lzmaLib"
  en_crypto :: crypto
  en_numCPU :: int

record seeker =
  sk_data :: "byte list"
  sk_pos :: nat

definition seekWrite :: "seeker \<Rightarrow> byte list \<Rightarrow> seeker" where
  "seekWrite s bs =
     \<lparr>sk_data = take (sk_pos s) (sk_data s @ replicate (sk_pos s - length (sk_data s)) 0) @ bs
                @ drop (sk_pos s + length bs) (sk_data s),
      sk_pos = sk_pos s + length bs\<rparr>"

section \<open>State\<close>

record fileInfo =
  fl_fh :: fileHeader
  fl_propByte :: byte
  fl_uncompSize :: u64
  fl_crc32 :: u32

text \<open>
  \<open>fw_files\<close> holds indices into the table of entries; \<open>fw_spool\<close> is the content of the spool
  (theory \<open>Spool\<close>), \<open>fw_aesW\<close> is present when the folder is encrypted.
\<close>

record 'z folderWriter =
  fw_fileCount :: nat
  fw_uncompSize :: int
  fw_compressor :: 'z
  fw_dictCap :: int
  fw_concurrency :: int
  fw_aesW :: "aesWriter option"
  fw_compCount :: u64
  fw_unencComp :: u64
  fw_propByte :: byte
  fw_aesProps :: "byte list"
  fw_isEncrypted :: bool
  fw_files :: "nat list"
  fw_seq :: nat
  fw_spool :: "byte list option"
  fw_closed :: bool

record fileWriter =
  fr_fi :: nat
  fr_crc32Hash :: u32
  fr_uncompSize :: u64
  fr_closed :: bool
  fr_fold :: "nat option"

record 'z writer =
  w_w :: seeker
  w_files :: "fileInfo list"
  w_folders :: "'z folderWriter list"
  w_fileWriters :: "fileWriter list"
  w_current :: "nat option"
  w_activeFold :: "nat option"
  w_solid :: bool
  w_password :: "byte list"
  w_closed :: bool
  w_concurrency :: int
  w_spools :: "nat list"
  w_spoolsClosed :: bool
  w_folderMap :: "(nat \<times> nat) list"
  w_writeSeq :: nat

datatype writer_error = WriterClosed | FileWriterClosed | WriterPanic

definition newWriter :: "seeker \<Rightarrow> bool \<Rightarrow> byte list \<Rightarrow> int \<Rightarrow> 'z writer" where
  "newWriter s solid password concurrency =
     \<lparr>w_w = s\<lparr>sk_pos := 32\<rparr>, w_files = [], w_folders = [], w_fileWriters = [],
      w_current = None, w_activeFold = None, w_solid = solid, w_password = password,
      w_closed = False, w_concurrency = concurrency, w_spools = [], w_spoolsClosed = False,
      w_folderMap = [], w_writeSeq = 0\<rparr>"

text \<open>\<open>NewWriter\<close> applies its options to a writer that is not solid, has no password and works in sequence.\<close>

datatype writerOption = WithSolid bool | WithPassword "byte list" | WithConcurrency int

fun applyOption :: "writerOption \<Rightarrow> 'z writer \<Rightarrow> 'z writer" where
  "applyOption (WithSolid solid) w = w\<lparr>w_solid := solid\<rparr>"
| "applyOption (WithPassword password) w = w\<lparr>w_password := password\<rparr>"
| "applyOption (WithConcurrency n) w = w\<lparr>w_concurrency := n\<rparr>"

definition NewWriter :: "seeker \<Rightarrow> writerOption list \<Rightarrow> 'z writer" where
  "NewWriter s opts = fold applyOption opts (newWriter s False [] 0)"

lemma applyOption_new:
  "applyOption opt (newWriter s b p n) =
     (case opt of WithSolid b' \<Rightarrow> newWriter s b' p n | WithPassword p' \<Rightarrow> newWriter s b p' n
      | WithConcurrency n' \<Rightarrow> newWriter s b p n')"
  by (cases opt) (simp_all add: newWriter_def)

lemma NewWriter_form: "\<exists>b p n. NewWriter s opts = newWriter s b p n"
proof -
  have "\<exists>b' p' n'. fold applyOption opts (newWriter s b p n) = newWriter s b' p' n'" for b p n
    by (induction opts arbitrary: b p n) (auto simp: applyOption_new split: writerOption.split)
  then show ?thesis by (simp add: NewWriter_def)
qed

section \<open>Folders\<close>

text \<open>Bytes that leave the compressor: through the encryptor, if there is one, and counted.\<close>

definition folderEmit :: "crypto \<Rightarrow> 'z folderWriter \<Rightarrow> byte list \<Rightarrow> 'z folderWriter \<times> byte list" where
  "folderEmit c f bs =
     (case fw_aesW f of
        None \<Rightarrow> (f\<lparr>fw_compCount := fw_compCount f + of_nat (length bs)\<rparr>, bs)
      | Some aw \<Rightarrow>
          let (aw', out) = aesWrite c aw bs
          in (f\<lparr>fw_aesW := Some aw', fw_unencComp := fw_unencComp f + of_nat (length bs),
                fw_compCount := fw_compCount f + of_nat (length out)\<rparr>, out))"

text \<open>The sink of a folder: its spool, or the archive itself.\<close>

definition sinkWrite :: "'z writer \<Rightarrow> nat \<Rightarrow> 'z folderWriter \<Rightarrow> byte list \<Rightarrow> 'z writer" where
  "sinkWrite w k f out =
     (case fw_spool f of
        Some sp \<Rightarrow> w\<lparr>w_folders := (w_folders w)[k := f\<lparr>fw_spool := Some (sp @ out)\<rparr>]\<rparr>
      | None \<Rightarrow> w\<lparr>w_folders := (w_folders w)[k := f], w_w := seekWrite (w_w w) out\<rparr>)"

definition folderWrite :: "'z env \<Rightarrow> 'z writer \<Rightarrow> nat \<Rightarrow> byte list \<Rightarrow> 'z writer" where
  "folderWrite en w k p =
     (let f = w_folders w ! k;
          (z, bs) = lzWrite (en_lzma en) (fw_compressor f) p;
          (f, out) = folderEmit (en_crypto en) (f\<lparr>fw_compressor := z\<rparr>) bs
      in sinkWrite w k f out)"

definition folderClose :: "'z env \<Rightarrow> 'z writer \<Rightarrow> nat \<Rightarrow> 'z writer" where
  "folderClose en w k =
     (let f = w_folders w ! k in
      if fw_closed f then w
      else
        let (f, out) = folderEmit (en_crypto en) (f\<lparr>fw_closed := True\<rparr>)
                         (lzClose (en_lzma en) (fw_compressor f));
            (f, out') =
              (case fw_aesW f of
                 Some aw \<Rightarrow>
                   if fw_isEncrypted f then
                     let (aw', o') = aesClose (en_crypto en) aw
                     in (f\<lparr>fw_aesW := Some aw',
                           fw_compCount := fw_compCount f + of_nat (length o')\<rparr>, o')
                   else (f, [])
               | None \<Rightarrow> (f, []))
        in sinkWrite w k f (out @ out'))"

section \<open>Files\<close>

definition fileWrite ::
    "'z env \<Rightarrow> 'z writer \<Rightarrow> nat \<Rightarrow> byte list \<Rightarrow> writer_error + 'z writer" where
  "fileWrite en w i p =
     (let fw = w_fileWriters w ! i in
      if fr_closed fw then Inl FileWriterClosed
      else
        let w = (case fr_fold fw of None \<Rightarrow> w | Some k \<Rightarrow> folderWrite en w k p);
            fw = (if 0 < length p
                  then fw\<lparr>fr_crc32Hash := crc32Update (fr_crc32Hash fw) p,
                          fr_uncompSize := fr_uncompSize fw + of_nat (length p)\<rparr>
                  else fw)
        in Inr (w\<lparr>w_fileWriters := (w_fileWriters w)[i := fw]\<rparr>))"

definition fileClose :: "'z env \<Rightarrow> 'z writer \<Rightarrow> nat \<Rightarrow> writer_error + 'z writer" where
  "fileClose en w i =
     (let fw = w_fileWriters w ! i in
      if fr_closed fw then Inr w
      else
        let w = w\<lparr>w_fileWriters := (w_fileWriters w)[i := fw\<lparr>fr_closed := True\<rparr>]\<rparr>;
            w' =
              (case fr_fold fw of
                 Some k \<Rightarrow>
                   if w_solid w then Inr w
                   else
                     let w = folderClose en w k in
                     if 1 < w_concurrency w then
                       if w_spoolsClosed w then Inl WriterPanic
                       else Inr (w\<lparr>w_spools := w_spools w @ [k]\<rparr>)
                     else Inr w
               | None \<Rightarrow> Inr w)
        in case w' of
             Inl e \<Rightarrow> Inl e
           | Inr w \<Rightarrow>
               let fi = w_files w ! fr_fi fw;
                   fi = fi\<lparr>fl_uncompSize := fr_uncompSize fw, fl_crc32 := fr_crc32Hash fw,
                          fl_fh := (fl_fh fi)\<lparr>fh_UncompressedSize := fr_uncompSize fw,
                                              fh_CRC32 := fr_crc32Hash fw\<rparr>\<rparr>
               in Inr (w\<lparr>w_files := (w_files w)[fr_fi fw := fi]\<rparr>))"

section \<open>The coordinator\<close>

text \<open>
  One turn of the outer loop: a folder is received and remembered, and as long as the next
  folder in order is known its spool is copied to the archive.
\<close>

function coordFlush :: "'z writer \<Rightarrow> 'z writer" where
  "coordFlush w =
     (case map_of (w_folderMap w) (w_writeSeq w) of
        None \<Rightarrow> w
      | Some k \<Rightarrow>
          coordFlush
            (w\<lparr>w_w := seekWrite (w_w w)
                       (case fw_spool (w_folders w ! k) of None \<Rightarrow> [] | Some sp \<Rightarrow> sp),
               w_folderMap := filter (\<lambda>e. fst e \<noteq> w_writeSeq w) (w_folderMap w),
               w_writeSeq := Suc (w_writeSeq w)\<rparr>))"
  by pat_completeness auto
termination
  by (relation "measure (\<lambda>w. length (w_folderMap w))")
    (auto dest!: map_of_SomeD intro!: length_filter_less)

declare coordFlush.simps [simp del]

definition coordStep :: "'z writer \<Rightarrow> 'z writer" where
  "coordStep w =
     (case w_spools w of
        [] \<Rightarrow> w
      | k # ks \<Rightarrow> coordFlush (w\<lparr>w_spools := ks, 
                           w_folderMap := (fw_seq (w_folders w ! k), k) # w_folderMap w\<rparr>))"

lemma coordFlush_spools [simp]: "w_spools (coordFlush w) = w_spools w"
  by (induction w rule: coordFlush.induct) (subst coordFlush.simps, simp split: option.split)

text \<open>After the channel was closed: until it is empty.\<close>

function coordDrain :: "'z writer \<Rightarrow> 'z writer" where
  "coordDrain w = (if w_spools w = [] then w else coordDrain (coordStep w))"
  by pat_completeness auto
termination
  by (relation "measure (\<lambda>w. length (w_spools w))") (auto simp: coordStep_def split: list.splits)

declare coordDrain.simps [simp del]

section \<open>Adding a file\<close>

text \<open>The dictionary size and the concurrency of the encoder of a new folder.\<close>

definition chooseDictCap :: "'z env \<Rightarrow> bool \<Rightarrow> u64 \<Rightarrow> int" where
  "chooseDictCap en solid sz =
     (let dictCap = 8 * 1024 * 1024 in
      if \<not> solid \<and> 0 < sz then
        let numCPU = (if en_numCPU en < 1 then 1 else en_numCPU en);
            target = sint sz sdiv numCPU;
            target = (if target < 1024 * 1024 then 1024 * 1024 else target)
        in if target < dictCap
           then decodeDictCap (en_lzma en) (encodeDictCap (en_lzma en) target)
           else dictCap
      else dictCap)"

definition lzmaConcurrency :: "bool \<Rightarrow> u64 \<Rightarrow> int" where
  "lzmaConcurrency solid sz = (if solid \<or> 1024 * 1024 < sz then 0 else 1)"

definition newFolderWriter ::
    "'z env \<Rightarrow> 'z writer \<Rightarrow> fileInfo \<Rightarrow> int \<Rightarrow> byte list \<Rightarrow> byte list \<Rightarrow> 'z folderWriter" where
  "newFolderWriter en w fi dictCap salt iv =
     (let encrypted = (w_password w \<noteq> []);
          concurrency = lzmaConcurrency (w_solid w) (fh_UncompressedSize (fl_fh fi));
          key = (case deriveKey (en_crypto en) 19 (salt @ utf16Encoder (en_crypto en) (w_password w)) of
                   Inr key \<Rightarrow> key | Inl _ \<Rightarrow> [])
      in \<lparr>fw_fileCount = 0, fw_uncompSize = 0, fw_compressor = lzNew (en_lzma en) dictCap concurrency,
          fw_dictCap = dictCap, fw_concurrency = concurrency,
          fw_aesW = (if encrypted then Some (newAesWriter key iv) else None),
          fw_compCount = 0, fw_unencComp = 0, fw_propByte = fl_propByte fi,
          fw_aesProps = (if encrypted then aesProps salt iv else []),
          fw_isEncrypted = encrypted, fw_files = [], fw_seq = length (w_folders w),
          fw_spool = (if 1 < w_concurrency w \<and> \<not> w_solid w then Some [] else None),
          fw_closed = False\<rparr>)"

text \<open>Evaluation derives no key for an archive without a password.\<close>

lemma newFolderWriter_code [code]:
  "newFolderWriter en w fi dictCap salt iv =
     (let encrypted = (w_password w \<noteq> []);
          concurrency = lzmaConcurrency (w_solid w) (fh_UncompressedSize (fl_fh fi))
      in \<lparr>fw_fileCount = 0, fw_uncompSize = 0, fw_compressor = lzNew (en_lzma en) dictCap concurrency,
          fw_dictCap = dictCap, fw_concurrency = concurrency,
          fw_aesW = (if encrypted
            then Some (newAesWriter
              (case deriveKey (en_crypto en) 19 (salt @ utf16Encoder (en_crypto en) (w_password w)) of
                 Inr key \<Rightarrow> key | Inl _ \<Rightarrow> []) iv)
            else None),
          fw_compCount = 0, fw_unencComp = 0, fw_propByte = fl_propByte fi,
          fw_aesProps = (if encrypted then aesProps salt iv else []),
          fw_isEncrypted = encrypted, fw_files = [], fw_seq = length (w_folders w),
          fw_spool = (if 1 < w_concurrency w \<and> \<not> w_solid w then Some [] else None),
          fw_closed = False\<rparr>)"
  by (simp add: newFolderWriter_def Let_def)

text \<open>The active folder, or a new one: always a new one unless the archive is solid.\<close>

definition ensureFolder ::
    "'z env \<Rightarrow> 'z writer \<Rightarrow> fileInfo \<Rightarrow> int \<Rightarrow> byte list \<Rightarrow> byte list \<Rightarrow> nat \<times> 'z writer" where
  "ensureFolder en w fi dictCap salt iv =
     (case w_activeFold w of
        Some k \<Rightarrow>
          if w_solid w then (k, w)
          else
            let w = (if w_concurrency w \<le> 1 then folderClose en w k else w);
                f = newFolderWriter en w fi dictCap salt iv
            in (length (w_folders w),
                w\<lparr>w_activeFold := Some (length (w_folders w)), w_folders := w_folders w @ [f]\<rparr>)
      | None \<Rightarrow>
          let f = newFolderWriter en w fi dictCap salt iv
          in (length (w_folders w),
              w\<lparr>w_activeFold := Some (length (w_folders w)), w_folders := w_folders w @ [f]\<rparr>))"

definition addFileWriter :: "'z writer \<Rightarrow> nat \<Rightarrow> nat option \<Rightarrow> 'z writer" where
  "addFileWriter w fi fld =
     w\<lparr>w_fileWriters := w_fileWriters w @
         [\<lparr>fr_fi = fi, fr_crc32Hash = 0, fr_uncompSize = 0, fr_closed = False, fr_fold = fld\<rparr>],
       w_current := Some (length (w_fileWriters w))\<rparr>"

text \<open>The new file writer is the last of the table and the current one.\<close>

definition CreateHeader ::
    "'z env \<Rightarrow> 'z writer \<Rightarrow> fileHeader \<Rightarrow> byte list \<Rightarrow> byte list \<Rightarrow> writer_error + 'z writer" where
  "CreateHeader en w fh salt iv =
     (if w_closed w then Inl WriterClosed
      else
        case (case w_current w of
                Some i \<Rightarrow> if w_solid w \<or> w_concurrency w \<le> 1 then fileClose en w i else Inr w
              | None \<Rightarrow> Inr w) of
          Inl e \<Rightarrow> Inl e
        | Inr w \<Rightarrow>
            let fh = fh\<lparr>fh_isEmptyStream := modeIsDir (Mode fh), fh_isEmptyFile := False\<rparr>;
                dictCap = chooseDictCap en (w_solid w) (fh_UncompressedSize fh);
                fi = \<lparr>fl_fh = fh, fl_propByte = encodeDictCap (en_lzma en) dictCap,
                      fl_uncompSize = 0, fl_crc32 = 0\<rparr>;
                n = length (w_files w);
                w = w\<lparr>w_files := w_files w @ [fi]\<rparr>
            in
            if fh_isEmptyStream fh then Inr (addFileWriter w n None)
            else
              let (k, w) = ensureFolder en w fi dictCap salt iv;
                  f = w_folders w ! k;
                  f = f\<lparr>fw_files := fw_files f @ [n], fw_fileCount := fw_fileCount f + 1,
                        fw_uncompSize := fw_uncompSize f + sint (fh_UncompressedSize fh)\<rparr>
              in Inr (addFileWriter (w\<lparr>w_folders := (w_folders w)[k := f]\<rparr>) n (Some k)))"

definition Create ::
    "'z env \<Rightarrow> 'z writer \<Rightarrow> gostring \<Rightarrow> byte list \<Rightarrow> byte list \<Rightarrow> writer_error + 'z writer" where
  "Create en w name salt iv = CreateHeader en w (zeroFileHeader\<lparr>fh_Name := name\<rparr>) salt iv"

section \<open>An environment for examples\<close>

text \<open>A compressor that stores.\<close>

definition storeLzma :: "unit lzmaLib" where
  "storeLzma = \<lparr>lzNew = \<lambda>d c. (), lzWrite = \<lambda>z p. (z, p), lzClose = \<lambda>z. [],
     encodeDictCap = \<lambda>d. if d \<le> 8388608 then 22 else 39,
     decodeDictCap = \<lambda>b. (2 + int (unat b mod 2)) * 2 ^ (unat b div 2 + 11), minDictCap = 4096\<rparr>"

definition plainEnv :: "unit env" where
  "plainEnv = \<lparr>en_lzma = storeLzma, en_crypto = plainCrypto, en_numCPU = 1\<rparr>"

end
