(* ===== verification/Writer_Close.thy ===== *)
theory Writer_Close
  imports Writer
begin

unbundle bit_operations_syntax

text \<open>
  \<open>Writer.Close\<close>: the header is built from the tables of the writer, encoded, compressed and
  encrypted, described by an encoded header, and pointed to by the signature header that goes
  to the first 32 bytes.
\<close>

section \<open>The header\<close>

definition lzma2Coder :: "byte \<Rightarrow> coder" where
  "lzma2Coder propByte = \<lparr>co_id = [0x21], co_in = 1, co_out = 1, co_properties = [propByte]\<rparr>"

definition aesCoder :: "byte list \<Rightarrow> coder" where
  "aesCoder props = \<lparr>co_id = [0x06, 0xf1, 0x07, 0x01], co_in = 1, co_out = 1, co_properties = props\<rparr>"

definition folderOf :: "fileInfo list \<Rightarrow> 'z folderWriter \<Rightarrow> folder" where
  "folderOf files f =
     (let totalUncomp = sum_list (map (\<lambda>i. fl_uncompSize (files ! i)) (fw_files f));
          (c, bindPairs, sizes) =
            (if fw_isEncrypted f
             then ([aesCoder (fw_aesProps f), lzma2Coder (fw_propByte f)],
                   [\<lparr>bp_in = 1, bp_out = 0\<rparr>], [fw_unencComp f, totalUncomp])
             else ([lzma2Coder (fw_propByte f)], [], [totalUncomp]))
      in \<lparr>fo_in = of_nat (length c), fo_out = of_nat (length c), fo_packedStreams = 1,
          fo_coder = c, fo_bindPair = bindPairs, fo_size = sizes, fo_packed = [0]\<rparr>)"

definition buildHeader :: "'z writer \<Rightarrow> header" where
  "buildHeader w =
     (if 0 < length (w_files w) then
        let pInfo = \<lparr>pi_position = 0, pi_streams = of_nat (length (w_folders w)),
                     pi_size = map fw_compCount (w_folders w), pi_digest = []\<rparr>;
            uInfo = \<lparr>ui_folder = map (folderOf (w_files w)) (w_folders w), ui_digest = []\<rparr>;
            sInfo = \<lparr>ss_streams = map (\<lambda>f. of_nat (length (fw_files f))) (w_folders w),
                     ss_size = concat (map (\<lambda>f. map (\<lambda>i. fl_uncompSize (w_files w ! i)) (fw_files f))
                                         (w_folders w)),
                     ss_digest = concat (map (\<lambda>f. map (\<lambda>i. fl_crc32 (w_files w ! i)) (fw_files f))
                                           (w_folders w))\<rparr>
        in \<lparr>hd_streamsInfo = Some \<lparr>si_packInfo = Some pInfo, si_unpackInfo = Some uInfo,
                                  si_subStreamsInfo = Some sInfo\<rparr>,
            hd_filesInfo = Some \<lparr>fi_file = map fl_fh (w_files w)\<rparr>\<rparr>
      else \<lparr>hd_streamsInfo = None, hd_filesInfo = None\<rparr>)"

definition compressHeaderLZMA2 :: "'z env \<Rightarrow> byte list \<Rightarrow> byte \<times> byte list" where
  "compressHeaderLZMA2 en data =
     (let target = int (length data);
          target = (if target < minDictCap (en_lzma en) then minDictCap (en_lzma en) else target);
          propByte = encodeDictCap (en_lzma en) target;
          dictCap = decodeDictCap (en_lzma en) propByte;
          (z, out) = lzWrite (en_lzma en) (lzNew (en_lzma en) dictCap 1) data
      in (propByte, out @ lzClose (en_lzma en) z))"

text \<open>
  The header as it is stored: its bytes (compressed, and encrypted when there is a password)
  and the streams that describe them, for the position of the packed stream.
\<close>

definition encodeHeader ::
    "'z env \<Rightarrow> byte list \<Rightarrow> byte list \<Rightarrow> byte list \<Rightarrow> byte list \<Rightarrow> u64 \<Rightarrow> byte list \<times> streamsInfo" where
  "encodeHeader en password salt iv headerBytes position =
     (let (propByte, comp) = compressHeaderLZMA2 en headerBytes in
      if password \<noteq> [] then
        let key = (case deriveKey (en_crypto en) 19 (salt @ utf16Encoder (en_crypto en) password) of
                     Inr key \<Rightarrow> key | Inl _ \<Rightarrow> []);
            (aw, out) = aesWrite (en_crypto en) (newAesWriter key iv) comp;
            (aw, out') = aesClose (en_crypto en) aw;
            packed = out @ out'
        in (packed,
            \<lparr>si_packInfo = Some \<lparr>pi_position = position, pi_streams = 1,
                                 pi_size = [of_nat (length packed)], pi_digest = []\<rparr>,
             si_unpackInfo = Some \<lparr>ui_folder =
               [\<lparr>fo_in = 2, fo_out = 2, fo_packedStreams = 1,
                 fo_coder = [aesCoder (aesProps salt iv), lzma2Coder propByte],
                 fo_bindPair = [\<lparr>bp_in = 1, bp_out = 0\<rparr>],
                 fo_size = [of_nat (length comp), of_nat (length headerBytes)], fo_packed = [0]\<rparr>],
               ui_digest = [checksumIEEE headerBytes]\<rparr>,
             si_subStreamsInfo = None\<rparr>)
      else
        (comp,
         \<lparr>si_packInfo = Some \<lparr>pi_position = position, pi_streams = 1,
                              pi_size = [of_nat (length comp)], pi_digest = []\<rparr>,
          si_unpackInfo = Some \<lparr>ui_folder =
            [\<lparr>fo_in = 1, fo_out = 1, fo_packedStreams = 1, fo_coder = [lzma2Coder propByte],
              fo_bindPair = [], fo_size = [of_nat (length headerBytes)], fo_packed = [0]\<rparr>],
            ui_digest = [checksumIEEE headerBytes]\<rparr>,
          si_subStreamsInfo = None\<rparr>))"

section \<open>The signature header\<close>

definition signature :: "byte list" where
  "signature = [0x37, 0x7A, 0xBC, 0xAF, 0x27, 0x1C]"

record startHeader =
  sh_Offset :: u64
  sh_Size :: u64
  sh_CRC :: u32

definition startBytes :: "startHeader \<Rightarrow> byte list" where
  "startBytes s = putUint64 (sh_Offset s) @ putUint64 (sh_Size s) @ putUint32 (sh_CRC s)"

definition signatureBytes :: "startHeader \<Rightarrow> byte list" where
  "signatureBytes s = signature @ [0, 4] @ putUint32 (checksumIEEE (startBytes s))"

section \<open>Close\<close>

text \<open>Before the header: the open file, the solid folder, the coordinator.\<close>

definition closeStreams :: "'z env \<Rightarrow> 'z writer \<Rightarrow> writer_error + 'z writer" where
  "closeStreams en w =
     (case (case w_current w of Some i \<Rightarrow> fileClose en w i | None \<Rightarrow> Inr w) of
        Inl e \<Rightarrow> Inl e
      | Inr w \<Rightarrow>
          let w = (case w_activeFold w of
                     Some k \<Rightarrow> if w_solid w then (folderClose en w k)\<lparr>w_activeFold := None\<rparr> else w
                   | None \<Rightarrow> w)
          in Inr (if 1 < w_concurrency w \<and> \<not> w_solid w
                  then coordDrain (w\<lparr>w_spoolsClosed := True\<rparr>) else w))"

definition finish :: "'z env \<Rightarrow> 'z writer \<Rightarrow> byte list \<Rightarrow> byte list \<Rightarrow> writer_error + 'z writer" where
  "finish en w salt iv =
     (case writeHeader (buildHeader w) of
        Inl _ \<Rightarrow> Inl WriterPanic
      | Inr bs \<Rightarrow>
          let headerOffset = sk_pos (w_w w);
              (packed, info) = encodeHeader en (w_password w) salt iv (0x01 # bs)
                                 (of_int (int headerOffset - 32));
              s = seekWrite (w_w w) packed;
              metadataOffset = sk_pos s
          in case writeStreamsInfo info of
               Inl _ \<Rightarrow> Inl WriterPanic
             | Inr ms \<Rightarrow>
                 let metadata = 0x17 # ms;
                     s = seekWrite s metadata;
                     start = \<lparr>sh_Offset = of_int (int metadataOffset - 32),
                              sh_Size = of_nat (length metadata), sh_CRC = checksumIEEE metadata\<rparr>;
                     s = seekWrite (s\<lparr>sk_pos := 0\<rparr>) (signatureBytes start);
                     s = seekWrite s (startBytes start)
                 in Inr (w\<lparr>w_w := s\<rparr>))"

definition writerClose :: "'z env \<Rightarrow> 'z writer \<Rightarrow> byte list \<Rightarrow> byte list \<Rightarrow> writer_error + 'z writer" where
  "writerClose en w salt iv =
     (if w_closed w then Inr w
      else
        case closeStreams en (w\<lparr>w_closed := True\<rparr>) of
          Inl e \<Rightarrow> Inl e
        | Inr w \<Rightarrow> finish en w salt iv)"

end
