(* ===== verification/Streams_RoundTrip.thy ===== *)
theory Streams_RoundTrip
  imports Header_Write
begin

unbundle bit_operations_syntax

text \<open>
  Reading back what \<open>write_struct.go\<close> writes for the streams of an archive: pack info,
  coders, folders, unpack info, substreams. Each part has a predicate that says when the
  structure is consistent (the counts agree with the lists, the values fit the parser's
  bounds), and a lemma that the parser returns it. \<open>codec_view\<close> (theory Prelude) is
  interpreted on the parts that are repeated.
\<close>

section \<open>Optional sections\<close>

lemma optSection_absent [simp]: "got \<noteq> want \<Longrightarrow> optSection got want p a = preturn (a, got)"
  by (simp add: optSection_def)

lemma optSection_present:
  assumes "\<And>r. p (feed bs r) = Inr (x, r)"
  shows "pbind (optSection want want p a) f (feed (bs @ next # rest) r) = f (x, next) (feed rest r)"
    and "pbind (optSection want want p a) f (feed (bs @ [next]) r) = f (x, next) r"
proof -
  have "optSection want want p a (feed (bs @ next # rest) r) = Inr ((x, next), feed rest r)" for rest
    by (simp add: optSection_def feed_append pbind_Inr assms decode_simps)
  then show "pbind (optSection want want p a) f (feed (bs @ next # rest) r) = f (x, next) (feed rest r)"
    and "pbind (optSection want want p a) f (feed (bs @ [next]) r) = f (x, next) r"
    by (simp_all add: pbind_Inr feed_Nil)
qed

text \<open>\<open>w\<close> succeeds, and \<open>p\<close> reads the bytes back as \<open>x\<close> and stops behind them.\<close>

definition readsBack :: "byte list result \<Rightarrow> 'b parser \<Rightarrow> 'b \<Rightarrow> bool" where
  "readsBack w p x \<longleftrightarrow> (\<exists>bs. w = Inr bs \<and> (\<forall>r. p (feed bs r) = Inr (x, r)))"

lemma readsBackE:
  assumes "readsBack w p x"
  obtains bs where "w = Inr bs" and "\<And>r. p (feed bs r) = Inr (x, r)"
  using assms by (auto simp: readsBack_def)

lemma readsBackI: "w = Inr bs \<Longrightarrow> (\<And>r. p (feed bs r) = Inr (x, r)) \<Longrightarrow> readsBack w p x"
  by (auto simp: readsBack_def)

lemma writeCRC_allDefined [simp]: "writeCRC cs (allDefined cs) = Inr (crcBytes cs)"
  by (simp add: allDefined_def writeCRC_all)

section \<open>Pack info\<close>

definition okPackInfo :: "packInfo \<Rightarrow> bool" where
  "okPackInfo p \<longleftrightarrow>
     checkUint64 (pi_streams p) True = None
     \<and> (pi_size p = [] \<or> length (pi_size p) = unat (pi_streams p))
     \<and> (pi_digest p = [] \<or> length (pi_digest p) = unat (pi_streams p))"

lemma readPackInfo_write: "okPackInfo p \<Longrightarrow> readsBack (writePackInfo p) readPackInfo p"
proof -
  assume ok: "okPackInfo p"
  have sz: "pi_size p \<noteq> [] \<Longrightarrow> readSizes (pi_streams p) (feed (writeSizes (pi_size p)) r)
      = Inr (pi_size p, r)" for r
    using ok by (auto simp: okPackInfo_def intro!: sizes.dec_enc)
  have dg: "pi_digest p \<noteq> [] \<Longrightarrow> readCRC (pi_streams p) (feed (crcBytes (pi_digest p)) r)
      = Inr (pi_digest p, r)" for r
    using ok by (auto simp: okPackInfo_def intro!: digests.dec_enc)
  have chk: "checkUint64 (pi_streams p) True = None"
    using ok by (simp add: okPackInfo_def)
  show ?thesis
    by (cases "pi_size p = []"; cases "pi_digest p = []";
        (rule readsBackI, simp add: writePackInfo_def,
         simp add: readPackInfo_def varint.bind_enc varint_bounded.bind_enc chk decode_simps
           optSection_present [OF sz] optSection_present [OF dg]))
qed

section \<open>Coders and folders\<close>

definition okCoder :: "coder \<Rightarrow> bool" where
  "okCoder c \<longleftrightarrow>
     length (co_id c) < 16 \<and> checkUint64 (co_in c) True = None \<and> checkUint64 (co_out c) True = None
     \<and> length (co_properties c) < 2 ^ 32"

lemma readExact_feed: "length bs = n \<Longrightarrow> readExact n (feed bs r) = Inr (bs, r)"
  by (auto simp: readExact_def pbind_Inr readSome_feed)

lemma bind_readExact_feed: "length bs = n \<Longrightarrow> pbind (readExact n) f (feed (bs @ cs) r) = f bs (feed cs r)"
  by (simp add: feed_append pbind_Inr readExact_feed)

lemma bind_readExact_only: "length bs = n \<Longrightarrow> pbind (readExact n) f (feed bs r) = f bs r"
  by (simp add: pbind_Inr readExact_feed)

lemma checkUint64_of_nat:
  assumes "n < 2 ^ 32" and "nz \<longrightarrow> n \<noteq> 0"
  shows "checkUint64 (of_nat n) nz = None" and "unat (of_nat n :: u64) = n"
proof -
  show u: "unat (of_nat n :: u64) = n"
    using assms(1) by (simp add: unat_of_nat)
  then have "(of_nat n :: u64) = 0 \<Longrightarrow> n = 0" by simp
  then show "checkUint64 (of_nat n) nz = None"
    using assms u by (auto simp: checkUint64_None word_le_nat_alt)
qed

lemma coder_flags:
  fixes l :: nat and c p :: bool
  assumes "l < 16"
  defines "v \<equiv> (of_nat l AND 0x0F) OR (if c then 0x10 else 0) OR (if p then 0x20 else (0::byte))"
  shows "unat (v AND 0x0F) = l" and "(v AND 0x10 \<noteq> 0) = c" and "(v AND 0x20 \<noteq> 0) = p"
proof -
  have "list_all (\<lambda>l. let v = (of_nat l AND 0x0F) OR (if c then 0x10 else 0) OR (if p then 0x20 else (0::byte))
      in unat (v AND 0x0F) = l \<and> (v AND 0x10 \<noteq> 0) = c \<and> (v AND 0x20 \<noteq> 0) = p) [0..<16]"
    by (cases c; cases p) (simp_all add: upt_rec Let_def)
  then show "unat (v AND 0x0F) = l" and "(v AND 0x10 \<noteq> 0) = c" and "(v AND 0x20 \<noteq> 0) = p"
    using assms(1) by (simp_all add: list_all_iff v_def Let_def)
qed

lemma readCoder_write:
  assumes "okCoder c"
  shows "readCoder (feed (writeCoder c) r) = Inr (c, r)"
proof -
  let ?cx = "co_in c \<noteq> 1 \<or> co_out c \<noteq> 1" and ?pr = "0 < length (co_properties c)"
  let ?v = "(of_nat (length (co_id c)) AND 0x0F) OR (if ?cx then 0x10 else 0)
    OR (if ?pr then 0x20 else (0::byte))"
  note flags = coder_flags [of "length (co_id c)" ?cx ?pr]
  have id: "unat (?v AND 0x0F) = length (co_id c)" and cx: "(?v AND 0x10 \<noteq> 0) = ?cx"
    and pr: "(?v AND 0x20 \<noteq> 0) = ?pr"
    using assms flags by (auto simp: okCoder_def)
  have io: "checkUint64 (co_in c) True = None" "checkUint64 (co_out c) True = None"
    and len: "?pr \<Longrightarrow> checkUint64 (of_nat (length (co_properties c))) True = None"
      "unat (of_nat (length (co_properties c)) :: u64) = length (co_properties c)"
    using assms checkUint64_of_nat [of "length (co_properties c)"]
    by (auto simp: okCoder_def)
  have w: "writeCoder c = ?v # co_id c
         @ (if ?cx then writeUint64 (co_in c) @ writeUint64 (co_out c) else [])
         @ (if ?pr then writeUint64 (of_nat (length (co_properties c))) @ co_properties c else [])"
    unfolding writeCoder_def Let_def ..
  show ?thesis
    unfolding w readCoder_def pbind_readByte_feed id cx pr
    by (cases ?cx; cases ?pr)
      (auto simp: bind_readExact_feed bind_readExact_only varint_bounded.bind_enc
        varint_bounded.bind_enc_only io len)
qed

interpretation coder_codec: codec writeCoder readCoder okCoder
  by unfold_locales (rule readCoder_write)

definition okBindPair :: "bindPair \<Rightarrow> bool" where
  "okBindPair bp \<longleftrightarrow> checkUint64 (bp_in bp) False = None \<and> checkUint64 (bp_out bp) False = None"

interpretation bindPair_codec: codec writeBindPair readBindPair okBindPair
  by unfold_locales
    (simp add: writeBindPair_def readBindPair_def okBindPair_def varint_bounded.bind_enc
      varint_bounded.bind_enc_only)

text \<open>
  A folder as the parser accepts it: the numbers of inputs and outputs are the sums over the
  coders, all outputs but one are bound, and with a single packed stream the packed input is
  computed as the unbound one.
\<close>

definition okFolder :: "folder \<Rightarrow> bool" where
  "okFolder f \<longleftrightarrow>
     fo_coder f \<noteq> [] \<and> length (fo_coder f) < 2 ^ 32 \<and> list_all okCoder (fo_coder f)
     \<and> fo_in f = sum_list (map co_in (fo_coder f)) \<and> fo_out f = sum_list (map co_out (fo_coder f))
     \<and> checkUint64 (fo_in f) True = None \<and> checkUint64 (fo_out f) True = None
     \<and> fo_out f \<le> fo_in f
     \<and> length (fo_bindPair f) = unat (fo_out f - 1) \<and> list_all okBindPair (fo_bindPair f)
     \<and> fo_packedStreams f = fo_in f - (fo_out f - 1)
     \<and> (if fo_packedStreams f = 1
        then fo_packed f = filter (\<lambda>i. findInBindPair f i = None) (map of_nat [0..<unat (fo_in f)])
        else length (fo_packed f) = unat (fo_packedStreams f))
     \<and> length (fo_size f) = unat (fo_out f)"

lemma word_gap: "b \<noteq> 0 \<Longrightarrow> b \<le> a \<Longrightarrow> a - (b - 1) \<noteq> (0::u64)"
  by (auto simp: word_le_nat_alt unat_minus_one unat_eq_zero)
     (metis One_nat_def diff_less leD less_numeral_extra(1) unat_gt_0 zero_less_one)

lemma word_gt_1: "w \<noteq> 0 \<Longrightarrow> w \<noteq> 1 \<Longrightarrow> 1 < (w::u64)"
proof -
  assume "w \<noteq> 0" and "w \<noteq> 1"
  then have "unat w \<noteq> 0" and "unat w \<noteq> 1"
    by (metis unat_eq_zero, metis unat_1 word_unat_eq_iff)
  then show "1 < w" by (simp add: word_less_nat_alt)
qed

lemma okFolder_packedStreams: "okFolder f \<Longrightarrow> fo_packedStreams f \<noteq> 0"
  using word_gap [of "fo_out f" "fo_in f"] unfolding okFolder_def checkUint64_None by metis

lemma findInBindPair_update [simp]:
  "findInBindPair (f\<lparr>fo_size := x\<rparr>) i = findInBindPair f i"
  "findInBindPair (f\<lparr>fo_packed := y\<rparr>) i = findInBindPair f i"
  by (simp_all add: findInBindPair_def)

lemma readFolder_write:
  assumes ok: "okFolder f"
  shows "readFolder (feed (writeFolder f) r) = Inr (f\<lparr>fo_size := []\<rparr>, r)"
proof -
  have n: "checkUint64 (of_nat (length (fo_coder f))) True = None"
      "unat (of_nat (length (fo_coder f)) :: u64) = length (fo_coder f)"
    using ok checkUint64_of_nat [of "length (fo_coder f)"] by (simp_all add: okFolder_def)
  have sums: "sum_list (map co_in (fo_coder f)) = fo_in f" "sum_list (map co_out (fo_coder f)) = fo_out f"
    and chk: "checkUint64 (fo_in f) True = None" "checkUint64 (fo_out f) True = None"
    and le: "\<not> fo_in f < fo_out f"
    and lists: "list_all okCoder (fo_coder f)" "list_all okBindPair (fo_bindPair f)"
    and bps: "unat (fo_out f - 1) = length (fo_bindPair f)"
    and ps: "fo_in f - (fo_out f - 1) = fo_packedStreams f"
    using ok by (auto simp: okFolder_def)
  note steps = varint_bounded.bind_enc n coder_codec.bind_repeat_enc bindPair_codec.bind_repeat_enc
    lists sums chk le bps ps
  show ?thesis
  proof (cases "fo_packedStreams f = 1")
    case True
    have "filter (\<lambda>i. findInBindPair f i = None) (map of_nat [0..<unat (fo_in f)]) = fo_packed f"
      using ok True by (simp add: okFolder_def)
    with True show ?thesis
      by (simp add: readFolder_def writeFolder_def Let_def steps findInBindPair_def
          bindPair_codec.bind_repeat_enc_only)
  next
    case False
    with okFolder_packedStreams [OF ok] have "1 < fo_packedStreams f"
      by (rule word_gt_1)
    moreover have "list_all (\<lambda>_. True) (fo_packed f)" "unat (fo_packedStreams f) = length (fo_packed f)"
      using ok False by (simp_all add: okFolder_def list_all_iff)
    ultimately show ?thesis
      using False varint.repeat_enc [of "fo_packed f" r]
      by (simp add: readFolder_def writeFolder_def Let_def steps pbind_Inr)
  qed
qed

interpretation folder_codec: codec_view writeFolder readFolder okFolder "\<lambda>f. f\<lparr>fo_size := []\<rparr>"
  by unfold_locales (rule readFolder_write)

section \<open>Unpack info\<close>

lemma readFolderSize_write:
  assumes "okFolder f"
  shows "readFolderSize (f\<lparr>fo_size := []\<rparr>) (feed (concat (map writeUint64 (fo_size f))) r) = Inr (f, r)"
proof -
  have "sum_list (map co_out (fo_coder f)) = fo_out f" "checkUint64 (fo_out f) True = None"
    "unat (fo_out f) = length (fo_size f)" "list_all (\<lambda>_. True) (fo_size f)"
    using assms by (auto simp: okFolder_def list_all_iff)
  then show ?thesis
    using varint.repeat_enc [of "fo_size f" r] by (simp add: readFolderSize_def Let_def pbind_Inr)
qed

lemma readFolderSizes_write:
  "list_all okFolder fs \<Longrightarrow>
   ptraverse readFolderSize (map (\<lambda>f. f\<lparr>fo_size := []\<rparr>) fs)
     (feed (concat (map (\<lambda>f. concat (map writeUint64 (fo_size f))) fs)) r) = Inr (fs, r)"
proof (induction fs)
  case Nil
  then show ?case by (simp add: feed_Nil)
next
  case (Cons f fs)
  then show ?case
    by (simp add: feed_append pbind_Inr readFolderSize_write)
qed

definition okUnpackInfo :: "unpackInfo \<Rightarrow> bool" where
  "okUnpackInfo u \<longleftrightarrow>
     ui_folder u \<noteq> [] \<and> length (ui_folder u) < 2 ^ 32 \<and> list_all okFolder (ui_folder u)
     \<and> (ui_digest u = [] \<or> length (ui_digest u) = length (ui_folder u))"

lemma readUnpackInfo_write:
  assumes ok: "okUnpackInfo u"
  shows "readsBack (writeUnpackInfo u) readUnpackInfo u"
proof -
  let ?n = "of_nat (length (ui_folder u)) :: u64"
  have n: "checkUint64 ?n True = None" "unat ?n = length (ui_folder u)"
    using ok checkUint64_of_nat [of "length (ui_folder u)"] by (simp_all add: okUnpackInfo_def)
  have fs: "list_all okFolder (ui_folder u)"
    using ok by (simp add: okUnpackInfo_def)
  have dg: "ui_digest u \<noteq> [] \<Longrightarrow> readCRC ?n (feed (crcBytes (ui_digest u)) r) = Inr (ui_digest u, r)" for r
    using ok n by (auto simp: okUnpackInfo_def intro!: digests.dec_enc)
  have sz: "pbind (ptraverse readFolderSize (map (\<lambda>f. f\<lparr>fo_size := []\<rparr>) (ui_folder u))) g
      (feed (concat (map (\<lambda>f. concat (map writeUint64 (fo_size f))) (ui_folder u)) @ bs) r)
      = g (ui_folder u) (feed bs r)" for g :: "folder list \<Rightarrow> 'b parser" and bs r
    by (simp add: feed_append pbind_Inr readFolderSizes_write fs)
  show ?thesis
    by (cases "ui_digest u = []";
        (rule readsBackI, simp add: writeUnpackInfo_def,
         simp add: readUnpackInfo_def varint_bounded.bind_enc n decode_simps folder_codec.bind_repeat_enc
           fs sz optSection_present [OF dg]))
qed

section \<open>Substreams\<close>

text \<open>
  The sizes of the files, folder by folder: a folder with \<open>n > 0\<close> files owns \<open>n\<close> entries that
  add up to its unpacked size.
\<close>

fun sizesFit :: "(u64 \<times> folder) list \<Rightarrow> u64 list \<Rightarrow> bool" where
  "sizesFit [] vs = (vs = [])"
| "sizesFit ((n, f) # rest) vs =
     (if n = 0 then sizesFit rest vs
      else unat n \<le> length vs \<and> sum_list (take (unat n) vs) = unpackSize f
           \<and> sizesFit rest (drop (unat n) vs))"

lemma sizesFit_length: "sizesFit nfs vs \<Longrightarrow> length vs = sum_list (map (\<lambda>(n, f). unat n) nfs)"
  by (induction nfs vs rule: sizesFit.induct) (auto split: if_splits)

lemma storeAt_append [simp]: "storeAt (xs @ y # ys) (length xs) v = Inr (xs @ v # ys)"
  by (simp add: storeAt_def)

lemma readSubSizesOf_feed:
  "readSubSizesOf (length vs) tot (length xs) (xs @ replicate (length vs) 0 @ ys)
     (feed (concat (map writeUint64 vs)) r)
   = Inr ((tot + sum_list vs, length xs + length vs, xs @ vs @ ys), r)"
proof (induction vs arbitrary: tot xs)
  case Nil
  then show ?case by (simp add: feed_Nil)
next
  case (Cons v vs)
  from Cons.IH [of "tot + v" "xs @ [v]"] show ?case
    by (simp add: varint.bind_enc algebra_simps)
qed

lemma writeSubSizesOf_idx:
  "writeSubSizesOf (xs @ vs @ ys) (length xs) (length vs) = Inr (concat (map writeUint64 vs))"
proof (induction vs arbitrary: xs)
  case (Cons v vs)
  from Cons.IH [of "xs @ [v]"] show ?case by simp
qed simp

text \<open>The entries of one folder: all but the last, the last, and those of the folders behind.\<close>

lemma take_last_drop:
  assumes "0 < n" and "n \<le> length vs"
  obtains us l where "vs = us @ l # drop n vs" and "take n vs = us @ [l]" and "length us = n - 1"
proof -
  have t: "take n vs = take (n - 1) vs @ [vs ! (n - 1)]"
    using assms take_Suc_conv_app_nth [of "n - 1" vs] by simp
  then have "vs = take (n - 1) vs @ vs ! (n - 1) # drop n vs"
    using append_take_drop_id [of n vs] by simp
  with t show thesis using assms that by simp
qed

lemma readSubSizes_write:
  assumes "sizesFit nfs vs"
  shows "\<exists>bs. writeSubSizes (xs @ vs) (length xs) (map fst nfs) = Inr bs
    \<and> (\<forall>r. readSubSizes nfs (length xs) (xs @ replicate (length vs) 0) (feed bs r) = Inr (xs @ vs, r))"
  using assms
proof (induction nfs vs arbitrary: xs rule: sizesFit.induct)
  case (1 vs)
  then show ?case by (simp add: feed_Nil)
next
  case (2 n f rest vs)
  show ?case
  proof (cases "n = 0")
    case True
    with 2 show ?thesis by simp
  next
    case False
    define ws where "ws = drop (unat n) vs"
    have n: "unat n \<le> length vs" "0 < unat n" and fit: "sum_list (take (unat n) vs) = unpackSize f"
      and rest: "sizesFit rest ws"
      using False "2.prems" by (simp_all add: ws_def unat_gt_0)
    obtain us l where vs: "vs = us @ l # ws" and t: "take (unat n) vs = us @ [l]"
      and len: "length us = unat n - 1"
      using take_last_drop [OF n(2,1)] unfolding ws_def by blast
    have l: "unpackSize f - sum_list us = l"
      unfolding fit [symmetric] t by simp
    obtain bs where w: "writeSubSizes (xs @ us @ l # ws) (length xs + unat n) (map fst rest) = Inr bs"
      and rd: "\<And>r. readSubSizes rest (length xs + unat n) (xs @ us @ l # replicate (length ws) 0) (feed bs r)
        = Inr (xs @ us @ l # ws, r)"
      using "2.IH"(2) [of "xs @ us @ [l]"] False rest n len by (auto simp: ws_def algebra_simps)
    have "writeSubSizes (xs @ vs) (length xs) (map fst ((n, f) # rest))
        = Inr (concat (map writeUint64 us) @ bs)"
      using False w writeSubSizesOf_idx [of xs us "l # ws"] by (simp add: vs len)
    moreover have "readSubSizes ((n, f) # rest) (length xs) (xs @ replicate (length vs) 0)
        (feed (concat (map writeUint64 us) @ bs) r) = Inr (xs @ vs, r)" for r
    proof -
      have "readSubSizesOf (unat n - 1) 0 (length xs) (xs @ replicate (length vs) 0)
          (feed (concat (map writeUint64 us) @ bs) r)
        = Inr ((sum_list us, length xs + length us, xs @ us @ 0 # replicate (length ws) 0), feed bs r)"
        using readSubSizesOf_feed [of us 0 xs "0 # replicate (length ws) 0" "feed bs r"]
        by (simp add: vs len feed_append replicate_add replicate_app_Cons_same)
      moreover have "storeAt (xs @ us @ 0 # replicate (length ws) 0) (length xs + length us) l
          = Inr (xs @ us @ l # replicate (length ws) 0)"
        using storeAt_append [of "xs @ us"] by simp
      moreover have "unat n = Suc (length us)"
        using n len by simp
      ultimately show ?thesis
        using False rd [of r] l by (simp add: pbind_Inr vs)
    qed
    ultimately show ?thesis by blast
  qed
qed

definition hasSubSizes :: "subStreamsInfo \<Rightarrow> bool" where
  "hasSubSizes s \<longleftrightarrow> list_ex (\<lambda>count. 1 < count) (ss_streams s)"

text \<open>
  What the parser returns: sizes are written only when some folder has more than one file.
\<close>

definition normSubStreams :: "subStreamsInfo \<Rightarrow> subStreamsInfo" where
  "normSubStreams s = (if hasSubSizes s then s else s\<lparr>ss_size := []\<rparr>)"

definition okSubStreamsInfo :: "folder list \<Rightarrow> subStreamsInfo \<Rightarrow> bool" where
  "okSubStreamsInfo fs s \<longleftrightarrow>
     fs \<noteq> [] \<and> length (ss_streams s) = length fs
     \<and> sum_list (map unat (ss_streams s)) < 2 ^ 32
     \<and> (hasSubSizes s \<longrightarrow> sizesFit (zip (ss_streams s) fs) (ss_size s))
     \<and> (ss_digest s = [] \<or> length (ss_digest s) = sum_list (map unat (ss_streams s)))"

lemma unat_sum_list:
  "sum_list (map unat ws) < 2 ^ 32 \<Longrightarrow> unat (sum_list (ws :: u64 list)) = sum_list (map unat ws)"
proof (induction ws)
  case (Cons w ws)
  then show ?case by (simp add: unat_word_ariths)
qed simp

lemma sum_list_zip_fst:
  "length ws = length fs \<Longrightarrow> sum_list (map (\<lambda>(n, f). unat n) (zip ws fs)) = sum_list (map unat ws)"
  by (induction ws fs rule: list_induct2) simp_all

lemma list_all_one: "list_all (\<lambda>count. count = (1::u64)) ws \<Longrightarrow> ws = replicate (length ws) 1"
  by (auto simp: list_all_iff intro: replicate_eqI)

lemma readSubStreamsInfo_write:
  assumes ok: "okSubStreamsInfo fs s"
  shows "readsBack (writeSubStreamsInfo s) (readSubStreamsInfo fs) (normSubStreams s)"
proof -
  let ?all1 = "list_all (\<lambda>count. count = 1) (ss_streams s)"
  let ?files = "sum_list (ss_streams s)"
  have len: "length (ss_streams s) = length fs" and ne: "ss_streams s \<noteq> []"
    using ok by (auto simp: okSubStreamsInfo_def)
  have un: "unat ?files = sum_list (map unat (ss_streams s))"
    using ok by (simp add: okSubStreamsInfo_def unat_sum_list)
  then have chk: "checkUint64 ?files False = None"
    using ok by (simp add: okSubStreamsInfo_def checkUint64_None word_le_nat_alt)
  have st: "prepeat (length fs) readUint64 (feed (concat (map writeUint64 (ss_streams s))) r)
      = Inr (ss_streams s, r)" for r
    using varint.repeat_enc [of "ss_streams s" r] len by (simp add: list_all_iff)
  have dg: "ss_digest s \<noteq> [] \<Longrightarrow> readCRC ?files (feed (crcBytes (ss_digest s)) r) = Inr (ss_digest s, r)" for r
  proof -
    assume ne: "ss_digest s \<noteq> []"
    then have l: "length (ss_digest s) = unat ?files"
      using ok un by (simp add: okSubStreamsInfo_def)
    then have "?files \<noteq> 0" using ne by auto
    with chk have "checkUint64 ?files True = None" by (simp add: checkUint64_None)
    with l show ?thesis by (simp add: digests.dec_enc)
  qed
  have sz: "\<exists>bs. writeSubSizes (ss_size s) 0 (ss_streams s) = Inr bs
      \<and> (\<forall>r. readSubSizes (zip (ss_streams s) fs) 0 (replicate (unat ?files) 0) (feed bs r)
              = Inr (ss_size s, r))" and sne: "ss_size s \<noteq> []" if h: "hasSubSizes s"
  proof -
    have fit: "sizesFit (zip (ss_streams s) fs) (ss_size s)"
      using ok h by (simp add: okSubStreamsInfo_def)
    have l: "length (ss_size s) = unat ?files"
      using sizesFit_length [OF fit] len un by (simp add: sum_list_zip_fst)
    from readSubSizes_write [OF fit, of "[]"] len l
    show "\<exists>bs. writeSubSizes (ss_size s) 0 (ss_streams s) = Inr bs
      \<and> (\<forall>r. readSubSizes (zip (ss_streams s) fs) 0 (replicate (unat ?files) 0) (feed bs r)
              = Inr (ss_size s, r))" by simp
    show "ss_size s \<noteq> []"
      using h l un by (fastforce simp: hasSubSizes_def list_ex_iff word_less_nat_alt)
  qed
  have one: "replicate (length fs) 1 = ss_streams s" if ?all1
    using list_all_one [OF that] len by simp
  obtain sb where sb: "hasSubSizes s \<Longrightarrow> writeSubSizes (ss_size s) 0 (ss_streams s) = Inr sb"
    and rsb: "hasSubSizes s \<Longrightarrow> readSubSizes (zip (ss_streams s) fs) 0 (replicate (unat ?files) 0)
      (feed sb r) = Inr (ss_size s, r)" for r
    using sz by blast
  have w: "writeSubStreamsInfo s = Inr
      ((if ?all1 then [] else idNumUnpackStream # concat (map writeUint64 (ss_streams s)))
       @ (if hasSubSizes s then idSize # sb else [])
       @ (if ss_digest s = [] then [] else idCRC # crcBytes (ss_digest s)) @ [idEnd])"
  proof (cases "hasSubSizes s")
    case True
    with sb sne ne show ?thesis
      by (simp add: writeSubStreamsInfo_def) (simp add: hasSubSizes_def)
  next
    case False
    with ne show ?thesis by (simp add: writeSubStreamsInfo_def) (simp add: hasSubSizes_def)
  qed
  show ?thesis
  proof (rule readsBackI [OF w])
    fix r
    show "readSubStreamsInfo fs (feed ((if ?all1 then [] else idNumUnpackStream # concat (map writeUint64 (ss_streams s)))
       @ (if hasSubSizes s then idSize # sb else [])
       @ (if ss_digest s = [] then [] else idCRC # crcBytes (ss_digest s)) @ [idEnd]) r)
       = Inr (normSubStreams s, r)"
      by (cases ?all1; cases "hasSubSizes s"; cases "ss_digest s = []")
        (simp_all add: readSubStreamsInfo_def Let_def decode_simps chk one normSubStreams_def
           optSection_present [OF st] optSection_present [OF rsb] optSection_present [OF dg])
  qed
qed

section \<open>Streams info\<close>

definition okStreamsInfo :: "streamsInfo \<Rightarrow> bool" where
  "okStreamsInfo s \<longleftrightarrow>
     (case si_packInfo s of None \<Rightarrow> True | Some p \<Rightarrow> okPackInfo p)
     \<and> (case si_unpackInfo s of None \<Rightarrow> si_subStreamsInfo s = None
        | Some u \<Rightarrow> okUnpackInfo u
            \<and> (case si_subStreamsInfo s of None \<Rightarrow> True | Some ss \<Rightarrow> okSubStreamsInfo (ui_folder u) ss))"

definition normStreamsInfo :: "streamsInfo \<Rightarrow> streamsInfo" where
  "normStreamsInfo s = s\<lparr>si_subStreamsInfo := map_option normSubStreams (si_subStreamsInfo s)\<rparr>"

lemma pSome_feed: "(\<And>r. p (feed bs r) = Inr (x, r)) \<Longrightarrow> pSome p (feed bs r) = Inr (Some x, r)"
  by (simp add: pSome_def pbind_Inr)

lemma readsBack_optional:
  assumes "\<And>x. m = Some x \<Longrightarrow> readsBack (w x) p (v x)"
  shows "\<exists>bs. \<forall>x. m = Some x \<longrightarrow>
    w x = Inr bs \<and> (\<forall>r. pSome p (feed bs r) = Inr (Some (v x), r))"
proof (cases m)
  case (Some x)
  from assms [OF this] obtain bs where "w x = Inr bs" "\<And>r. p (feed bs r) = Inr (v x, r)"
    by (rule readsBackE) blast
  then show ?thesis using Some by (intro exI [of _ bs]) (simp add: pSome_feed)
qed simp

lemma readStreamsInfo_write:
  assumes ok: "okStreamsInfo s"
  shows "readsBack (writeStreamsInfo s) readStreamsInfo (normStreamsInfo s)"
proof -
  have "\<And>p. si_packInfo s = Some p \<Longrightarrow> readsBack (writePackInfo p) readPackInfo p"
    using ok by (auto simp: okStreamsInfo_def intro: readPackInfo_write)
  from readsBack_optional [of "si_packInfo s" writePackInfo _ "\<lambda>p. p", OF this]
  obtain pb where pb: "\<forall>p. si_packInfo s = Some p \<longrightarrow>
      writePackInfo p = Inr pb \<and> (\<forall>r. pSome readPackInfo (feed pb r) = Inr (Some p, r))"
    by (rule exE)
  have "\<And>u. si_unpackInfo s = Some u \<Longrightarrow> readsBack (writeUnpackInfo u) readUnpackInfo u"
    using ok by (auto simp: okStreamsInfo_def intro: readUnpackInfo_write)
  from readsBack_optional [of "si_unpackInfo s" writeUnpackInfo _ "\<lambda>u. u", OF this]
  obtain ub where ub: "\<forall>u. si_unpackInfo s = Some u \<longrightarrow>
      writeUnpackInfo u = Inr ub \<and> (\<forall>r. pSome readUnpackInfo (feed ub r) = Inr (Some u, r))"
    by (rule exE)
  define fs where "fs = (case si_unpackInfo s of None \<Rightarrow> [] | Some u \<Rightarrow> ui_folder u)"
  have "\<And>ss. si_subStreamsInfo s = Some ss \<Longrightarrow>
      readsBack (writeSubStreamsInfo ss) (readSubStreamsInfo fs) (normSubStreams ss)"
    using ok by (auto simp: okStreamsInfo_def fs_def intro: readSubStreamsInfo_write split: option.splits)
  from readsBack_optional [of "si_subStreamsInfo s" writeSubStreamsInfo _ normSubStreams, OF this]
  obtain sb where sb: "\<forall>ss. si_subStreamsInfo s = Some ss \<longrightarrow> writeSubStreamsInfo ss = Inr sb
      \<and> (\<forall>r. pSome (readSubStreamsInfo fs) (feed sb r) = Inr (Some (normSubStreams ss), r))"
    by (rule exE)
  have fs: "ui_folder u = fs" if "si_unpackInfo s = Some u" for u
    using that by (simp add: fs_def)
  have w: "writeStreamsInfo s = Inr
     ((if si_packInfo s = None then [] else idPackInfo # pb)
      @ (if si_unpackInfo s = None then [] else idUnpackInfo # ub)
      @ (if si_subStreamsInfo s = None then [] else idSubStreamsInfo # sb) @ [idEnd])"
    using ok by (auto simp: writeStreamsInfo_def okStreamsInfo_def pb ub sb split: option.splits)
  show ?thesis
  proof (rule readsBackI [OF w])
    fix r
    show "readStreamsInfo (feed ((if si_packInfo s = None then [] else idPackInfo # pb)
      @ (if si_unpackInfo s = None then [] else idUnpackInfo # ub)
      @ (if si_subStreamsInfo s = None then [] else idSubStreamsInfo # sb) @ [idEnd]) r)
      = Inr (normStreamsInfo s, r)"
      using ok pb ub sb fs
      by (cases "si_packInfo s"; cases "si_unpackInfo s"; cases "si_subStreamsInfo s")
        (simp_all add: readStreamsInfo_def decode_simps normStreamsInfo_def okStreamsInfo_def
           optSection_present)
  qed
qed

end
