(* ===== verification/Files_Read.thy ===== *)
theory Files_Read
  imports Header_Read
begin

unbundle bit_operations_syntax

text \<open>
  The second half of the header parser of \<open>types.go\<close>: file times, names and attributes,
  \<open>readFilesInfo\<close> with its property loop, \<open>readHeader\<close> and \<open>readEncodedHeader\<close>. The loop is
  a recursion on the bytes that remain, with its termination proof.
\<close>

section \<open>Times, names, attributes\<close>

definition readTimes :: "externals \<Rightarrow> u64 \<Rightarrow> time list parser" where
  "readTimes ext count =
     pbind (pcheck (checkUint64 count True)) (\<lambda>_.
     pbind (readOptionalBool count) (\<lambda>defined.
     pbind readByte (\<lambda>external.
     if 0 < external then pfail ErrTodoExternal
     else readDefined (pbind readUint64LE (\<lambda>ft. preturn (filetimeNanoseconds ext ft)))
            zeroTime defined)))"

text \<open>The split function of the name scanner: bytes to skip and the token, if there is one.\<close>

definition splitNull :: "byte list \<Rightarrow> bool \<Rightarrow> nat \<times> byte list option" where
  "splitNull data atEOF =
     (if atEOF \<and> data = [] then (0, None)
      else
        let i = length (takeWhile (\<lambda>b. b \<noteq> 0) data) in
        if i < length data then (i + 1, Some (take i data))
        else if atEOF then (length data, Some data)
        else (0, None))"

text \<open>
  \<open>bufio.Scanner\<close> over all the data: it fails when a token does not fit its buffer of
  64 KiB together with what ends it.
\<close>

definition maxScanTokenSize :: nat where
  "maxScanTokenSize = 65536"

function scanNames :: "byte list \<Rightarrow> gostring list result" where
  "scanNames data =
     (case splitNull data True of
        (advance, None) \<Rightarrow> Inr []
      | (advance, Some token) \<Rightarrow>
         (if maxScanTokenSize \<le> length token then Inl ErrTooLong
          else rbind (scanNames (drop advance data)) (\<lambda>names. Inr (token # names))))"
  by pat_completeness auto
termination
  by (relation "measure length") (auto simp: splitNull_def Let_def split: if_splits)

declare scanNames.simps [simp del]

definition readNames :: "externals \<Rightarrow> u64 \<Rightarrow> u64 \<Rightarrow> gostring list parser" where
  "readNames ext count length1 =
     pbind (pcheck (checkUint64 count True)) (\<lambda>_.
     pbind readByte (\<lambda>external.
     if 0 < external then pfail ErrTodoExternal
     else (\<lambda>r.
       let (bs, r') = readUpTo 4096 (nat (sint (length1 - 1))) r in
       case scanNames (utf16Decode ext bs) of
         Inl e \<Rightarrow> Inl e
       | Inr names \<Rightarrow>
           if of_nat (length names) \<noteq> count then Inl ErrWrongNumberOfFilenames
           else Inr (names, r'))))"

definition readAttributes :: "u64 \<Rightarrow> u32 list parser" where
  "readAttributes count =
     pbind (pcheck (checkUint64 count True)) (\<lambda>_.
     pbind (readOptionalBool count) (\<lambda>defined.
     pbind readByte (\<lambda>external.
     if 0 < external then pfail ErrTodoExternal
     else readDefined readUint32LE 0 defined)))"

section \<open>The files\<close>

text \<open>
  The state of the property loop of \<open>readFilesInfo\<close>: the array of headers and the running
  number of empty streams.
\<close>

record filesState =
  fs_file :: "fileHeader list"
  fs_emptyStreams :: u64

definition setEmptyStream :: "filesState \<Rightarrow> bool list \<Rightarrow> filesState" where
  "setEmptyStream st es =
     st\<lparr>fs_file := map2 (\<lambda>f e. f\<lparr>fh_isEmptyStream := e\<rparr>) (fs_file st) es,
        fs_emptyStreams := fs_emptyStreams st + of_nat (length (filter (\<lambda>e. e) es))\<rparr>"

fun setEmptyFile :: "fileHeader list \<Rightarrow> bool list \<Rightarrow> fileHeader list result" where
  "setEmptyFile [] es = Inr []"
| "setEmptyFile (f # fs) es =
     (if fh_isEmptyStream f then
        (case es of
           [] \<Rightarrow> Inl Panic
         | e # es' \<Rightarrow>
             rbind (setEmptyFile fs es') (\<lambda>fs. Inr (f\<lparr>fh_isEmptyFile := e\<rparr> # fs)))
      else rbind (setEmptyFile fs es) (\<lambda>fs. Inr (f # fs)))"

text \<open>
  Discarding \<open>length\<close> bytes with \<open>io.CopyN\<close>; the length is read as a signed number and a
  negative one discards nothing.
\<close>

definition discard :: "u64 \<Rightarrow> unit parser" where
  "discard length1 r =
     (let n = nat (sint length1); (bs, r') = readUpTo 8192 n r
      in if length bs = n then Inr ((), r') else Inl EOF)"

text \<open>One pass of the loop: \<open>None\<close> when the end marker was read.\<close>

definition readProperty :: "externals \<Rightarrow> u64 \<Rightarrow> filesState \<Rightarrow> filesState option parser" where
  "readProperty ext files st =
     pbind readByte (\<lambda>property.
     if property = idEnd then preturn None
     else
     pbind readUint64 (\<lambda>len.
     if property = idEmptyStream then
       pbind (readBool files) (\<lambda>es. preturn (Some (setEmptyStream st es)))
     else if property = idEmptyFile then
       pbind (readBool (fs_emptyStreams st)) (\<lambda>es.
       pbind (plift (setEmptyFile (fs_file st) es)) (\<lambda>fs. preturn (Some (st\<lparr>fs_file := fs\<rparr>))))
     else if property = idCTime then
       pbind (readTimes ext files) (\<lambda>times.
       preturn (Some (st\<lparr>fs_file := map2 (\<lambda>f t. f\<lparr>fh_Created := t\<rparr>) (fs_file st) times\<rparr>)))
     else if property = idATime then
       pbind (readTimes ext files) (\<lambda>times.
       preturn (Some (st\<lparr>fs_file := map2 (\<lambda>f t. f\<lparr>fh_Accessed := t\<rparr>) (fs_file st) times\<rparr>)))
     else if property = idMTime then
       pbind (readTimes ext files) (\<lambda>times.
       preturn (Some (st\<lparr>fs_file := map2 (\<lambda>f t. f\<lparr>fh_Modified := t\<rparr>) (fs_file st) times\<rparr>)))
     else if property = idName then
       pbind (readNames ext files len) (\<lambda>names.
       preturn (Some (st\<lparr>fs_file := map2 (\<lambda>f n. f\<lparr>fh_Name := n\<rparr>) (fs_file st) names\<rparr>)))
     else if property = idWinAttributes then
       pbind (readAttributes files) (\<lambda>attributes.
       preturn (Some (st\<lparr>fs_file := map2 (\<lambda>f a. f\<lparr>fh_Attributes := a\<rparr>) (fs_file st) attributes\<rparr>)))
     else if property = idStartPos then pfail ErrTodoStartPos
     else if property = idDummy then pbind (discard len) (\<lambda>_. preturn (Some st))
     else pfail ErrUnexpectedID))"

section \<open>What the header parser consumes\<close>

lemma shrinks_case_prod [shrink_intros]:
  "(\<And>a b. shrinks (f a b)) \<Longrightarrow> shrinks (case x of (a, b) \<Rightarrow> f a b)"
  by (cases x) simp

lemma shrinks_case_option [shrink_intros]:
  "shrinks p \<Longrightarrow> (\<And>y. shrinks (f y)) \<Longrightarrow> shrinks (case x of None \<Rightarrow> p | Some y \<Rightarrow> f y)"
  by (cases x) simp_all

lemma shrinks_readTimes [shrink_intros]: "shrinks (readTimes ext count)"
  unfolding readTimes_def by (intro shrink_intros)

lemma shrinks_limited: "shrinks (\<lambda>r. let (bs, r') = readUpTo cap n r in
    case g bs of Inl e \<Rightarrow> Inl e | Inr x \<Rightarrow> if c x then Inl (e' x) else Inr (x, r'))"
proof (rule shrinksI)
  fix r x r'
  assume "(let (bs, r') = readUpTo cap n r in
    case g bs of Inl e \<Rightarrow> Inl e | Inr x \<Rightarrow> if c x then Inl (e' x) else Inr (x, r')) = Inr (x, r')"
  then have "r' = snd (readUpTo cap n r)"
    by (auto split: prod.splits sum.splits if_splits)
  then show "length (content r') \<le> length (content r)"
    by (simp add: length_readUpTo)
qed

lemma shrinks_readNames [shrink_intros]: "shrinks (readNames ext count len)"
  unfolding readNames_def by (intro shrink_intros shrinks_limited)

lemma shrinks_readAttributes [shrink_intros]: "shrinks (readAttributes count)"
  unfolding readAttributes_def by (intro shrink_intros)

lemma shrinks_discard [shrink_intros]: "shrinks (discard len)"
proof (rule shrinksI)
  fix r x r'
  assume "discard len r = Inr (x, r')"
  then have "r' = snd (readUpTo 8192 (nat (sint len)) r)"
    by (auto simp: discard_def Let_def split: prod.splits if_splits)
  then show "length (content r') \<le> length (content r)"
    by (simp add: length_readUpTo)
qed

lemma readByte_then_shrinks:
  assumes "pbind readByte f r = Inr (x, r')" and "\<And>b. shrinks (f b)"
  shows "length (content r') < length (content r)"
  using assms by (elim pbind_InrE) (auto dest!: readByte_Inr shrinksD [OF assms(2)])

lemma readProperty_consumes:
  assumes "readProperty ext files st r = Inr (x, r')"
  shows "length (content r') < length (content r)"
  using assms unfolding readProperty_def
  by (rule readByte_then_shrinks) (intro shrink_intros)

section \<open>The property loop and the header\<close>

function readProperties :: "externals \<Rightarrow> u64 \<Rightarrow> filesState \<Rightarrow> filesState parser" where
  "readProperties ext files st r =
     (case readProperty ext files st r of
        Inl e \<Rightarrow> Inl e
      | Inr (None, r') \<Rightarrow> Inr (st, r')
      | Inr (Some st', r') \<Rightarrow> readProperties ext files st' r')"
  by pat_completeness auto
termination
  by (relation "measure (\<lambda>(ext, files, st, r). length (content r))")
    (auto dest: readProperty_consumes)

declare readProperties.simps [simp del]

definition readFilesInfo :: "externals \<Rightarrow> filesInfo parser" where
  "readFilesInfo ext =
     pbind (readUint64Bounded True) (\<lambda>files.
     pbind (readProperties ext files
       \<lparr>fs_file = replicate (unat files) zeroFileHeader, fs_emptyStreams = 0\<rparr>) (\<lambda>st.
     preturn \<lparr>fi_file = fs_file st\<rparr>))"

text \<open>
  The last loop of \<open>readHeader\<close>: the n-th file with data gets the size and the checksum of
  the n-th substream.
\<close>

fun fillSizes :: "streamsInfo \<Rightarrow> nat \<Rightarrow> fileHeader list \<Rightarrow> fileHeader list result" where
  "fillSizes si j [] = Inr []"
| "fillSizes si j (f # fs) =
     (if fh_isEmptyStream f then rbind (fillSizes si j fs) (\<lambda>fs. Inr (f # fs))
      else
        rbind (FileFolderAndSize si j) (\<lambda>(folder, size, crc).
        rbind (fillSizes si (Suc j) fs) (\<lambda>fs.
        Inr (f\<lparr>fh_UncompressedSize := size, fh_CRC32 := crc\<rparr> # fs))))"

definition readHeader :: "externals \<Rightarrow> header parser" where
  "readHeader ext =
     pbind readByte (\<lambda>id.
     if id = idArchiveProperties then pfail ErrTodoArchiveProperties
     else if id = idAdditionalStreamsInfo then pfail ErrTodoAdditionalStreamsInfo
     else
     pbind (optSection id idMainStreamsInfo (pSome readStreamsInfo) None) (\<lambda>(streamsInfo, id).
     pbind (optSection id idFilesInfo (pSome (readFilesInfo ext)) None) (\<lambda>(filesInfo, id).
     if id \<noteq> idEnd then pfail ErrUnexpectedID
     else
       case (streamsInfo, filesInfo) of
         (Some si, Some fi) \<Rightarrow>
           pbind (plift (fillSizes si 0 (fi_file fi))) (\<lambda>fs.
           preturn \<lparr>hd_streamsInfo = streamsInfo, hd_filesInfo = Some \<lparr>fi_file = fs\<rparr>\<rparr>)
       | _ \<Rightarrow> preturn \<lparr>hd_streamsInfo = streamsInfo, hd_filesInfo = filesInfo\<rparr>)))"

definition readEncodedHeader :: "externals \<Rightarrow> header parser" where
  "readEncodedHeader ext =
     pbind readByte (\<lambda>id.
     if id \<noteq> idHeader then pfail ErrUnexpectedID else readHeader ext)"

end
