(* ===== verification/Files_RoundTrip.thy ===== *)
theory Files_RoundTrip
  imports Streams_RoundTrip Files_Read
begin

unbundle bit_operations_syntax

text \<open>
  Reading back what \<open>write_struct.go\<close> writes for the files of an archive: empty streams, times,
  names and attributes, one property of the property loop at a time.
\<close>

section \<open>Times\<close>

text \<open>
  \<open>Filetime.Nanoseconds\<close>: nanoseconds since the Unix epoch of a count of 100 ns intervals
  since 1601, where the result fits \<open>int64\<close>.
\<close>

definition filetime_law :: "(u64 \<Rightarrow> time) \<Rightarrow> bool" where
  "filetime_law ns \<longleftrightarrow>
     (\<forall>ft. let n = (uint ft - 116444736000000000) * 100
           in - (2 ^ 63) \<le> n \<and> n < 2 ^ 63 \<longrightarrow> ns ft = n)"

definition plainNanoseconds :: "u64 \<Rightarrow> time" where
  "plainNanoseconds ft = (uint ft - 116444736000000000) * 100"

lemma filetime_law_plain: "filetime_law plainNanoseconds"
  by (simp add: filetime_law_def plainNanoseconds_def Let_def)

text \<open>Times are stored in units of 100 ns; the zero time is stored as not defined.\<close>

definition normTime :: "time \<Rightarrow> time" where
  "normTime t = (if t = zeroTime then zeroTime else t - t mod 100)"

definition okTime :: "time \<Rightarrow> bool" where
  "okTime t \<longleftrightarrow> t = zeroTime \<or> (- (2 ^ 63) \<le> t - t mod 100 \<and> t < 2 ^ 63)"

lemma filetime_units: "t div 1000000000 * 10000000 + t mod 1000000000 div 100 = t div (100::int)"
proof -
  have "t = 100 * (t div 1000000000 * 10000000) + t mod 1000000000"
    using div_mult_mod_eq [of t 1000000000] by linarith
  then have "t div 100 = (100 * (t div 1000000000 * 10000000) + t mod 1000000000) div 100"
    by simp
  also have "\<dots> = t div 1000000000 * 10000000 + t mod 1000000000 div 100"
    by (rule div_mult_self4) simp
  finally show ?thesis by simp
qed

lemma timeToFiletime_back:
  assumes law: "filetime_law ns" and ok: "okTime t" and nz: "t \<noteq> zeroTime"
  shows "ns (timeToFiletime t) = normTime t"
proof -
  define d where "d = t div 100"
  have t: "t - t mod 100 = d * 100" and le: "d * 100 \<le> t"
    using div_mult_mod_eq [of t 100] by (simp_all add: d_def minus_mod_eq_div_mult)
  have d: "- (2 ^ 63) \<le> d * 100" "d * 100 < 2 ^ 63"
    using ok nz t le by (simp_all add: okTime_def)
  have "timeToFiletime t = of_int (t div 1000000000 * 10000000 + t mod 1000000000 div 100)
      + 116444736000000000"
    using nz by (simp only: timeToFiletime_def if_False of_int_add)
  moreover define e where "e = d + 116444736000000000"
  ultimately have "timeToFiletime t = of_int e"
    by (simp only: filetime_units d_def of_int_add of_int_numeral)
  moreover have "0 \<le> e" "e < 2 ^ 64"
    using d by (simp_all add: e_def)
  ultimately have "uint (timeToFiletime t) = d + 116444736000000000"
    by (simp add: uint_word_of_int e_def [symmetric])
  then have "ns (timeToFiletime t) = d * 100"
    using law d unfolding filetime_law_def Let_def by simp
  with t nz show ?thesis by (simp add: normTime_def)
qed

section \<open>Names\<close>

text \<open>A name that survives: well-formed UTF-8 without a NUL, below the scanner's limit.\<close>

definition okName :: "gostring \<Rightarrow> bool" where
  "okName s \<longleftrightarrow> utf8Encode (runes s) = s \<and> 0 \<notin> set s \<and> length s < maxScanTokenSize"

lemma takeWhile_until: "0 \<notin> set s \<Longrightarrow> takeWhile (\<lambda>b. b \<noteq> 0) (s @ 0 # rest) = s"
  by (induction s) auto

lemma scanNames_concat:
  "list_all okName ns \<Longrightarrow> scanNames (concat (map (\<lambda>s. s @ [0]) ns)) = Inr ns"
proof (induction ns)
  case Nil
  show ?case by (simp add: scanNames.simps splitNull_def)
next
  case (Cons s ns)
  then have "takeWhile (\<lambda>b. b \<noteq> 0) (s @ 0 # concat (map (\<lambda>s. s @ [0]) ns)) = s"
    by (simp add: takeWhile_until okName_def)
  with Cons show ?case
    by (simp add: scanNames.simps [of "s @ 0 # _"] splitNull_def Let_def okName_def)
qed

lemma length_runes: "length (runes s) \<le> length s"
proof (induction s rule: runes.induct)
  case (2 b bs)
  then show ?case by (cases "decodeRune b bs") (auto intro: order_trans)
qed simp

lemma length_utf16: "length (utf16le (utf16Encode rs)) \<le> 4 * length rs"
  by (induction rs) (auto simp: utf16Rune_def)

lemma scalar_0: "scalar 0"
  by (simp add: scalar_def)

lemma names_decode:
  assumes "utf16_law dec" and "list_all okName ns"
  shows "dec (concat (map (\<lambda>s. utf16le (utf16Encode (runes s)) @ [0, 0]) ns)) = concat (map (\<lambda>s. s @ [0]) ns)"
proof -
  define rs where "rs = concat (map (\<lambda>s. runes s @ [0]) ns)"
  have "concat (map (\<lambda>s. utf16le (utf16Encode (runes s)) @ [0, 0]) ns) = utf16le (utf16Encode rs)"
    unfolding rs_def by (induction ns) (simp_all add: utf16Rune_def)
  moreover have "utf8Encode rs = concat (map (\<lambda>s. s @ [0]) ns)"
    using assms(2) unfolding rs_def by (induction ns) (simp_all add: okName_def utf8Rune_def)
  moreover have "list_all scalar rs"
    unfolding rs_def by (induction ns) (simp_all add: scalar_runes scalar_0)
  ultimately show ?thesis
    using assms(1) unfolding utf16_law_def by simp
qed

section \<open>The property loop\<close>

definition okFiles :: "filesInfo \<Rightarrow> bool" where
  "okFiles f \<longleftrightarrow>
     fi_file f \<noteq> [] \<and> length (fi_file f) < 2 ^ 32
     \<and> list_all (\<lambda>fh. okName (fh_Name fh) \<and> okTime (fh_Created fh) \<and> okTime (fh_Accessed fh)
                      \<and> okTime (fh_Modified fh)) (fi_file f)"

text \<open>
  What the property loop returns for a file: sizes, checksums and stream numbers are not part
  of a file's properties, and only an empty stream can be an empty file.
\<close>

definition parsedFile :: "fileHeader \<Rightarrow> fileHeader" where
  "parsedFile fh =
     zeroFileHeader
       \<lparr>fh_isEmptyStream := fh_isEmptyStream fh,
        fh_isEmptyFile := fh_isEmptyStream fh \<and> fh_isEmptyFile fh,
        fh_Created := normTime (fh_Created fh),
        fh_Accessed := normTime (fh_Accessed fh),
        fh_Modified := normTime (fh_Modified fh),
        fh_Name := fh_Name fh,
        fh_Attributes := fh_Attributes fh\<rparr>"

lemma readProperties_step:
  "readProperty ext n st r = Inr (Some st', r') \<Longrightarrow>
   readProperties ext n st r = readProperties ext n st' r'"
  by (simp add: readProperties.simps [of ext n st])

lemma readProperties_end: "readProperties ext n st (feed [idEnd] r) = Inr (st, r)"
  by (simp add: readProperties.simps [of ext n st] readProperty_def decode_simps)

lemma map2_map: "map2 h (map f xs) (map g xs) = map (\<lambda>x. h (f x) (g x)) xs"
  by (induction xs) simp_all

lemma list_all2_map: "list_all2 P (map f xs) (map g xs) = list_all (\<lambda>x. P (f x) (g x)) xs"
  by (induction xs) simp_all

lemma writeDefined_map:
  "writeDefined enc (map f xs) (map d xs) = concat (map (\<lambda>x. if d x then enc (f x) else []) xs)"
  by (induction xs) (simp_all add: writeDefined_def)

lemma setEmptyFile_map:
  assumes "\<And>fh. fh_isEmptyStream (g fh) = fh_isEmptyStream fh"
  shows "setEmptyFile (map g fs) (map fh_isEmptyFile (filter fh_isEmptyStream fs))
    = Inr (map (\<lambda>fh. if fh_isEmptyStream fh then (g fh)\<lparr>fh_isEmptyFile := fh_isEmptyFile fh\<rparr> else g fh) fs)"
  by (induction fs) (simp_all add: assms)

text \<open>The number of files as the parser has it.\<close>

definition counted :: "u64 \<Rightarrow> fileHeader list \<Rightarrow> bool" where
  "counted n fs \<longleftrightarrow> unat n = length fs \<and> checkUint64 n True = None"

lemma readTimes_write:
  assumes n: "counted n fs" and law: "filetime_law (filetimeNanoseconds ext)"
    and ok: "list_all (\<lambda>fh. okTime (get fh)) fs"
  shows "readTimes ext n (feed (writeOptionalBool (map (\<lambda>fh. get fh \<noteq> zeroTime) fs) @ [0]
      @ concat (map (\<lambda>fh. if get fh \<noteq> zeroTime then putUint64 (timeToFiletime (get fh)) else []) fs)) r)
    = Inr (map (\<lambda>fh. normTime (get fh)) fs, r)"
proof -
  let ?p = "pbind readUint64LE (\<lambda>ft. preturn (filetimeNanoseconds ext ft))"
  have "readDefined ?p zeroTime (map (\<lambda>fh. get fh \<noteq> zeroTime) fs)
      (feed (concat (map (\<lambda>fh. if get fh \<noteq> zeroTime then putUint64 (timeToFiletime (get fh)) else []) fs)) r)
    = Inr (map (\<lambda>fh. normTime (get fh)) fs, r)"
    using ok
  proof (induction fs)
    case Nil
    then show ?case by (simp add: readDefined_def feed_Nil)
  next
    case (Cons fh fs)
    then show ?case
      using timeToFiletime_back [OF law, of "get fh"]
      by (cases "get fh = zeroTime")
        (simp_all add: readDefined_def u64_codec.bind_enc pbind_Inr normTime_def)
  qed
  then show ?thesis
    using n by (simp add: readTimes_def counted_def optional_bools.bind_enc decode_simps)
qed

lemma bind_readTimes_write:
  assumes "counted n fs" and "filetime_law (filetimeNanoseconds ext)"
    and "list_all (\<lambda>fh. okTime (get fh)) fs"
  shows "pbind (readTimes ext n) k (feed (writeOptionalBool (map (\<lambda>fh. get fh \<noteq> zeroTime) fs) @ 0
      # concat (map (\<lambda>fh. if get fh \<noteq> zeroTime then putUint64 (timeToFiletime (get fh)) else []) fs) @ bs) r)
    = k (map (\<lambda>fh. normTime (get fh)) fs) (feed bs r)"
  using readTimes_write [OF assms, of "feed bs r"] by (simp add: pbind_Inr flip: feed_append)

text \<open>
  The three time properties. Where no file has the time, nothing is written, and the zero
  time that the parser starts from is the right one.
\<close>

lemma no_time:
  "\<not> hasTime f get \<Longrightarrow> fh \<in> set (fi_file f) \<Longrightarrow> normTime (get fh) = zeroTime"
  by (auto simp: hasTime_def list_ex_iff normTime_def)

lemma time_step:
  assumes n: "counted n (fi_file f)" and law: "filetime_law (filetimeNanoseconds ext)"
    and ok: "list_all (\<lambda>fh. okTime (get fh)) (fi_file f)"
    and step: "\<And>st len body. readProperty ext n st (feed (pid # writeUint64 len @ body) r)
      = pbind (readTimes ext n)
          (\<lambda>ts. preturn (Some (st\<lparr>fs_file := map2 upd (fs_file st) ts\<rparr>))) (feed body r)"
    and zero: "\<And>fh. upd (g fh) zeroTime = g fh"
  shows "readProperties ext n \<lparr>fs_file = map g (fi_file f), fs_emptyStreams = e\<rparr>
      (feed ((if hasTime f get then writeTimeProp pid f get else []) @ bs) r)
    = readProperties ext n \<lparr>fs_file = map (\<lambda>fh. upd (g fh) (normTime (get fh))) (fi_file f),
        fs_emptyStreams = e\<rparr> (feed bs r)"
proof (cases "hasTime f get")
  case True
  then show ?thesis
    using n law ok
    by (simp only: if_True, intro readProperties_step)
      (simp add: writeTimeProp_def propBytes_def step bind_readTimes_write map2_map Let_def)
next
  case False
  have "map (\<lambda>fh. upd (g fh) (normTime (get fh))) (fi_file f) = map g (fi_file f)"
    using zero no_time [OF False] by (intro map_cong) simp_all
  with False show ?thesis by (simp only: if_False append_Nil)
qed

lemma ctime_step:
  assumes "counted n (fi_file f)" and "filetime_law (filetimeNanoseconds ext)"
    and "list_all (\<lambda>fh. okTime (fh_Created fh)) (fi_file f)" and "\<And>fh. fh_Created (g fh) = zeroTime"
  shows "readProperties ext n \<lparr>fs_file = map g (fi_file f), fs_emptyStreams = e\<rparr>
      (feed ((if hasTime f fh_Created then writeTimeProp idCTime f fh_Created else []) @ bs) r)
    = readProperties ext n \<lparr>fs_file = map (\<lambda>fh. (g fh)\<lparr>fh_Created := normTime (fh_Created fh)\<rparr>) (fi_file f),
        fs_emptyStreams = e\<rparr> (feed bs r)"
  using assms(4)
  by (intro time_step [OF assms(1-3), where upd = "\<lambda>fh t. fh\<lparr>fh_Created := t\<rparr>"])
    (simp_all add: readProperty_def decode_simps varint.bind_enc)

lemma atime_step:
  assumes "counted n (fi_file f)" and "filetime_law (filetimeNanoseconds ext)"
    and "list_all (\<lambda>fh. okTime (fh_Accessed fh)) (fi_file f)" and "\<And>fh. fh_Accessed (g fh) = zeroTime"
  shows "readProperties ext n \<lparr>fs_file = map g (fi_file f), fs_emptyStreams = e\<rparr>
      (feed ((if hasTime f fh_Accessed then writeTimeProp idATime f fh_Accessed else []) @ bs) r)
    = readProperties ext n \<lparr>fs_file = map (\<lambda>fh. (g fh)\<lparr>fh_Accessed := normTime (fh_Accessed fh)\<rparr>) (fi_file f),
        fs_emptyStreams = e\<rparr> (feed bs r)"
  using assms(4)
  by (intro time_step [OF assms(1-3), where upd = "\<lambda>fh t. fh\<lparr>fh_Accessed := t\<rparr>"])
    (simp_all add: readProperty_def decode_simps varint.bind_enc)

lemma mtime_step:
  assumes "counted n (fi_file f)" and "filetime_law (filetimeNanoseconds ext)"
    and "list_all (\<lambda>fh. okTime (fh_Modified fh)) (fi_file f)" and "\<And>fh. fh_Modified (g fh) = zeroTime"
  shows "readProperties ext n \<lparr>fs_file = map g (fi_file f), fs_emptyStreams = e\<rparr>
      (feed ((if hasTime f fh_Modified then writeTimeProp idMTime f fh_Modified else []) @ bs) r)
    = readProperties ext n \<lparr>fs_file = map (\<lambda>fh. (g fh)\<lparr>fh_Modified := normTime (fh_Modified fh)\<rparr>) (fi_file f),
        fs_emptyStreams = e\<rparr> (feed bs r)"
  using assms(4)
  by (intro time_step [OF assms(1-3), where upd = "\<lambda>fh t. fh\<lparr>fh_Modified := t\<rparr>"])
    (simp_all add: readProperty_def decode_simps varint.bind_enc)

text \<open>Names, with the bound on their total length that keeps the length positive as \<open>int64\<close>.\<close>

definition namesBody :: "fileHeader list \<Rightarrow> byte list" where
  "namesBody fs = concat (map (\<lambda>fh. utf16le (utf16Encode (runes (fh_Name fh))) @ [0, 0]) fs)"

lemma length_namesBody:
  "list_all (\<lambda>fh. okName (fh_Name fh)) fs \<Longrightarrow> length (namesBody fs) \<le> 262144 * length fs"
proof (induction fs)
  case (Cons fh fs)
  have "length (utf16le (utf16Encode (runes (fh_Name fh)))) \<le> 4 * length (fh_Name fh)"
    using length_utf16 [of "runes (fh_Name fh)"] length_runes [of "fh_Name fh"] by linarith
  with Cons show ?case by (simp add: namesBody_def okName_def maxScanTokenSize_def)
qed (simp add: namesBody_def)

lemma names_step:
  assumes n: "counted n (fi_file f)" and law: "utf16_law (utf16Decode ext)"
    and ok: "list_all (\<lambda>fh. okName (fh_Name fh)) (fi_file f)" and small: "length (fi_file f) < 2 ^ 32"
  shows "readProperties ext n \<lparr>fs_file = map g (fi_file f), fs_emptyStreams = e\<rparr> (feed (writeNames f @ bs) r)
    = readProperties ext n \<lparr>fs_file = map (\<lambda>fh. (g fh)\<lparr>fh_Name := fh_Name fh\<rparr>) (fi_file f),
        fs_emptyStreams = e\<rparr> (feed bs r)"
proof (rule readProperties_step)
  let ?b = "namesBody (fi_file f)" and ?ns = "map fh_Name (fi_file f)"
  have len: "length ?b < 2 ^ 63"
    using length_namesBody [OF ok] small by simp
  have "sint (of_nat (Suc (length ?b)) - 1 :: u64) = int (length ?b)"
    using sint_of_nat [OF len] by simp
  moreover have "utf16Decode ext ?b = concat (map (\<lambda>s. s @ [0]) ?ns)"
    using names_decode [OF law, of ?ns] ok by (simp add: namesBody_def list_all_iff comp_def)
  moreover have "scanNames (concat (map (\<lambda>s. s @ [0]) ?ns)) = Inr ?ns"
    using ok by (intro scanNames_concat) (simp add: list_all_iff)
  moreover have "of_nat (length (fi_file f)) = n"
    using n by (metis counted_def of_nat_unat ucast_id)
  ultimately have "readNames ext n (of_nat (Suc (length ?b))) (feed (0 # ?b @ bs) r) = Inr (?ns, feed bs r)"
    using n readUpTo_feed [of 4096 ?b "feed bs r"]
    by (simp add: readNames_def counted_def decode_simps feed_append)
  then show "readProperty ext n \<lparr>fs_file = map g (fi_file f), fs_emptyStreams = e\<rparr> (feed (writeNames f @ bs) r)
    = Inr (Some \<lparr>fs_file = map (\<lambda>fh. (g fh)\<lparr>fh_Name := fh_Name fh\<rparr>) (fi_file f), fs_emptyStreams = e\<rparr>, feed bs r)"
    by (simp add: writeNames_def propBytes_def readProperty_def decode_simps varint.bind_enc
        pbind_Inr map2_map namesBody_def [symmetric])
qed

text \<open>Attributes: the value 0 is stored as not defined.\<close>

lemma attributes_step:
  assumes n: "counted n (fi_file f)" and zero: "\<And>fh. fh_Attributes (g fh) = 0"
  shows "readProperties ext n \<lparr>fs_file = map g (fi_file f), fs_emptyStreams = e\<rparr> (feed (writeAttributes f @ bs) r)
    = readProperties ext n \<lparr>fs_file = map (\<lambda>fh. (g fh)\<lparr>fh_Attributes := fh_Attributes fh\<rparr>) (fi_file f),
        fs_emptyStreams = e\<rparr> (feed bs r)"
proof (cases "list_ex (\<lambda>fh. fh_Attributes fh \<noteq> 0) (fi_file f)")
  case True
  let ?ds = "map (\<lambda>fh. fh_Attributes fh \<noteq> 0) (fi_file f)" and ?as = "map fh_Attributes (fi_file f)"
  have w: "writeAttributes f
      = propBytes idWinAttributes (writeOptionalBool ?ds @ [0] @ writeDefined putUint32 ?as ?ds)"
    using True by (simp add: writeAttributes_def Let_def writeDefined_map)
  have "list_all2 (\<lambda>x d. if d then True else x = 0) ?as ?ds"
    by (simp add: list_all2_map list_all_iff)
  then have "readDefined readUint32LE 0 ?ds (feed (writeDefined putUint32 ?as ?ds @ bs) r)
      = Inr (?as, feed bs r)"
    by (simp only: feed_append u32_codec.read_defined)
  then have "readAttributes n (feed (writeOptionalBool ?ds @ 0 # writeDefined putUint32 ?as ?ds @ bs) r)
      = Inr (?as, feed bs r)"
    using n by (simp add: readAttributes_def counted_def optional_bools.bind_enc decode_simps)
  then show ?thesis
    unfolding w by (intro readProperties_step)
      (simp add: propBytes_def readProperty_def decode_simps varint.bind_enc pbind_Inr map2_map)
next
  case False
  have "map (\<lambda>fh. (g fh)\<lparr>fh_Attributes := fh_Attributes fh\<rparr>) (fi_file f) = map g (fi_file f)"
    using False zero by (intro map_cong) (auto simp: list_ex_iff intro!: fileHeader.equality)
  with False show ?thesis by (simp only: writeAttributes_def if_False append_Nil)
qed

text \<open>Empty streams and, among them, empty files.\<close>

lemma map2_replicate: "map2 h (replicate (length xs) z) (map g xs) = map (\<lambda>x. h z (g x)) xs"
  by (induction xs) simp_all

lemma emptyStreams_step:
  assumes n: "counted n (fi_file f)"
  shows "\<exists>e. readProperties ext n \<lparr>fs_file = replicate (unat n) zeroFileHeader, fs_emptyStreams = 0\<rparr>
      (feed (writeEmptyStreams f @ bs) r)
    = readProperties ext n \<lparr>fs_file = map (\<lambda>fh. zeroFileHeader\<lparr>fh_isEmptyStream := fh_isEmptyStream fh,
         fh_isEmptyFile := fh_isEmptyStream fh \<and> fh_isEmptyFile fh\<rparr>) (fi_file f), fs_emptyStreams = e\<rparr> (feed bs r)"
proof (cases "list_ex fh_isEmptyStream (fi_file f)")
  case False
  then have "replicate (unat n) zeroFileHeader = map (\<lambda>fh. zeroFileHeader\<lparr>fh_isEmptyStream := fh_isEmptyStream fh,
         fh_isEmptyFile := fh_isEmptyStream fh \<and> fh_isEmptyFile fh\<rparr>) (fi_file f)"
    using n by (auto simp: counted_def list_ex_iff zeroFileHeader_def map_replicate_const
        intro!: nth_equalityI)
  with False show ?thesis
    by (auto simp: writeEmptyStreams_def Let_def list_ex_iff)
next
  case True
  let ?es = "map fh_isEmptyStream (fi_file f)" and ?z = zeroFileHeader
  let ?efs = "map fh_isEmptyFile (filter fh_isEmptyStream (fi_file f))"
  let ?g = "\<lambda>fh. ?z\<lparr>fh_isEmptyStream := fh_isEmptyStream fh\<rparr>"
  define c where "c = (of_nat (length (filter fh_isEmptyStream (fi_file f))) :: u64)"
  have "0 < length (filter fh_isEmptyStream (fi_file f))"
    using True by (auto simp: list_ex_iff filter_empty_conv)
  moreover have "length (filter fh_isEmptyStream (fi_file f)) < 2 ^ 32"
  proof -
    have "length (fi_file f) < 2 ^ 32"
      using n by (simp add: counted_def checkUint64_None word_le_nat_alt)
    with length_filter_le show ?thesis by (rule le_less_trans)
  qed
  ultimately have c: "checkUint64 c True = None" "unat c = length ?efs"
    using checkUint64_of_nat [of "length (filter fh_isEmptyStream (fi_file f))" True]
    by (simp_all add: c_def)
  have s1: "readProperties ext n \<lparr>fs_file = replicate (unat n) ?z, fs_emptyStreams = 0\<rparr>
      (feed (idEmptyStream # writeUint64 l @ writeBool ?es @ cs) r)
    = readProperties ext n \<lparr>fs_file = map ?g (fi_file f), fs_emptyStreams = c\<rparr> (feed cs r)" for l cs
    using n by (intro readProperties_step)
      (simp add: readProperty_def decode_simps varint.bind_enc bools.bind_enc counted_def
        setEmptyStream_def map2_replicate comp_def c_def)
  let ?g' = "\<lambda>fh. if fh_isEmptyStream fh then (?g fh)\<lparr>fh_isEmptyFile := fh_isEmptyFile fh\<rparr> else ?g fh"
  have s2: "readProperties ext n \<lparr>fs_file = map ?g (fi_file f), fs_emptyStreams = c\<rparr>
      (feed (idEmptyFile # writeUint64 l @ writeBool ?efs @ cs) r)
    = readProperties ext n \<lparr>fs_file = map ?g' (fi_file f), fs_emptyStreams = c\<rparr> (feed cs r)" for l cs
    using c setEmptyFile_map [of ?g "fi_file f"] by (intro readProperties_step)
      (simp add: readProperty_def decode_simps varint.bind_enc bools.bind_enc)
  have g': "map ?g' (fi_file f) = map (\<lambda>fh. ?z\<lparr>fh_isEmptyStream := fh_isEmptyStream fh,
         fh_isEmptyFile := fh_isEmptyStream fh \<and> fh_isEmptyFile fh\<rparr>) (fi_file f)"
    by (auto simp: zeroFileHeader_def)
  have same: "\<not> list_ex (\<lambda>e. e) ?efs \<Longrightarrow> map ?g (fi_file f) = map ?g' (fi_file f)"
    by (auto simp: list_ex_iff zeroFileHeader_def)
  show ?thesis
    unfolding g' [symmetric]
  proof (intro exI [of _ c], cases "list_ex (\<lambda>e. e) ?efs")
    case ex: True
    have "writeEmptyStreams f @ bs
      = idEmptyStream # writeUint64 (of_nat ((length ?es + 7) div 8)) @ writeBool ?es
        @ (idEmptyFile # writeUint64 (of_nat ((length ?efs + 7) div 8)) @ writeBool ?efs @ bs)"
      using True ex by (simp add: writeEmptyStreams_def Let_def list_ex_iff)
    then show "readProperties ext n \<lparr>fs_file = replicate (unat n) ?z, fs_emptyStreams = 0\<rparr>
        (feed (writeEmptyStreams f @ bs) r)
      = readProperties ext n \<lparr>fs_file = map ?g' (fi_file f), fs_emptyStreams = c\<rparr> (feed bs r)"
      by (simp only: s1 s2)
  next
    case ex: False
    have "writeEmptyStreams f @ bs
      = idEmptyStream # writeUint64 (of_nat ((length ?es + 7) div 8)) @ writeBool ?es @ bs"
      using True ex by (simp add: writeEmptyStreams_def Let_def list_ex_iff)
    then show "readProperties ext n \<lparr>fs_file = replicate (unat n) ?z, fs_emptyStreams = 0\<rparr>
        (feed (writeEmptyStreams f @ bs) r)
      = readProperties ext n \<lparr>fs_file = map ?g' (fi_file f), fs_emptyStreams = c\<rparr> (feed bs r)"
      by (simp only: s1 same [OF ex])
  qed
qed

section \<open>All the files\<close>

lemma readFilesInfo_write:
  assumes ok: "okFiles f" and laws: "utf16_law (utf16Decode ext)" "filetime_law (filetimeNanoseconds ext)"
  shows "readFilesInfo ext (feed (writeFilesInfo f) r) = Inr (\<lparr>fi_file = map parsedFile (fi_file f)\<rparr>, r)"
proof -
  let ?n = "of_nat (length (fi_file f)) :: u64"
  have small: "length (fi_file f) < 2 ^ 32" and names: "list_all (\<lambda>fh. okName (fh_Name fh)) (fi_file f)"
    and times: "list_all (\<lambda>fh. okTime (fh_Created fh)) (fi_file f)"
      "list_all (\<lambda>fh. okTime (fh_Accessed fh)) (fi_file f)"
      "list_all (\<lambda>fh. okTime (fh_Modified fh)) (fi_file f)"
    using ok by (auto simp: okFiles_def list_all_iff)
  have n: "counted ?n (fi_file f)"
    using checkUint64_of_nat [of "length (fi_file f)" True] small ok by (simp add: counted_def okFiles_def)
  let ?rest = "(if hasTime f fh_Created then writeTimeProp idCTime f fh_Created else [])
     @ (if hasTime f fh_Accessed then writeTimeProp idATime f fh_Accessed else [])
     @ (if hasTime f fh_Modified then writeTimeProp idMTime f fh_Modified else [])
     @ writeNames f @ writeAttributes f @ [idEnd]"
  obtain e where e: "readProperties ext ?n \<lparr>fs_file = replicate (unat ?n) zeroFileHeader, fs_emptyStreams = 0\<rparr>
      (feed (writeEmptyStreams f @ ?rest) r)
    = readProperties ext ?n \<lparr>fs_file = map (\<lambda>fh. zeroFileHeader\<lparr>fh_isEmptyStream := fh_isEmptyStream fh,
         fh_isEmptyFile := fh_isEmptyStream fh \<and> fh_isEmptyFile fh\<rparr>) (fi_file f), fs_emptyStreams = e\<rparr> (feed ?rest r)"
    using emptyStreams_step [OF n] by blast
  have "readProperties ext ?n \<lparr>fs_file = replicate (unat ?n) zeroFileHeader, fs_emptyStreams = 0\<rparr>
      (feed (writeEmptyStreams f @ ?rest) r)
    = Inr (\<lparr>fs_file = map parsedFile (fi_file f), fs_emptyStreams = e\<rparr>, r)"
    unfolding e
    by (subst ctime_step [OF n laws(2) times(1)], simp add: zeroFileHeader_def,
        subst atime_step [OF n laws(2) times(2)], simp add: zeroFileHeader_def,
        subst mtime_step [OF n laws(2) times(3)], simp add: zeroFileHeader_def,
        subst names_step [OF n laws(1) names small],
        subst attributes_step [OF n], simp add: zeroFileHeader_def,
        simp add: readProperties_end parsedFile_def)
  then show ?thesis
    using n by (simp add: readFilesInfo_def writeFilesInfo_def varint_bounded.bind_enc counted_def pbind_Inr)
qed

end
