(* ===== verification/Streams_Lookup.thy ===== *)
theory Streams_Lookup
  imports Structs Numbers
begin

unbundle bit_operations_syntax

text \<open>
  What the lookups of \<open>struct.go\<close> compute: the folder of the n-th file with data is the one
  whose range of running totals holds n, its size and checksum are read without leaving the
  arrays when these have the lengths that a well-formed header gives them, and the packed
  streams of the folders lie one after the other.
\<close>

section \<open>The folder of a file\<close>

text \<open>The reference definition: folder \<open>i\<close> occurs once for each of its files.\<close>

fun folderOfFiles :: "nat \<Rightarrow> nat list \<Rightarrow> nat list" where
  "folderOfFiles i [] = []"
| "folderOfFiles i (n # ns) = replicate n i @ folderOfFiles (Suc i) ns"

lemma length_folderOfFiles [simp]: "length (folderOfFiles i ns) = sum_list ns"
  by (induction i ns rule: folderOfFiles.induct) simp_all

lemma folderOfFiles_bounds:
  "k < sum_list ns \<Longrightarrow> i \<le> folderOfFiles i ns ! k \<and> folderOfFiles i ns ! k < i + length ns"
proof (induction i ns arbitrary: k rule: folderOfFiles.induct)
  case (2 i n ns)
  show ?case
  proof (cases "k < n")
    case False
    then have "k - n < sum_list ns" using "2.prems" by simp
    with "2.IH" [of "k - n"] False show ?thesis by (auto simp: nth_append)
  qed (simp add: nth_append)
qed simp

text \<open>The files of a folder form one range, in the order of the folders.\<close>

lemma folderOfFiles_range:
  "k < sum_list ns \<Longrightarrow> (let j = folderOfFiles i ns ! k - i in
     sum_list (take j ns) \<le> k \<and> k < sum_list (take (Suc j) ns))"
proof (induction i ns arbitrary: k rule: folderOfFiles.induct)
  case (2 i n ns)
  show ?case
  proof (cases "k < n")
    case False
    define m where "m = folderOfFiles (Suc i) ns ! (k - n)"
    have m: "Suc i \<le> m"
      using folderOfFiles_bounds [of "k - n" ns "Suc i"] "2.prems" False by (simp add: m_def)
    then have "m - i = Suc (m - Suc i)" by simp
    moreover have "sum_list (take (m - Suc i) ns) \<le> k - n \<and> k - n < sum_list (take (Suc (m - Suc i)) ns)"
      using "2.IH" [of "k - n"] "2.prems" False by (simp add: Let_def m_def)
    ultimately show ?thesis
      using False by (auto simp: nth_append m_def [symmetric] Let_def)
  qed (simp add: nth_append)
qed simp

lemma scanStreams_folder:
  assumes "t + sum_list (map unat ss) < 2 ^ 64" and "unat tot = t" and "t \<le> k"
    and "k < t + sum_list (map unat ss)"
  shows "scanStreams i tot (of_nat k) acc ss
    = (let j = folderOfFiles i (map unat ss) ! (k - t) in (j, ss ! (j - i)))"
  using assms
proof (induction ss arbitrary: i tot t acc)
  case (Cons s ss)
  have kk: "unat (of_nat k :: u64) = k"
    using Cons.prems by (simp add: unat_of_nat)
  have ts: "unat (tot + s) = t + unat s"
    using Cons.prems by (simp add: unat_word_ariths)
  have lt: "(of_nat k < tot + s) = (k < t + unat s)"
    by (simp add: word_less_nat_alt kk ts)
  show ?case
  proof (cases "k < t + unat s")
    case True
    then have "k - t < unat s" using Cons.prems by arith
    then show ?thesis using True lt by (simp add: nth_append Let_def)
  next
    case False
    define m where "m = folderOfFiles (Suc i) (map unat ss) ! (k - (t + unat s))"
    have "k - (t + unat s) < sum_list (map unat ss)"
      using Cons.prems False by simp
    from folderOfFiles_bounds [OF this, of "Suc i"] have "Suc i \<le> m"
      by (simp add: m_def)
    then have mi: "m - i = Suc (m - Suc i)" by simp
    have nth: "folderOfFiles i (map unat (s # ss)) ! (k - t) = m"
      using False by (auto simp: nth_append m_def)
    have "scanStreams (Suc i) (tot + s) (of_nat k) (i, s) ss = (m, ss ! (m - Suc i))"
      using Cons.IH [of "t + unat s" "tot + s" "Suc i" "(i, s)"] Cons.prems(1,4) False ts
      by (simp add: m_def Let_def add.assoc)
    then show ?thesis
      using False lt by (simp add: nth [unfolded list.map] mi Let_def del: folderOfFiles.simps)
  qed
qed simp

section \<open>The size and checksum of a file\<close>

text \<open>
  A header whose arrays have the lengths the lookups rely on: the sizes of a folder reach its
  last coder, digests and sizes of the substreams cover all the files.
\<close>

definition okFolderSizes :: "folder \<Rightarrow> bool" where
  "okFolderSizes f \<longleftrightarrow> fo_coder f \<noteq> [] \<and> length (fo_coder f) \<le> length (fo_size f)"

definition okLookup :: "streamsInfo \<Rightarrow> bool" where
  "okLookup si \<longleftrightarrow>
     (case (si_unpackInfo si, si_subStreamsInfo si) of
        (Some u, Some s) \<Rightarrow>
          list_all okFolderSizes (ui_folder u)
          \<and> (ui_digest u = [] \<or> length (ui_digest u) = length (ui_folder u))
          \<and> length (ss_streams s) = length (ui_folder u)
          \<and> sum_list (map unat (ss_streams s)) < 2 ^ 32
          \<and> (ss_digest s = [] \<or> length (ss_digest s) = sum_list (map unat (ss_streams s)))
          \<and> (list_ex (\<lambda>n. 1 < n) (ss_streams s)
               \<longrightarrow> length (ss_size s) = sum_list (map unat (ss_streams s)))
      | _ \<Rightarrow> False)"

definition fileCount :: "streamsInfo \<Rightarrow> nat" where
  "fileCount si = (case si_subStreamsInfo si of None \<Rightarrow> 0 | Some s \<Rightarrow> sum_list (map unat (ss_streams s)))"

text \<open>The reference for the lookup: plain list indexing.\<close>

definition fileEntry :: "streamsInfo \<Rightarrow> nat \<Rightarrow> nat \<times> u64 \<times> u32" where
  "fileEntry si k =
     (case (si_unpackInfo si, si_subStreamsInfo si) of
        (Some u, Some s) \<Rightarrow>
          let j = folderOfFiles 0 (map unat (ss_streams s)) ! k;
              f = ui_folder u ! j;
              crc = (if ss_digest s = [] then 0 else ss_digest s ! k)
          in if ss_streams s ! j = 1
             then (j, fo_size f ! (length (fo_coder f) - 1),
                   if ui_digest u = [] then crc else ui_digest u ! j)
             else (j, ss_size s ! k, crc)
      | _ \<Rightarrow> (0, 0, 0))"

lemma idx_nth [simp]: "i < length xs \<Longrightarrow> idx xs i = Inr (xs ! i)"
  by (simp add: idx_def)

lemma FileFolderAndSize_entry:
  assumes ok: "okLookup si" and k: "k < fileCount si"
  shows "FileFolderAndSize si k = Inr (fileEntry si k)"
proof -
  obtain u s where us: "si_unpackInfo si = Some u" "si_subStreamsInfo si = Some s"
    using ok by (auto simp: okLookup_def split: option.splits)
  let ?ns = "map unat (ss_streams s)"
  define j where "j = folderOfFiles 0 ?ns ! k"
  have k': "k < sum_list ?ns" and small: "sum_list ?ns < 2 ^ 32"
    using k ok by (simp_all add: fileCount_def okLookup_def us)
  have scan: "scanStreams 0 0 (of_nat k) (0, 1) (ss_streams s) = (j, ss_streams s ! j)"
    using scanStreams_folder [of 0 "ss_streams s" 0 k 0 "(0, 1)"] k' small by (simp add: j_def Let_def)
  have j: "j < length (ss_streams s)"
    using folderOfFiles_bounds [OF k', of 0] by (simp add: j_def)
  have pos: "ss_streams s ! j \<noteq> 0"
  proof
    assume "ss_streams s ! j = 0"
    then have "sum_list (take (Suc j) ?ns) = sum_list (take j ?ns)"
      using j by (simp add: take_Suc_conv_app_nth)
    with folderOfFiles_range [OF k', of 0] show False by (simp add: Let_def j_def)
  qed
  have big: "list_ex (\<lambda>n. 1 < n) (ss_streams s)" if "ss_streams s ! j \<noteq> 1"
  proof -
    have "unat (ss_streams s ! j) \<noteq> 0" "unat (ss_streams s ! j) \<noteq> 1"
      using pos that by (metis unat_eq_zero, metis unat_1 word_unat_eq_iff)
    then have "1 < ss_streams s ! j" by (simp add: word_less_nat_alt)
    with j show ?thesis by (auto simp: list_ex_iff)
  qed
  have f: "j < length (ui_folder u)" "okFolderSizes (ui_folder u ! j)"
    using ok j by (simp_all add: okLookup_def us list_all_length)
  then have sz: "fo_coder (ui_folder u ! j) \<noteq> []"
      "length (fo_coder (ui_folder u ! j)) - 1 < length (fo_size (ui_folder u ! j))"
    by (auto simp: okFolderSizes_def) (metis Suc_pred length_greater_0_conv less_eq_Suc_le)
  show ?thesis
    using ok j k' f sz big
    by (auto simp: FileFolderAndSize_def fileEntry_def us scan Let_def okLookup_def j_def [symmetric])
qed

section \<open>The offset of a folder\<close>

definition packedBefore :: "folder list \<Rightarrow> nat \<Rightarrow> nat" where
  "packedBefore fs n = sum_list (map (unat \<circ> fo_packedStreams) (take n fs))"

lemma addSizes_range:
  "k + n \<le> length sizes \<Longrightarrow>
   addSizes sizes [k..<k + n] off = Inr (off + sum_list (take n (drop k sizes)))"
proof (induction n arbitrary: k off)
  case (Suc n)
  then have "[k..<k + Suc n] = k # [Suc k..<Suc k + n]"
    by (simp add: upt_rec)
  moreover have "drop k sizes = sizes ! k # drop (Suc k) sizes"
    using Suc.prems by (simp add: Cons_nth_drop_Suc)
  ultimately show ?case
    using Suc.IH [of "Suc k" "off + sizes ! k"] Suc.prems by (simp add: add.assoc)
qed simp

lemma sum_take_add: "sum_list (take m xs) + sum_list (take n (drop m xs)) = (sum_list (take (m + n) xs) :: u64)"
  by (simp add: take_add)

lemma folderOffsetLoop_sum:
  assumes "unat k + sum_list (map (unat \<circ> fo_packedStreams) fs) \<le> length sizes"
    and "length sizes < 2 ^ 64"
  shows "folderOffsetLoop sizes fs k (sum_list (take (unat k) sizes))
    = Inr (sum_list (take (unat k + sum_list (map (unat \<circ> fo_packedStreams) fs)) sizes))"
  using assms
proof (induction fs arbitrary: k)
  case (Cons f fs)
  have un: "unat (k + fo_packedStreams f) = unat k + unat (fo_packedStreams f)"
    using Cons.prems by (simp add: unat_word_ariths)
  have "addSizes sizes [unat k..<unat k + unat (fo_packedStreams f)] (sum_list (take (unat k) sizes))
    = Inr (sum_list (take (unat k + unat (fo_packedStreams f)) sizes))"
    using Cons.prems by (subst addSizes_range) (simp_all add: sum_take_add)
  then show ?case
    using Cons.IH [of "k + fo_packedStreams f"] Cons.prems by (simp add: un add.assoc)
qed simp

lemma unat_sum_list_less:
  "sum_list (map unat ws) < 2 ^ 64 \<Longrightarrow> unat (sum_list (ws :: u64 list)) = sum_list (map unat ws)"
proof (induction ws)
  case (Cons w ws)
  then show ?case by (simp add: unat_word_ariths)
qed simp

lemma sint_small: "unat (w :: u64) < 2 ^ 63 \<Longrightarrow> sint w = int (unat w)"
  using sint_of_nat [of "unat w"] by (simp only: of_nat_unat ucast_id)

lemma folderOffset_sum:
  assumes si: "si_packInfo si = Some p" "si_unpackInfo si = Some u"
    and k: "k \<le> length (ui_folder u)"
    and n: "packedBefore (ui_folder u) k \<le> length (pi_size p)" "length (pi_size p) < 2 ^ 64"
    and fits: "unat (pi_position p) + sum_list (map unat (take (packedBefore (ui_folder u) k) (pi_size p))) < 2 ^ 63"
  shows "folderOffset si k = Inr (int (unat (pi_position p)
    + sum_list (map unat (take (packedBefore (ui_folder u) k) (pi_size p)))))"
proof -
  let ?s = "sum_list (take (packedBefore (ui_folder u) k) (pi_size p))"
  have u: "unat ?s = sum_list (map unat (take (packedBefore (ui_folder u) k) (pi_size p)))"
    using fits by (intro unat_sum_list_less) simp
  have up: "unat (pi_position p + ?s) = unat (pi_position p) + unat ?s"
    using fits u by (simp add: unat_word_ariths)
  then have pos: "sint (pi_position p + ?s) = int (unat (pi_position p) + unat ?s)"
    using fits u sint_small [of "pi_position p + ?s"] by simp
  show ?thesis
  proof (cases "k = 0")
    case True
    then show ?thesis
      using si pos u by (simp add: folderOffset_def packedBefore_def)
  next
    case False
    have "folderOffsetLoop (pi_size p) (take k (ui_folder u)) 0 0 = Inr ?s"
      using folderOffsetLoop_sum [of 0 "take k (ui_folder u)" "pi_size p"] n
      by (simp add: packedBefore_def)
    then show ?thesis
      using False k si pos u by (simp add: folderOffset_def)
  qed
qed

section \<open>Properties\<close>

text \<open>
C15: For streams whose tables have the lengths the parser gives them, \<open>FileFolderAndSize\<close> finds
for the \<open>k\<close>-th file with data the folder that holds it and the size and checksum that stand at
that place in the tables: the scan over the numbers of streams agrees with plain indexing.
\<close>

theorem lookup_matches_tables:
  assumes "okLookup si" and "k < fileCount si"
  shows "FileFolderAndSize si k = Inr (fileEntry si k)"
  using assms by (rule FileFolderAndSize_entry)

definition twoFolders :: streamsInfo where
  "twoFolders =
     (let f = \<lparr>fo_in = 1, fo_out = 1, fo_packedStreams = 1,
               fo_coder = [\<lparr>co_id = [0x21], co_in = 1, co_out = 1, co_properties = [24]\<rparr>],
               fo_bindPair = [], fo_size = [30], fo_packed = [0]\<rparr>
      in \<lparr>si_packInfo = Some \<lparr>pi_position = 4, pi_streams = 2, pi_size = [10, 20], pi_digest = []\<rparr>,
          si_unpackInfo = Some \<lparr>ui_folder = [f, f], ui_digest = []\<rparr>,
          si_subStreamsInfo = Some \<lparr>ss_streams = [2, 1], ss_size = [12, 18, 30], ss_digest = [7, 8, 9]\<rparr>\<rparr>)"

theorem lookup_matches_tables_witness:
  "okLookup twoFolders \<and> 1 < fileCount twoFolders \<and> FileFolderAndSize twoFolders 1 = Inr (0, 18, 8)"
proof -
  have "okLookup twoFolders" "1 < fileCount twoFolders"
    by (simp_all add: okLookup_def twoFolders_def fileCount_def okFolderSizes_def Let_def)
  with lookup_matches_tables [OF this] show ?thesis
    by (simp add: fileEntry_def twoFolders_def Let_def nth_append)
qed

text \<open>
C16: The offset of a folder is the position of the packed streams plus the sizes of the packed
streams of all folders before it, as a number that has not wrapped around.
\<close>

theorem folder_offset_is_sum:
  assumes "si_packInfo si = Some p" and "si_unpackInfo si = Some u" and "k \<le> length (ui_folder u)"
    and "packedBefore (ui_folder u) k \<le> length (pi_size p)" and "length (pi_size p) < 2 ^ 64"
    and "unat (pi_position p) + sum_list (map unat (take (packedBefore (ui_folder u) k) (pi_size p))) < 2 ^ 63"
  shows "folderOffset si k = Inr (int (unat (pi_position p)
    + sum_list (map unat (take (packedBefore (ui_folder u) k) (pi_size p)))))"
  using assms by (rule folderOffset_sum)

theorem folder_offset_is_sum_witness:
  "folderOffset twoFolders 1 = Inr 14"
  using folder_offset_is_sum [of twoFolders "the (si_packInfo twoFolders)" "the (si_unpackInfo twoFolders)" 1]
  by (simp add: twoFolders_def packedBefore_def Let_def)

end
