(* ===== verification/Header_RoundTrip.thy ===== *)
theory Header_RoundTrip
  imports Files_RoundTrip Streams_Lookup
begin

unbundle bit_operations_syntax

text \<open>
  The whole header: \<open>readHeader\<close> after \<open>writeHeader\<close>. The parser does not return the header
  that was written but its reading of it: sizes that the format leaves out are gone, times are
  in units of 100 ns, and the size and checksum of each file come from the streams.
\<close>

definition okHeader :: "header \<Rightarrow> bool" where
  "okHeader h \<longleftrightarrow>
     (case hd_streamsInfo h of None \<Rightarrow> True | Some s \<Rightarrow> okStreamsInfo s)
     \<and> (case hd_filesInfo h of None \<Rightarrow> True | Some f \<Rightarrow> okFiles f)"

definition parsedHeader :: "header \<Rightarrow> header result" where
  "parsedHeader h =
     (let si = map_option normStreamsInfo (hd_streamsInfo h);
          fi = map_option (\<lambda>f. \<lparr>fi_file = map parsedFile (fi_file f)\<rparr>) (hd_filesInfo h)
      in case (si, fi) of
           (Some s, Some f) \<Rightarrow>
             rbind (fillSizes s 0 (fi_file f)) (\<lambda>fs.
             Inr \<lparr>hd_streamsInfo = si, hd_filesInfo = Some \<lparr>fi_file = fs\<rparr>\<rparr>)
         | _ \<Rightarrow> Inr \<lparr>hd_streamsInfo = si, hd_filesInfo = fi\<rparr>)"

lemma readHeader_write:
  assumes ok: "okHeader h"
    and laws: "utf16_law (utf16Decode ext)" "filetime_law (filetimeNanoseconds ext)"
  shows "\<exists>bs. writeHeader h = Inr bs \<and>
    (\<forall>r. readHeader ext (feed bs r) = rbind (parsedHeader h) (\<lambda>h'. Inr (h', r)))"
proof -
  have "\<And>s. hd_streamsInfo h = Some s \<Longrightarrow> readsBack (writeStreamsInfo s) readStreamsInfo (normStreamsInfo s)"
    using ok by (auto simp: okHeader_def intro: readStreamsInfo_write)
  from readsBack_optional [of "hd_streamsInfo h" writeStreamsInfo _ normStreamsInfo, OF this]
  obtain sb where sb: "\<forall>s. hd_streamsInfo h = Some s \<longrightarrow>
      writeStreamsInfo s = Inr sb \<and> (\<forall>r. pSome readStreamsInfo (feed sb r) = Inr (Some (normStreamsInfo s), r))"
    by (rule exE)
  have fb: "pSome (readFilesInfo ext) (feed (writeFilesInfo f) r)
      = Inr (Some \<lparr>fi_file = map parsedFile (fi_file f)\<rparr>, r)" if "hd_filesInfo h = Some f" for f r
    using ok that laws by (intro pSome_feed readFilesInfo_write) (simp_all add: okHeader_def)
  define bs where "bs = (if hd_streamsInfo h = None then [] else idMainStreamsInfo # sb)
     @ (case hd_filesInfo h of None \<Rightarrow> [] | Some f \<Rightarrow> idFilesInfo # writeFilesInfo f) @ [idEnd]"
  have "writeHeader h = Inr bs"
    using sb by (auto simp: writeHeader_def bs_def split: option.splits)
  moreover have "readHeader ext (feed bs r) = rbind (parsedHeader h) (\<lambda>h'. Inr (h', r))" for r
  proof (cases "hd_streamsInfo h")
    case None
    then show ?thesis
      using fb by (cases "hd_filesInfo h")
        (simp_all add: bs_def readHeader_def decode_simps optSection_present parsedHeader_def)
  next
    case s: (Some s)
    show ?thesis
    proof (cases "hd_filesInfo h")
      case None
      then show ?thesis
        using s sb by (simp add: bs_def readHeader_def decode_simps optSection_present parsedHeader_def)
    next
      case (Some f)
      then show ?thesis
        using s sb fb
        by (cases "fillSizes (normStreamsInfo s) 0 (map parsedFile (fi_file f))")
          (simp_all add: bs_def readHeader_def decode_simps optSection_present parsedHeader_def pfail_def)
    qed
  qed
  ultimately show ?thesis by blast
qed

section \<open>Sizes and checksums\<close>

text \<open>The reference for \<open>fillSizes\<close>: each file with data takes the next pair.\<close>

fun zipSizes :: "(u64 \<times> u32) list \<Rightarrow> fileHeader list \<Rightarrow> fileHeader list" where
  "zipSizes es [] = []"
| "zipSizes es (f # fs) =
     (if fh_isEmptyStream f then f # zipSizes es fs
      else case es of
             [] \<Rightarrow> f # zipSizes [] fs
           | (sz, crc) # es' \<Rightarrow>
               f\<lparr>fh_UncompressedSize := sz, fh_CRC32 := crc\<rparr> # zipSizes es' fs)"

definition streamEntries :: "streamsInfo \<Rightarrow> (u64 \<times> u32) list" where
  "streamEntries si = map (snd \<circ> fileEntry si) [0..<fileCount si]"

lemma fillSizes_zip:
  assumes ok: "okLookup si" and len: "j + length (filter (\<lambda>f. \<not> fh_isEmptyStream f) fs) \<le> fileCount si"
  shows "fillSizes si j fs = Inr (zipSizes (drop j (streamEntries si)) fs)"
  using len
proof (induction fs arbitrary: j)
  case (Cons f fs)
  show ?case
  proof (cases "fh_isEmptyStream f")
    case False
    with Cons.prems have j: "j < fileCount si" by simp
    then have "drop j (streamEntries si) = snd (fileEntry si j) # drop (Suc j) (streamEntries si)"
      by (simp add: streamEntries_def drop_map upt_rec [of j])
    with Cons False FileFolderAndSize_entry [OF ok j] show ?thesis
      by (simp split: prod.splits)
  qed (use Cons in simp)
qed simp

section \<open>Properties\<close>


definition plainExternals :: externals where
  "plainExternals = \<lparr>utf16Decode = plainDecode, filetimeNanoseconds = plainNanoseconds\<rparr>"

lemma plainExternals_laws:
  "utf16_law (utf16Decode plainExternals)" "filetime_law (filetimeNanoseconds plainExternals)"
  by (simp_all add: plainExternals_def utf16_law_plainDecode filetime_law_plain)

lemma okName_a: "okName [0x61]"
  by (simp add: okName_def runes.simps decodeRune_def utf8Rune_def maxScanTokenSize_def)

definition smallHeader :: header where
  "smallHeader =
     (let f = zeroFileHeader\<lparr>fh_Name := [0x61], fh_Attributes := 0x20\<rparr>
      in \<lparr>hd_streamsInfo = Some twoFolders, hd_filesInfo = Some \<lparr>fi_file = [f, f\<lparr>fh_isEmptyStream := True\<rparr>, f, f]\<rparr>\<rparr>)"

lemma okHeader_small: "okHeader smallHeader"
  using okName_a
  by (simp add: okHeader_def smallHeader_def okStreamsInfo_def twoFolders_def Let_def okPackInfo_def
      checkUint64_def okUnpackInfo_def okFolder_def okCoder_def findInBindPair_def okSubStreamsInfo_def
      unpackSize_def findOutBindPair_def okFiles_def zeroFileHeader_def okTime_def)


end
