(* ===== verification/Writer_Header.thy ===== *)
theory Writer_Header
  imports Writer_Close Header_RoundTrip
begin

unbundle bit_operations_syntax

text \<open>
  The header that \<open>Writer.Close\<close> builds, read back: when the tables of the writer are
  consistent, the parser accepts the header and gives every file with data the size and the
  checksum the writer recorded for it, through folders, substreams and lookups.
\<close>

section \<open>Indices into a concatenation\<close>

lemma concat_nth_folder:
  "k < length (concat xss) \<Longrightarrow>
   (let j = folderOfFiles i (map length xss) ! k - i in
      j < length xss \<and> sum_list (take j (map length xss)) \<le> k
      \<and> k - sum_list (take j (map length xss)) < length (xss ! j)
      \<and> concat xss ! k = xss ! j ! (k - sum_list (take j (map length xss))))"
proof (induction xss arbitrary: i k)
  case (Cons xs xss)
  show ?case
  proof (cases "k < length xs")
    case True
    then show ?thesis by (simp add: nth_append Let_def)
  next
    case False
    have k: "k - length xs < length (concat xss)" using Cons.prems False by simp
    then have k': "k - length xs < sum_list (map length xss)" by (simp add: length_concat)
    define m where "m = folderOfFiles (Suc i) (map length xss) ! (k - length xs)"
    have "Suc i \<le> m"
      using folderOfFiles_bounds [OF k', of "Suc i"] by (simp add: m_def)
    then have mi: "m - i = Suc (m - Suc i)" by simp
    from Cons.IH [OF k, of "Suc i"] False mi show ?thesis
      by (auto simp: nth_append m_def [symmetric] Let_def)
  qed
qed simp

section \<open>Consistent tables\<close>

abbreviation hasData :: "fileInfo \<Rightarrow> bool" where
  "hasData fi \<equiv> \<not> fh_isEmptyStream (fl_fh fi)"

definition folderTableOk :: "'z folderWriter \<Rightarrow> bool" where
  "folderTableOk f \<longleftrightarrow> fw_files f \<noteq> [] \<and> (fw_isEncrypted f \<longrightarrow> length (fw_aesProps f) = 26)"

definition tablesOk :: "'z writer \<Rightarrow> bool" where
  "tablesOk w \<longleftrightarrow>
     concat (map fw_files (w_folders w)) = filter (\<lambda>i. hasData (w_files w ! i)) [0..<length (w_files w)]
     \<and> list_all folderTableOk (w_folders w)
     \<and> list_all (\<lambda>fi. \<not> fh_isEmptyFile (fl_fh fi)) (w_files w)"

text \<open>The parsed entry of a file: times in units of 100 ns, size and checksum of the writer.\<close>

definition storedFile :: "fileInfo \<Rightarrow> fileHeader" where
  "storedFile fi =
     (if hasData fi
      then (parsedFile (fl_fh fi))\<lparr>fh_UncompressedSize := fl_uncompSize fi, fh_CRC32 := fl_crc32 fi\<rparr>
      else parsedFile (fl_fh fi))"

section \<open>The streams are well-formed\<close>

definition totalOf :: "fileInfo list \<Rightarrow> 'z folderWriter \<Rightarrow> u64" where
  "totalOf files f = sum_list (map (\<lambda>i. fl_uncompSize (files ! i)) (fw_files f))"

lemma folderOf_cases:
  "folderOf files f =
     (if fw_isEncrypted f
      then \<lparr>fo_in = 2, fo_out = 2, fo_packedStreams = 1,
            fo_coder = [aesCoder (fw_aesProps f), lzma2Coder (fw_propByte f)],
            fo_bindPair = [\<lparr>bp_in = 1, bp_out = 0\<rparr>],
            fo_size = [fw_unencComp f, totalOf files f], fo_packed = [0]\<rparr>
      else \<lparr>fo_in = 1, fo_out = 1, fo_packedStreams = 1, fo_coder = [lzma2Coder (fw_propByte f)],
            fo_bindPair = [], fo_size = [totalOf files f], fo_packed = [0]\<rparr>)"
  by (simp add: folderOf_def totalOf_def Let_def)

lemma okFolder_folderOf: "folderTableOk f \<Longrightarrow> okFolder (folderOf files f)"
  by (auto simp: folderOf_cases folderTableOk_def okFolder_def okCoder_def okBindPair_def aesCoder_def
      lzma2Coder_def checkUint64_None findInBindPair_def upt_rec)

lemma unpackSize_folderOf: "unpackSize (folderOf files f) = totalOf files f"
  by (auto simp: folderOf_cases unpackSize_def findOutBindPair_def upt_rec)

lemma okFolderSizes_folderOf: "okFolderSizes (folderOf files f)"
  by (simp add: folderOf_cases okFolderSizes_def)

lemma last_size_folderOf:
  "fo_size (folderOf files f) ! (length (fo_coder (folderOf files f)) - 1) = totalOf files f"
  by (simp add: folderOf_cases)

abbreviation fileSizes :: "fileInfo list \<Rightarrow> 'z folderWriter list \<Rightarrow> u64 list" where
  "fileSizes files fs \<equiv> concat (map (\<lambda>f. map (\<lambda>i. fl_uncompSize (files ! i)) (fw_files f)) fs)"

lemma sizesFit_folders:
  "list_all (\<lambda>f. fw_files f \<noteq> [] \<and> length (fw_files f) < 2 ^ 32) fs \<Longrightarrow>
   sizesFit (zip (map (\<lambda>f. of_nat (length (fw_files f))) fs) (map (folderOf files) fs)) (fileSizes files fs)"
proof (induction fs)
  case (Cons f fs)
  have un: "unat (of_nat (length (fw_files f)) :: u64) = length (fw_files f)"
    using Cons.prems by (intro checkUint64_of_nat(2) [of _ False]) simp_all
  have nz: "(of_nat (length (fw_files f)) :: u64) \<noteq> 0"
    using un Cons.prems by (auto simp: unat_eq_zero [symmetric])
  from Cons show ?case by (simp add: un nz unpackSize_folderOf totalOf_def)
qed simp

lemma sum_folder_lengths:
  "list_all (\<lambda>f. length (fw_files f) < 2 ^ 32) fs \<Longrightarrow>
   sum_list (map (unat \<circ> (\<lambda>f. of_nat (length (fw_files f)) :: u64)) fs) = length (concat (map fw_files fs))"
  by (induction fs) (simp_all add: checkUint64_of_nat(2) [of _ False])

text \<open>What consistent tables of fewer than \<open>2 ^ 32\<close> files say about sizes.\<close>

lemma tablesOk_counts:
  assumes "tablesOk w" and "length (w_files w) < 2 ^ 32"
  shows "length (concat (map fw_files (w_folders w))) < 2 ^ 32"
    and "list_all (\<lambda>f. fw_files f \<noteq> [] \<and> length (fw_files f) < 2 ^ 32) (w_folders w)"
    and "length (w_folders w) < 2 ^ 32"
proof -
  have "length (concat (map fw_files (w_folders w))) \<le> length (w_files w)"
    using assms(1) length_filter_le [of _ "[0..<length (w_files w)]"] by (simp add: tablesOk_def)
  then show small: "length (concat (map fw_files (w_folders w))) < 2 ^ 32" using assms(2) by simp
  have ne: "list_all folderTableOk (w_folders w)" using assms(1) by (simp add: tablesOk_def)
  have len: "length (fw_files f) \<le> length (concat (map fw_files fs))" if "f \<in> set fs" for f and fs :: "'a folderWriter list"
    using that by (induction fs) auto
  then show "list_all (\<lambda>f. fw_files f \<noteq> [] \<and> length (fw_files f) < 2 ^ 32) (w_folders w)"
    using ne small by (auto simp: list_all_iff folderTableOk_def dest!: len intro: le_less_trans)
  have "length fs \<le> length (concat (map fw_files fs))" if "list_all folderTableOk fs" for fs :: "'a folderWriter list"
    using that
  proof (induction fs)
    case (Cons f fs)
    then have "Suc 0 \<le> length (fw_files f)" by (simp add: folderTableOk_def Suc_le_eq)
    with Cons show ?case by (simp del: length_concat)
  qed simp
  from this [OF ne] show "length (w_folders w) < 2 ^ 32" using small by simp
qed

definition builtStreams :: "'z writer \<Rightarrow> streamsInfo" where
  "builtStreams w = the (hd_streamsInfo (buildHeader w))"

lemma builtStreams_eq:
  assumes "w_files w \<noteq> []"
  shows "buildHeader w = \<lparr>hd_streamsInfo = Some (builtStreams w),
      hd_filesInfo = Some \<lparr>fi_file = map fl_fh (w_files w)\<rparr>\<rparr>"
    and "builtStreams w = \<lparr>si_packInfo = Some \<lparr>pi_position = 0, pi_streams = of_nat (length (w_folders w)),
                     pi_size = map fw_compCount (w_folders w), pi_digest = []\<rparr>,
      si_unpackInfo = Some \<lparr>ui_folder = map (folderOf (w_files w)) (w_folders w), ui_digest = []\<rparr>,
      si_subStreamsInfo = Some \<lparr>ss_streams = map (\<lambda>f. of_nat (length (fw_files f))) (w_folders w),
                     ss_size = fileSizes (w_files w) (w_folders w),
                     ss_digest = concat (map (\<lambda>f. map (\<lambda>i. fl_crc32 (w_files w ! i)) (fw_files f))
                                           (w_folders w))\<rparr>\<rparr>"
  using assms by (simp_all add: buildHeader_def builtStreams_def Let_def)

lemma length_concat_files:
  "length (concat (map (\<lambda>f. map g (fw_files f)) fs)) = length (concat (map fw_files fs))"
  by (induction fs) simp_all

lemma okStreamsInfo_built:
  assumes ok: "tablesOk w" and small: "length (w_files w) < 2 ^ 32" and data: "w_folders w \<noteq> []"
    and ne: "w_files w \<noteq> []"
  shows "okStreamsInfo (builtStreams w)"
proof -
  note counts = tablesOk_counts [OF ok small]
  have lens: "list_all (\<lambda>f. length (fw_files f) < 2 ^ 32) (w_folders w)"
    using counts(2) by (simp add: list_all_iff)
  have "okPackInfo \<lparr>pi_position = 0, pi_streams = of_nat (length (w_folders w)),
      pi_size = map fw_compCount (w_folders w), pi_digest = []\<rparr>"
    using checkUint64_of_nat [of "length (w_folders w)" True] counts(3) data by (simp add: okPackInfo_def)
  moreover have "okUnpackInfo \<lparr>ui_folder = map (folderOf (w_files w)) (w_folders w), ui_digest = []\<rparr>"
    using ok counts(3) data by (simp add: okUnpackInfo_def tablesOk_def list_all_iff okFolder_folderOf)
  moreover have "okSubStreamsInfo (map (folderOf (w_files w)) (w_folders w))
     \<lparr>ss_streams = map (\<lambda>f. of_nat (length (fw_files f))) (w_folders w),
      ss_size = fileSizes (w_files w) (w_folders w),
      ss_digest = concat (map (\<lambda>f. map (\<lambda>i. fl_crc32 (w_files w ! i)) (fw_files f)) (w_folders w))\<rparr>"
    using data counts(1) sizesFit_folders [OF counts(2)]
    by (simp add: okSubStreamsInfo_def sum_folder_lengths [OF lens] length_concat_files)
  ultimately show ?thesis
    by (simp add: builtStreams_eq(2) [OF ne] okStreamsInfo_def)
qed

section \<open>Every file gets its own size and checksum\<close>

lemma map_concat_files: "concat (map (\<lambda>f. map g (fw_files f)) fs) = map g (concat (map fw_files fs))"
  by (induction fs) simp_all

abbreviation dataFiles :: "'z writer \<Rightarrow> nat list" where
  "dataFiles w \<equiv> concat (map fw_files (w_folders w))"

lemma map_unat_streams:
  "list_all (\<lambda>f. length (fw_files f) < 2 ^ 32) fs \<Longrightarrow>
   map (unat \<circ> (\<lambda>f. of_nat (length (fw_files f)) :: u64)) fs = map length (map fw_files fs)"
  by (induction fs) (simp_all add: checkUint64_of_nat(2) [of _ False])

lemma hasSubSizes_big:
  assumes "j < length (ss_streams s)" and "ss_streams s ! j \<noteq> 0" and "ss_streams s ! j \<noteq> 1"
  shows "hasSubSizes s"
  using assms word_gt_1 [of "ss_streams s ! j"] by (auto simp: hasSubSizes_def list_ex_iff)

definition builtOk :: "'z writer \<Rightarrow> bool" where
  "builtOk w \<longleftrightarrow>
     tablesOk w \<and> length (w_files w) < 2 ^ 32 \<and> w_folders w \<noteq> [] \<and> w_files w \<noteq> []"

lemma built_lens: "builtOk w \<Longrightarrow> list_all (\<lambda>f. length (fw_files f) < 2 ^ 32) (w_folders w)"
  using tablesOk_counts(2) [of w] by (simp add: list_all_iff builtOk_def)

lemma built_streams_unat:
  "builtOk w \<Longrightarrow>
   map unat (map (\<lambda>f. of_nat (length (fw_files f)) :: u64) (w_folders w)) = map length (map fw_files (w_folders w))"
  using map_unat_streams [OF built_lens] by simp

lemma fileCount_built:
  "builtOk w \<Longrightarrow> fileCount (normStreamsInfo (builtStreams w)) = length (dataFiles w)"
  using sum_folder_lengths [OF built_lens]
  by (simp add: builtOk_def fileCount_def normStreamsInfo_def builtStreams_eq(2) normSubStreams_def)

lemma okLookup_built:
  assumes ok: "builtOk w"
  shows "okLookup (normStreamsInfo (builtStreams w))"
proof -
  have "tablesOk w" "length (w_files w) < 2 ^ 32" "w_files w \<noteq> []" using ok by (simp_all add: builtOk_def)
  then show ?thesis
    using tablesOk_counts(1) [of w] sum_folder_lengths [OF built_lens [OF ok]]
    by (auto simp: okLookup_def normStreamsInfo_def builtStreams_eq(2) normSubStreams_def hasSubSizes_def
        list_all_iff okFolderSizes_folderOf map_concat_files)
qed

lemma fileEntry_built:
  assumes ok: "builtOk w" and k: "k < length (dataFiles w)"
  shows "snd (fileEntry (normStreamsInfo (builtStreams w)) k)
    = (fl_uncompSize (w_files w ! (dataFiles w ! k)), fl_crc32 (w_files w ! (dataFiles w ! k)))"
proof -
  let ?fs = "w_folders w" and ?lens = "map length (map fw_files (w_folders w))"
  let ?ss = "\<lparr>ss_streams = map (\<lambda>f. of_nat (length (fw_files f))) ?fs, ss_size = fileSizes (w_files w) ?fs,
     ss_digest = concat (map (\<lambda>f. map (\<lambda>i. fl_crc32 (w_files w ! i)) (fw_files f)) ?fs)\<rparr>"
  define j where "j = folderOfFiles 0 ?lens ! k"
  have loc: "j < length ?fs" "k - sum_list (take j ?lens) < length (fw_files (?fs ! j))"
      "dataFiles w ! k = fw_files (?fs ! j) ! (k - sum_list (take j ?lens))"
    using concat_nth_folder [OF k, of 0]
    by (auto simp only: Let_def j_def [symmetric] minus_nat.diff_0 length_map nth_map)
  have ne: "w_files w \<noteq> []" using ok by (simp add: builtOk_def)
  have j': "folderOfFiles 0 (map (unat \<circ> (\<lambda>f. of_nat (length (fw_files f)) :: u64)) ?fs) ! k = j"
    using built_streams_unat [OF ok] by (simp only: j_def map_map)
  have un: "unat (of_nat (length (fw_files (?fs ! j))) :: u64) = length (fw_files (?fs ! j))"
    using built_lens [OF ok] loc(1) by (simp add: list_all_length checkUint64_of_nat(2) [of _ False])
  have pos: "(of_nat (length (fw_files (?fs ! j))) :: u64) \<noteq> 0"
    using un loc(2) by (auto simp: unat_eq_zero [symmetric])
  have dd: "ss_digest ?ss = map (\<lambda>i. fl_crc32 (w_files w ! i)) (dataFiles w)"
    by (simp only: map_concat_files subStreamsInfo.select_convs)
  have dig: "ss_digest ?ss ! k = fl_crc32 (w_files w ! (dataFiles w ! k))" "ss_digest ?ss \<noteq> []"
    using k unfolding dd by (simp_all only: nth_map) (metis length_map less_nat_zero_code list.size(3))
  show ?thesis
  proof (cases "(of_nat (length (fw_files (?fs ! j))) :: u64) = 1")
    case True
    then have "length (fw_files (?fs ! j)) = 1" using un by simp
    then obtain i where "fw_files (?fs ! j) = [i]" by (auto simp: length_Suc_conv)
    then have "totalOf (w_files w) (?fs ! j) = fl_uncompSize (w_files w ! (dataFiles w ! k))"
      using loc by (simp add: totalOf_def)
    with True dig loc(1) show ?thesis
      by (auto simp: fileEntry_def normStreamsInfo_def builtStreams_eq(2) [OF ne] normSubStreams_def
          j' Let_def last_size_folderOf [unfolded One_nat_def])
  next
    case False
    then have "hasSubSizes ?ss" using hasSubSizes_big [of j ?ss] loc(1) pos by simp
    with False dig loc(1) k show ?thesis
      by (simp add: fileEntry_def normStreamsInfo_def builtStreams_eq(2) [OF ne] normSubStreams_def
          j' Let_def) (auto simp: map_concat_files)
  qed
qed

lemma zipSizes_stored:
  "zipSizes (map (\<lambda>fi. (fl_uncompSize fi, fl_crc32 fi)) (filter hasData fis)) (map (parsedFile \<circ> fl_fh) fis)
   = map storedFile fis"
  by (induction fis) (simp_all add: storedFile_def parsedFile_def)

lemma filter_indices:
  "map (\<lambda>i. g (xs ! i)) (filter (\<lambda>i. P (xs ! i)) [0..<length xs]) = map g (filter P xs)"
proof -
  have "map g (filter P (map ((!) xs) [0..<length xs])) = map (g \<circ> (!) xs) (filter (P \<circ> (!) xs) [0..<length xs])"
    by (simp add: filter_map)
  then show ?thesis by (simp add: map_nth comp_def)
qed

lemma streamEntries_built:
  assumes ok: "builtOk w"
  shows "streamEntries (normStreamsInfo (builtStreams w))
    = map (\<lambda>fi. (fl_uncompSize fi, fl_crc32 fi)) (filter hasData (w_files w))"
proof -
  have "streamEntries (normStreamsInfo (builtStreams w))
    = map (\<lambda>k. (fl_uncompSize (w_files w ! (dataFiles w ! k)), fl_crc32 (w_files w ! (dataFiles w ! k))))
        [0..<length (dataFiles w)]"
    using fileEntry_built [OF ok] unfolding streamEntries_def fileCount_built [OF ok] by simp
  also have "\<dots> = map (\<lambda>i. (fl_uncompSize (w_files w ! i), fl_crc32 (w_files w ! i))) (dataFiles w)"
    by (rule nth_equalityI) (simp_all del: length_concat)
  also have "\<dots> = map (\<lambda>fi. (fl_uncompSize fi, fl_crc32 fi)) (filter hasData (w_files w))"
  proof -
    have "dataFiles w = filter (\<lambda>i. hasData (w_files w ! i)) [0..<length (w_files w)]"
      using ok by (simp only: builtOk_def tablesOk_def)
    then show ?thesis
      by (simp only:) (rule filter_indices [where g = "\<lambda>fi :: fileInfo. (fl_uncompSize fi, fl_crc32 fi)"])
  qed
  finally show ?thesis .
qed

text \<open>What the format can carry: names and times.\<close>

definition storable :: "fileHeader \<Rightarrow> bool" where
  "storable fh \<longleftrightarrow> okName (fh_Name fh) \<and> okTime (fh_Created fh) \<and> okTime (fh_Accessed fh)
     \<and> okTime (fh_Modified fh)"

definition readBackHeader :: "'z writer \<Rightarrow> header" where
  "readBackHeader w =
     \<lparr>hd_streamsInfo = Some (normStreamsInfo (builtStreams w)),
      hd_filesInfo = Some \<lparr>fi_file = map storedFile (w_files w)\<rparr>\<rparr>"

lemma parsedHeader_built:
  assumes ok: "builtOk w"
  shows "parsedHeader (buildHeader w) = Inr (readBackHeader w)"
proof -
  let ?si = "normStreamsInfo (builtStreams w)"
  have ne: "w_files w \<noteq> []" using ok by (simp add: builtOk_def)
  have "length (filter (\<lambda>f. \<not> fh_isEmptyStream f) (map (parsedFile \<circ> fl_fh) (w_files w)))
      = length (filter hasData (w_files w))"
    by (simp add: filter_map parsedFile_def comp_def)
  also have "\<dots> = length (streamEntries ?si)" by (simp add: streamEntries_built [OF ok])
  also have "\<dots> = fileCount ?si" by (simp add: streamEntries_def)
  finally have "fillSizes ?si 0 (map (parsedFile \<circ> fl_fh) (w_files w))
      = Inr (zipSizes (streamEntries ?si) (map (parsedFile \<circ> fl_fh) (w_files w)))"
    using fillSizes_zip [OF okLookup_built [OF ok], of 0] by simp
  also have "\<dots> = Inr (map storedFile (w_files w))"
    by (simp add: streamEntries_built [OF ok] zipSizes_stored)
  finally show ?thesis
    by (simp add: parsedHeader_def builtStreams_eq(1) [OF ne] readBackHeader_def)
qed

lemma okHeader_built:
  assumes ok: "builtOk w" and names: "list_all (\<lambda>fi. storable (fl_fh fi)) (w_files w)"
  shows "okHeader (buildHeader w)"
proof -
  have *: "tablesOk w" "length (w_files w) < 2 ^ 32" "w_folders w \<noteq> []" "w_files w \<noteq> []"
    using ok by (simp_all add: builtOk_def)
  from okStreamsInfo_built [OF *] * names show ?thesis
    by (simp add: okHeader_def builtStreams_eq(1) okFiles_def list_all_iff storable_def)
qed

lemma writer_header_roundtrip:
  assumes "builtOk w" and "list_all (\<lambda>fi. storable (fl_fh fi)) (w_files w)"
    and "utf16_law (utf16Decode ext)" "filetime_law (filetimeNanoseconds ext)"
  shows "\<exists>bs. writeHeader (buildHeader w) = Inr bs
    \<and> (\<forall>r. readEncodedHeader ext (feed (idHeader # bs) r) = Inr (readBackHeader w, r))"
  using readHeader_write [OF okHeader_built [OF assms(1,2)] assms(3,4)] parsedHeader_built [OF assms(1)]
  by (auto simp: readEncodedHeader_def decode_simps)

section \<open>Archives without data\<close>

text \<open>No entries at all: an empty header, which reads back as such.\<close>

lemma empty_header:
  assumes "w_files w = []"
  shows "writeHeader (buildHeader w) = Inr [idEnd]"
    and "readEncodedHeader ext (feed [idHeader, idEnd] r)
      = Inr (\<lparr>hd_streamsInfo = None, hd_filesInfo = None\<rparr>, r)"
  using assms by (simp_all add: buildHeader_def writeHeader_def readEncodedHeader_def readHeader_def decode_simps)

text \<open>
  Only directories: the header says that there are zero packed streams, which the reader of
  the same package rejects.
\<close>

lemma readPackInfo_zero: "readPackInfo (feed (writeUint64 p @ writeUint64 0 @ bs) r) = Inl ErrUint64NonZero"
proof -
  have "readUint64Bounded True (feed (writeUint64 0 @ bs) r) = Inl ErrUint64NonZero"
    by (simp add: readUint64Bounded_def varint.bind_enc checkUint64_def pcheck_def) (simp add: pfail_def)
  then show ?thesis by (simp add: readPackInfo_def varint.bind_enc pbind_Inl)
qed

lemma directories_unreadable:
  assumes "w_files w \<noteq> []" and "w_folders w = []"
  shows "\<exists>bs. writeHeader (buildHeader w) = Inr bs
    \<and> (\<forall>r. readEncodedHeader ext (feed (idHeader # bs) r) = Inl ErrUint64NonZero)"
proof -
  obtain rest where w: "writeHeader (buildHeader w) = Inr (idMainStreamsInfo # idPackInfo #
      writeUint64 0 @ writeUint64 0 @ rest)"
    using assms by (simp add: buildHeader_def writeHeader_def writeStreamsInfo_def writePackInfo_def
        writeUnpackInfo_def writeSubStreamsInfo_def Let_def)
  have "readStreamsInfo (feed (idPackInfo # writeUint64 0 @ writeUint64 0 @ rest) r) = Inl ErrUint64NonZero" for r
    using readPackInfo_zero [of 0 rest r]
    by (simp add: readStreamsInfo_def decode_simps optSection_def pSome_def pbind_Inl)
  then have "readEncodedHeader ext (feed (idHeader # idMainStreamsInfo # idPackInfo #
      writeUint64 0 @ writeUint64 0 @ rest) r) = Inl ErrUint64NonZero" for r
    by (simp add: readEncodedHeader_def readHeader_def decode_simps optSection_def pSome_def pbind_Inl)
  with w show ?thesis by blast
qed

section \<open>Properties\<close>

text \<open>
C17: A writer that has only directories (or no data at all but entries) finishes with a header
that says there are no packed streams, and the reader of the same package rejects every such
header: an archive of directories cannot be opened.
\<close>

theorem directory_archive_unreadable:
  assumes "w_files w \<noteq> []" and "w_folders w = []"
  shows "\<exists>bs. writeHeader (buildHeader w) = Inr bs
    \<and> (\<forall>r. readEncodedHeader ext (feed (idHeader # bs) r) = Inl ErrUint64NonZero)"
  using assms by (rule directories_unreadable)

theorem directory_archive_unreadable_witness:
  "\<exists>w bs. Create plainEnv (newWriter \<lparr>sk_data = [], sk_pos = 0\<rparr> False [] 0) [0x61, 0x2f] [] [] = Inr w
    \<and> writeHeader (buildHeader w) = Inr bs
    \<and> readEncodedHeader plainExternals (newBytesReader (idHeader # bs)) = Inl ErrUint64NonZero"
proof -
  let ?w = "newWriter \<lparr>sk_data = [], sk_pos = 0\<rparr> False [] 0 :: unit writer"
  have "modeIsDir (Mode (zeroFileHeader\<lparr>fh_Name := [0x61, 0x2f]\<rparr>))" by code_simp
  then have "\<exists>w. Create plainEnv ?w [0x61, 0x2f] [] [] = Inr w \<and> w_files w \<noteq> [] \<and> w_folders w = []"
    by (simp add: Create_def CreateHeader_def newWriter_def addFileWriter_def Let_def)
  then obtain w where w: "Create plainEnv ?w [0x61, 0x2f] [] [] = Inr w" "w_files w \<noteq> []" "w_folders w = []"
    by blast
  from directory_archive_unreadable [OF w(2,3), of plainExternals] obtain bs where
    "writeHeader (buildHeader w) = Inr bs"
    "readEncodedHeader plainExternals (feed (idHeader # bs) (newBytesReader [])) = Inl ErrUint64NonZero" by blast
  with w(1) show ?thesis by (metis newBytesReader_feed)
qed

end
