(* ===== verification/Writer_Invariant.thy ===== *)
theory Writer_Invariant
  imports Writer_Header
begin

unbundle bit_operations_syntax

text \<open>
  What every run of the writer keeps. A run is a sequence of the calls a client can make
  (create, write, close a file) and of turns of the coordinator; beside the state it carries
  the abstract content of the archive, the bytes written to each entry. The invariant ties
  the tables of the writer to that content in all modes: solid, one folder per file, and
  concurrent.
\<close>

section \<open>What folder operations leave alone\<close>

definition folderShape :: "'z folderWriter \<Rightarrow> nat list \<times> bool \<times> byte list \<times> nat" where
  "folderShape f = (fw_files f, fw_isEncrypted f, fw_aesProps f, fw_seq f)"

definition sameTables :: "'z writer \<Rightarrow> 'z writer \<Rightarrow> bool" where
  "sameTables w w' \<longleftrightarrow>
     w_files w' = w_files w \<and> w_fileWriters w' = w_fileWriters w
     \<and> map folderShape (w_folders w') = map folderShape (w_folders w)
     \<and> w_current w' = w_current w \<and> w_activeFold w' = w_activeFold w \<and> w_solid w' = w_solid w
     \<and> w_password w' = w_password w \<and> w_concurrency w' = w_concurrency w
     \<and> w_closed w' = w_closed w \<and> w_spoolsClosed w' = w_spoolsClosed w"

lemma sameTables_refl [simp]: "sameTables w w"
  by (simp add: sameTables_def)

lemma sameTables_trans: "sameTables w1 w2 \<Longrightarrow> sameTables w2 w3 \<Longrightarrow> sameTables w1 w3"
  by (simp add: sameTables_def)

lemma sameTables_length: "sameTables w w' \<Longrightarrow> length (w_folders w') = length (w_folders w)"
  by (metis length_map sameTables_def)

lemma folderEmit_shape: "folderShape (fst (folderEmit c f bs)) = folderShape f"
  by (simp add: folderEmit_def folderShape_def split_beta Let_def split: option.split)

lemma folderShape_update:
  "folderShape f = folderShape (w_folders w ! k) \<Longrightarrow>
   map folderShape ((w_folders w)[k := f]) = map folderShape (w_folders w)"
  by (metis list_update_id map_update)

lemma sinkWrite_same:
  "folderShape f = folderShape (w_folders w ! k) \<Longrightarrow> sameTables w (sinkWrite w k f out)"
  by (cases "fw_spool f")
    (simp_all add: sinkWrite_def sameTables_def folderShape_update folderShape_def [of "_\<lparr>fw_spool := _\<rparr>"],
     simp add: folderShape_update folderShape_def)

lemma folderWrite_same: "sameTables w (folderWrite en w k p)"
  unfolding folderWrite_def Let_def split_beta
  by (rule sinkWrite_same) (simp add: folderEmit_shape, simp add: folderShape_def)

lemma folderClose_same: "sameTables w (folderClose en w k)"
proof (cases "fw_closed (w_folders w ! k)")
  case False
  let ?e = "folderEmit (en_crypto en) ((w_folders w ! k)\<lparr>fw_closed := True\<rparr>)
      (lzClose (en_lzma en) (fw_compressor (w_folders w ! k)))"
  have "folderShape (fst ?e) = folderShape (w_folders w ! k)"
    by (simp add: folderEmit_shape) (simp add: folderShape_def)
  then have "folderShape (f\<lparr>fw_aesW := a, fw_compCount := n\<rparr>) = folderShape (w_folders w ! k)"
    if "f = fst ?e" for f a n
    using that by (simp add: folderShape_def)
  with \<open>folderShape (fst ?e) = _\<close> False show ?thesis
    unfolding folderClose_def Let_def split_beta
    by (auto intro!: sinkWrite_same split: option.split)
qed (simp add: folderClose_def)

lemma coordFlush_same: "sameTables w (coordFlush w)"
proof (induction w rule: coordFlush.induct)
  case (1 w)
  show ?case
  proof (cases "map_of (w_folderMap w) (w_writeSeq w)")
    case None
    then show ?thesis by (subst coordFlush.simps) simp
  next
    case (Some k)
    have "sameTables w (w\<lparr>w_w := s, w_folderMap := m, w_writeSeq := n\<rparr>)" for s m n
      by (simp add: sameTables_def)
    with 1 [OF Some] Some show ?thesis
      by (subst coordFlush.simps) (simp, blast intro: sameTables_trans)
  qed
qed

lemma coordStep_same: "sameTables w (coordStep w)"
proof (cases "w_spools w")
  case (Cons k ks)
  have "sameTables w (w\<lparr>w_spools := ks, w_folderMap := m\<rparr>)" for m
    by (simp add: sameTables_def)
  with Cons show ?thesis
    by (simp add: coordStep_def) (blast intro: sameTables_trans coordFlush_same)
qed (simp add: coordStep_def)

lemma coordDrain_same: "sameTables w (coordDrain w)"
proof (induction w rule: coordDrain.induct)
  case (1 w)
  then show ?case
    by (subst coordDrain.simps) (auto intro: sameTables_trans coordStep_same)
qed

section \<open>The invariant\<close>

definition sequential :: "'z writer \<Rightarrow> bool" where
  "sequential w \<longleftrightarrow> w_solid w \<or> w_concurrency w \<le> 1"

text \<open>One entry: its file writer, its record and its content.\<close>

definition entryOk :: "nat \<Rightarrow> nat \<Rightarrow> fileWriter \<Rightarrow> fileInfo \<Rightarrow> byte list \<Rightarrow> bool" where
  "entryOk folders i fw fi c \<longleftrightarrow>
     fr_fi fw = i \<and> fr_crc32Hash fw = checksumIEEE c \<and> fr_uncompSize fw = of_nat (length c)
     \<and> (fr_closed fw \<longrightarrow> fl_uncompSize fi = of_nat (length c) \<and> fl_crc32 fi = checksumIEEE c)
     \<and> (case fr_fold fw of None \<Rightarrow> \<not> hasData fi | Some k \<Rightarrow> hasData fi \<and> k < folders)"

definition writerInv :: "'z writer \<Rightarrow> byte list list \<Rightarrow> bool" where
  "writerInv w cs \<longleftrightarrow>
     tablesOk w
     \<and> length (w_fileWriters w) = length cs \<and> length (w_files w) = length cs
     \<and> (\<forall>i<length cs. entryOk (length (w_folders w)) i (w_fileWriters w ! i) (w_files w ! i) (cs ! i))
     \<and> w_current w = (if cs = [] then None else Some (length cs - 1))
     \<and> w_activeFold w = (if w_folders w = [] then None else Some (length (w_folders w) - 1))
     \<and> (sequential w \<longrightarrow> (\<forall>i<length cs - 1. fr_closed (w_fileWriters w ! i)))"

lemma tablesOk_same: "sameTables w w' \<Longrightarrow> tablesOk w \<Longrightarrow> tablesOk w'"
proof -
  assume same: "sameTables w w'" and ok: "tablesOk w"
  have shape: "map folderShape (w_folders w') = map folderShape (w_folders w)"
    using same by (simp add: sameTables_def)
  then have "map fst (map folderShape (w_folders w')) = map fst (map folderShape (w_folders w))"
    by (rule arg_cong)
  then have files: "map fw_files (w_folders w') = map fw_files (w_folders w)"
    by (simp add: comp_def folderShape_def)
  have "list_all folderTableOk fs \<longleftrightarrow> list_all (\<lambda>(a, b, c, d). a \<noteq> [] \<and> (b \<longrightarrow> length c = 26)) (map folderShape fs)"
    for fs :: "'a folderWriter list"
    by (simp add: list_all_iff folderTableOk_def folderShape_def)
  with shape ok same files show ?thesis
    unfolding tablesOk_def sameTables_def by metis
qed

lemma writerInv_same: "sameTables w w' \<Longrightarrow> writerInv w cs \<Longrightarrow> writerInv w' cs"
proof -
  assume same: "sameTables w w'" and inv: "writerInv w cs"
  have "length (w_folders w') = length (w_folders w)" using same by (rule sameTables_length)
  moreover from this have "w_folders w' = [] \<longleftrightarrow> w_folders w = []" by auto
  moreover have "tablesOk w'" using tablesOk_same [OF same] inv by (simp add: writerInv_def)
  ultimately show ?thesis
    using same inv unfolding writerInv_def sameTables_def sequential_def by (auto split: option.splits)
qed

lemma newWriter_inv: "writerInv (newWriter s solid password concurrency) []"
  by (simp add: writerInv_def newWriter_def tablesOk_def)

lemma fileWrite_inv:
  assumes inv: "writerInv w cs" and i: "i < length cs" and w': "fileWrite en w i p = Inr w'"
  shows "writerInv w' (cs[i := cs ! i @ p])"
proof -
  let ?fw = "w_fileWriters w ! i"
  define w1 where "w1 = (case fr_fold ?fw of None \<Rightarrow> w | Some k \<Rightarrow> folderWrite en w k p)"
  have "sameTables w w1" by (auto simp: w1_def folderWrite_same split: option.split)
  then have inv1: "writerInv w1 cs" and fw1: "w_fileWriters w1 = w_fileWriters w"
    using writerInv_same inv by (blast, simp add: sameTables_def)
  have open': "\<not> fr_closed ?fw"
    using w' by (auto simp: fileWrite_def Let_def split: if_splits)
  define fw' where "fw' = (if 0 < length p
      then ?fw\<lparr>fr_crc32Hash := crc32Update (fr_crc32Hash ?fw) p,
              fr_uncompSize := fr_uncompSize ?fw + of_nat (length p)\<rparr> else ?fw)"
  have eq: "w' = w1\<lparr>w_fileWriters := (w_fileWriters w1)[i := fw']\<rparr>"
    using w' open' by (simp add: fileWrite_def Let_def w1_def fw'_def)
  have "entryOk (length (w_folders w1)) i ?fw (w_files w1 ! i) (cs ! i)"
    using inv1 i fw1 by (simp add: writerInv_def)
  then have "entryOk (length (w_folders w1)) i fw' (w_files w1 ! i) (cs ! i @ p)"
    using open' by (auto simp: entryOk_def fw'_def checksum_append)
  then show ?thesis
    using inv1 i open' fw1
    by (force simp: eq writerInv_def tablesOk_def sequential_def nth_list_update)
qed

lemma tablesOk_files:
  assumes "tablesOk w" and "i < length (w_files w)"
    and "fh_isEmptyStream (fl_fh fi) = fh_isEmptyStream (fl_fh (w_files w ! i))"
    and "fh_isEmptyFile (fl_fh fi) = fh_isEmptyFile (fl_fh (w_files w ! i))"
  shows "tablesOk (w\<lparr>w_files := (w_files w)[i := fi]\<rparr>)"
proof -
  have "fh_isEmptyStream (fl_fh ((w_files w)[i := fi] ! j)) = fh_isEmptyStream (fl_fh (w_files w ! j))" for j
    using assms(2,3) by (cases "j = i") auto
  moreover have "list_all (\<lambda>fi. \<not> fh_isEmptyFile (fl_fh fi)) ((w_files w)[i := fi])"
    using assms by (auto simp: tablesOk_def list_all_length nth_list_update)
  ultimately show ?thesis using assms(1) by (simp add: tablesOk_def)
qed

lemma fileClose_inv:
  assumes inv: "writerInv w cs" and i: "i < length cs" and w': "fileClose en w i = Inr w'"
  shows "writerInv w' cs \<and> fr_closed (w_fileWriters w' ! i) \<and> w_solid w' = w_solid w
    \<and> w_concurrency w' = w_concurrency w \<and> w_closed w' = w_closed w
    \<and> w_activeFold w' = w_activeFold w \<and> w_current w' = w_current w
    \<and> length (w_folders w') = length (w_folders w) \<and> w_password w' = w_password w"
proof (cases "fr_closed (w_fileWriters w ! i)")
  case True
  then show ?thesis using inv w' by (auto simp: fileClose_def Let_def)
next
  case open': False
  let ?fw = "w_fileWriters w ! i" and ?fi = "w_files w ! i"
  have e: "entryOk (length (w_folders w)) i ?fw ?fi (cs ! i)"
    using inv i by (simp add: writerInv_def)
  define fi' where "fi' = ?fi\<lparr>fl_uncompSize := fr_uncompSize ?fw, fl_crc32 := fr_crc32Hash ?fw,
      fl_fh := (fl_fh ?fi)\<lparr>fh_UncompressedSize := fr_uncompSize ?fw, fh_CRC32 := fr_crc32Hash ?fw\<rparr>\<rparr>"
  define w0 where "w0 = w\<lparr>w_files := (w_files w)[i := fi']\<rparr>"
  define w1 where "w1 = w0\<lparr>w_fileWriters := (w_fileWriters w)[i := ?fw\<lparr>fr_closed := True\<rparr>]\<rparr>"
  have "tablesOk w0"
    using inv i by (auto simp: w0_def writerInv_def fi'_def intro: tablesOk_files)
  then have "tablesOk w1" by (simp add: w1_def tablesOk_def)
  moreover have "entryOk (length (w_folders w)) i (?fw\<lparr>fr_closed := True\<rparr>) fi' (cs ! i)"
    using e by (auto simp: entryOk_def fi'_def split: option.splits)
  ultimately have inv1: "writerInv w1 cs"
    using inv i by (force simp: w1_def w0_def writerInv_def sequential_def nth_list_update)
  define u where "u = w\<lparr>w_fileWriters := (w_fileWriters w)[i := ?fw\<lparr>fr_closed := True\<rparr>]\<rparr>"
  define m where "m = (case fr_fold ?fw of
                 Some k \<Rightarrow>
                   if w_solid u then Inr u
                   else
                     let w = folderClose en u k in
                     if 1 < w_concurrency w then
                       if w_spoolsClosed w then Inl WriterPanic
                       else Inr (w\<lparr>w_spools := w_spools w @ [k]\<rparr>)
                     else Inr w
               | None \<Rightarrow> Inr u)"
  obtain v where v: "m = Inr v" and w'v: "w' = v\<lparr>w_files := (w_files v)[fr_fi ?fw := (w_files v ! fr_fi ?fw)
      \<lparr>fl_uncompSize := fr_uncompSize ?fw, fl_crc32 := fr_crc32Hash ?fw,
       fl_fh := (fl_fh (w_files v ! fr_fi ?fw))\<lparr>fh_UncompressedSize := fr_uncompSize ?fw,
         fh_CRC32 := fr_crc32Hash ?fw\<rparr>\<rparr>]\<rparr>"
    using w' open' unfolding fileClose_def Let_def m_def u_def by (auto split: sum.splits)
  have sp: "sameTables x (x\<lparr>w_spools := l\<rparr>)" for x :: "'a writer" and l
    by (simp add: sameTables_def)
  have "sameTables u v"
    using v sameTables_trans [OF folderClose_same sp]
    by (auto simp: m_def Let_def folderClose_same split: option.splits if_splits)
  then have uv: "w_files v = w_files w" "sameTables w1 w'"
    using e by (auto simp: sameTables_def u_def w1_def w0_def w'v fi'_def entryOk_def)
  have "fr_closed (w_fileWriters w1 ! i)"
    using inv i by (simp add: w1_def writerInv_def)
  with writerInv_same [OF uv(2) inv1] uv(2) sameTables_length [OF uv(2)] show ?thesis
    by (simp add: sameTables_def w1_def w0_def)
qed

text \<open>Closing a file reopens no other.\<close>

lemma fileClose_closed:
  assumes w': "fileClose en w i = Inr w'" and j: "fr_closed (w_fileWriters w ! j)"
  shows "fr_closed (w_fileWriters w' ! j)"
proof -
  define u where "u = w\<lparr>w_fileWriters := (w_fileWriters w)[i := (w_fileWriters w ! i)\<lparr>fr_closed := True\<rparr>]\<rparr>"
  have u: "fr_closed (w_fileWriters u ! j)"
    using j by (cases "i < length (w_fileWriters w)") (auto simp: u_def nth_list_update list_update_beyond)
  have keep: "w_fileWriters (folderClose en u k) = w_fileWriters u" for k
    using folderClose_same [of u en k] by (simp add: sameTables_def)
  show ?thesis
    using w' j u keep unfolding fileClose_def Let_def u_def
    by (auto split: if_splits option.splits sum.splits)
qed

section \<open>Adding an entry\<close>

lemma newFolderWriter_table:
  assumes "length salt = 8" and "length iv = 16"
  shows "fw_files (newFolderWriter en w fi d salt iv) = []"
    and "fw_isEncrypted (newFolderWriter en w fi d salt iv)
      \<longrightarrow> length (fw_aesProps (newFolderWriter en w fi d salt iv)) = 26"
  using assms by (simp_all add: newFolderWriter_def Let_def aesProps_def)

text \<open>The tables apart from the folders.\<close>

definition sameEntries :: "'z writer \<Rightarrow> 'z writer \<Rightarrow> bool" where
  "sameEntries w w' \<longleftrightarrow>
     w_files w' = w_files w \<and> w_fileWriters w' = w_fileWriters w \<and> w_current w' = w_current w
     \<and> w_solid w' = w_solid w \<and> w_concurrency w' = w_concurrency w \<and> w_closed w' = w_closed w
     \<and> w_password w' = w_password w"

lemma folders_same:
  assumes "sameTables w w'"
  shows "map fw_files (w_folders w') = map fw_files (w_folders w)"
    and "list_all folderTableOk (w_folders w') = list_all folderTableOk (w_folders w)"
proof -
  have shape: "map folderShape (w_folders w') = map folderShape (w_folders w)"
    using assms by (simp add: sameTables_def)
  then have "map fst (map folderShape (w_folders w')) = map fst (map folderShape (w_folders w))"
    by (rule arg_cong)
  then show "map fw_files (w_folders w') = map fw_files (w_folders w)"
    by (simp add: comp_def folderShape_def)
  have "list_all folderTableOk fs \<longleftrightarrow> list_all (\<lambda>(a, b, c, d). a \<noteq> [] \<and> (b \<longrightarrow> length c = 26)) (map folderShape fs)"
    for fs :: "'a folderWriter list"
    by (simp add: list_all_iff folderTableOk_def folderShape_def)
  with shape show "list_all folderTableOk (w_folders w') = list_all folderTableOk (w_folders w)"
    by metis
qed

lemma ensureFolder_tables:
  assumes tables: "list_all folderTableOk (w_folders w)"
    and active: "w_activeFold w = (if w_folders w = [] then None else Some (length (w_folders w) - 1))"
    and salts: "length salt = 8" "length iv = 16"
  shows "\<exists>gs h. w_folders (snd (ensureFolder en w fi d salt iv)) = gs @ [h]
    \<and> fst (ensureFolder en w fi d salt iv) = length gs
    \<and> concat (map fw_files gs) @ fw_files h = concat (map fw_files (w_folders w))
    \<and> list_all folderTableOk gs \<and> (fw_isEncrypted h \<longrightarrow> length (fw_aesProps h) = 26)
    \<and> length (w_folders w) \<le> Suc (length gs)
    \<and> sameEntries w (snd (ensureFolder en w fi d salt iv))
    \<and> w_activeFold (snd (ensureFolder en w fi d salt iv)) = Some (length gs)"
proof (cases "w_folders w = []")
  case True
  then show ?thesis
    using active newFolderWriter_table [OF salts, of en w fi d]
    by (simp add: ensureFolder_def sameEntries_def)
next
  case False
  then have a: "w_activeFold w = Some (length (w_folders w) - 1)" using active by simp
  show ?thesis
  proof (cases "w_solid w")
    case True
    obtain gs h where "w_folders w = gs @ [h]" using False by (cases "w_folders w" rule: rev_cases) auto
    with True a tables show ?thesis
      by (simp add: ensureFolder_def sameEntries_def folderTableOk_def)
  next
    case nonsolid: False
    define w1 where "w1 = (if w_concurrency w \<le> 1 then folderClose en w (length (w_folders w) - 1) else w)"
    have same: "sameTables w w1" by (simp add: w1_def folderClose_same)
    have e: "ensureFolder en w fi d salt iv = (length (w_folders w1),
        w1\<lparr>w_activeFold := Some (length (w_folders w1)),
           w_folders := w_folders w1 @ [newFolderWriter en w1 fi d salt iv]\<rparr>)"
      using a nonsolid by (simp add: ensureFolder_def w1_def Let_def)
    show ?thesis
      using newFolderWriter_table [OF salts, of en w1 fi d] folders_same [OF same] tables
        sameTables_length [OF same] same
      by (intro exI [of _ "w_folders w1"] exI [of _ "newFolderWriter en w1 fi d salt iv"])
        (simp add: e sameEntries_def sameTables_def)
  qed
qed

lemma tablesOk_append:
  assumes ok: "tablesOk w" and nofile: "\<not> fh_isEmptyFile (fl_fh fi)"
    and fs: "list_all folderTableOk fs"
    and files: "concat (map fw_files fs) = dataFiles w @ (if hasData fi then [length (w_files w)] else [])"
    and w': "w_files w' = w_files w @ [fi]" "w_folders w' = fs"
  shows "tablesOk w'"
proof -
  have "filter (\<lambda>i. hasData ((w_files w @ [fi]) ! i)) [0..<length (w_files w)]
      = filter (\<lambda>i. hasData (w_files w ! i)) [0..<length (w_files w)]"
    by (rule filter_cong) (simp_all add: nth_append)
  with assms show ?thesis by (simp add: tablesOk_def)
qed

lemma entries_append:
  assumes old: "\<forall>i<length cs. entryOk n i (fws ! i) (fis ! i) (cs ! i)"
    and len: "length fws = length cs" "length fis = length cs" and le: "n \<le> m"
    and new: "entryOk m (length cs) fw fi []"
  shows "\<forall>i<length (cs @ [[]]). entryOk m i ((fws @ [fw]) ! i) ((fis @ [fi]) ! i) ((cs @ [[]]) ! i)"
proof (intro allI impI)
  fix i assume "i < length (cs @ [[]])"
  then consider "i < length cs" | "i = length cs" by fastforce
  then show "entryOk m i ((fws @ [fw]) ! i) ((fis @ [fi]) ! i) ((cs @ [[]]) ! i)"
  proof cases
    case 1
    then have "entryOk n i (fws ! i) (fis ! i) (cs ! i)" using old by blast
    with 1 len le show ?thesis by (auto simp: nth_append entryOk_def split: option.splits)
  next
    case 2
    with new len show ?thesis by (simp add: nth_append)
  qed
qed

lemma checksum_Nil [simp]: "checksumIEEE [] = 0"
  by (simp add: checksumIEEE_def)

text \<open>\<open>CreateHeader\<close> first closes the current file, unless several may be open.\<close>

lemma current_closed:
  assumes inv: "writerInv w cs"
    and close: "(case w_current w of
                Some i \<Rightarrow> if w_solid w \<or> w_concurrency w \<le> 1 then fileClose en w i else Inr w
              | None \<Rightarrow> Inr w) = Inr w0"
  shows "writerInv w0 cs" and "sequential w0 \<Longrightarrow> \<forall>i<length cs. fr_closed (w_fileWriters w0 ! i)"
proof -
  have cur: "w_current w = (if cs = [] then None else Some (length cs - 1))"
    using inv by (simp add: writerInv_def)
  have inv0: "writerInv w0 cs"
    using close inv cur fileClose_inv [OF inv, of "length cs - 1" en w0]
    by (auto split: if_splits option.splits)
  show "writerInv w0 cs" by (rule inv0)
  show "\<forall>i<length cs. fr_closed (w_fileWriters w0 ! i)" if seq: "sequential w0"
  proof (intro allI impI)
    fix i assume i: "i < length cs"
    have "sequential w" using close cur seq fileClose_inv [OF inv, of "length cs - 1" en w0] i
      by (auto simp: sequential_def split: if_splits option.splits)
    then have "fr_closed (w_fileWriters w0 ! (length cs - 1))"
      using close cur i fileClose_inv [OF inv, of "length cs - 1" en w0]
      by (auto simp: sequential_def split: if_splits)
    moreover have "i < length cs - 1 \<or> i = length cs - 1" using i by arith
    ultimately show "fr_closed (w_fileWriters w0 ! i)"
      using inv0 seq by (auto simp: writerInv_def)
  qed
qed

lemma CreateHeader_inv:
  assumes inv: "writerInv w cs" and w': "CreateHeader en w fh salt iv = Inr w'"
    and salts: "length salt = 8" "length iv = 16"
  shows "writerInv w' (cs @ [[]])"
proof -
  obtain w0 where close: "(case w_current w of
                Some i \<Rightarrow> if w_solid w \<or> w_concurrency w \<le> 1 then fileClose en w i else Inr w
              | None \<Rightarrow> Inr w) = Inr w0"
    using w' by (auto simp: CreateHeader_def split: if_splits sum.splits)
  have inv0: "writerInv w0 cs" and all0: "sequential w0 \<Longrightarrow> \<forall>i<length cs. fr_closed (w_fileWriters w0 ! i)"
    using current_closed [OF inv close] by blast+
  define fh1 where "fh1 = fh\<lparr>fh_isEmptyStream := modeIsDir (Mode fh), fh_isEmptyFile := False\<rparr>"
  define d where "d = chooseDictCap en (w_solid w0) (fh_UncompressedSize fh1)"
  define fi where "fi = \<lparr>fl_fh = fh1, fl_propByte = encodeDictCap (en_lzma en) d, fl_uncompSize = 0, fl_crc32 = 0\<rparr>"
  define w1 where "w1 = w0\<lparr>w_files := w_files w0 @ [fi]\<rparr>"
  have nf: "\<not> fh_isEmptyFile (fl_fh fi)" by (simp add: fi_def fh1_def)
  have lens: "length (w_files w0) = length cs" "length (w_fileWriters w0) = length cs"
    and t0: "tablesOk w0"
    and old: "\<forall>i<length cs. entryOk (length (w_folders w0)) i (w_fileWriters w0 ! i) (w_files w0 ! i) (cs ! i)"
    using inv0 by (simp_all add: writerInv_def)
  show ?thesis
  proof (cases "fh_isEmptyStream fh1")
    case True
    then have e: "w' = addFileWriter w1 (length cs) None"
      using w' close lens
      by (simp add: CreateHeader_def Let_def fh1_def d_def fi_def w1_def split: if_splits)
    then have w'eq: "w_files w' = w_files w0 @ [fi]" "w_folders w' = w_folders w0"
        "w_fileWriters w' = w_fileWriters w0 @ [\<lparr>fr_fi = length cs, fr_crc32Hash = 0, fr_uncompSize = 0,
           fr_closed = False, fr_fold = None\<rparr>]"
        "w_current w' = Some (length cs)" "w_activeFold w' = w_activeFold w0" "sequential w' = sequential w0"
      using lens by (simp_all add: addFileWriter_def w1_def sequential_def)
    have "tablesOk w'"
      using True t0 w'eq by (intro tablesOk_append [OF t0 nf, of "w_folders w0"])
        (simp_all add: fi_def tablesOk_def)
    moreover have "\<forall>i<length (cs @ [[]]). entryOk (length (w_folders w0)) i (w_fileWriters w' ! i)
        (w_files w' ! i) ((cs @ [[]]) ! i)"
      using True lens unfolding w'eq
      by (intro entries_append [OF old]) (simp_all add: entryOk_def fi_def)
    ultimately show ?thesis
      using inv0 all0 lens by (simp add: writerInv_def w'eq nth_append)
  next
    case False
    have "list_all folderTableOk (w_folders w1)"
      "w_activeFold w1 = (if w_folders w1 = [] then None else Some (length (w_folders w1) - 1))"
      using inv0 by (simp_all add: w1_def writerInv_def tablesOk_def)
    from ensureFolder_tables [OF this salts, of en fi d]
    obtain gs h w2 where ens: "ensureFolder en w1 fi d salt iv = (length gs, w2)"
      and w2: "w_folders w2 = gs @ [h]" "concat (map fw_files gs) @ fw_files h = dataFiles w1"
        "list_all folderTableOk gs" "fw_isEncrypted h \<longrightarrow> length (fw_aesProps h) = 26"
        "length (w_folders w1) \<le> Suc (length gs)" "sameEntries w1 w2" "w_activeFold w2 = Some (length gs)"
      by (metis prod.collapse)
    define f where "f = h\<lparr>fw_files := fw_files h @ [length cs], fw_fileCount := fw_fileCount h + 1,
      fw_uncompSize := fw_uncompSize h + sint (fh_UncompressedSize fh1)\<rparr>"
    have e: "w' = addFileWriter (w2\<lparr>w_folders := gs @ [f]\<rparr>) (length cs) (Some (length gs))"
      using w' close lens False ens w2(1)
      by (simp add: CreateHeader_def Let_def fh1_def d_def fi_def w1_def f_def split: if_splits)
    then have w'eq: "w_files w' = w_files w0 @ [fi]" "w_folders w' = gs @ [f]"
        "w_fileWriters w' = w_fileWriters w0 @ [\<lparr>fr_fi = length cs, fr_crc32Hash = 0, fr_uncompSize = 0,
           fr_closed = False, fr_fold = Some (length gs)\<rparr>]"
        "w_current w' = Some (length cs)" "w_activeFold w' = Some (length gs)" "sequential w' = sequential w0"
      using lens w2 by (simp_all add: addFileWriter_def w1_def sequential_def sameEntries_def)
    have "tablesOk w'"
      using False w2(2-4) w'eq lens by (intro tablesOk_append [OF t0 nf, of "gs @ [f]"])
        (simp_all add: fi_def folderTableOk_def f_def w1_def)
    moreover have "\<forall>i<length (cs @ [[]]). entryOk (length (gs @ [f])) i (w_fileWriters w' ! i)
        (w_files w' ! i) ((cs @ [[]]) ! i)"
      using False lens w2(5) unfolding w'eq
      by (intro entries_append [OF old]) (simp_all add: entryOk_def fi_def w1_def)
    ultimately show ?thesis
      using all0 lens by (simp add: writerInv_def w'eq nth_append)
  qed
qed

section \<open>Runs\<close>

text \<open>
  The states a client can reach, with the bytes it has written to each entry. Salts and
  vectors have the lengths that \<open>generateRandomBytes\<close> is called with.
\<close>

inductive writerRun :: "'z env \<Rightarrow> 'z writer \<Rightarrow> 'z writer \<Rightarrow> byte list list \<Rightarrow> bool" for en w0 where
  start: "writerRun en w0 w0 []"
| create: "writerRun en w0 w cs \<Longrightarrow> length salt = 8 \<Longrightarrow> length iv = 16
    \<Longrightarrow> CreateHeader en w fh salt iv = Inr w' \<Longrightarrow> writerRun en w0 w' (cs @ [[]])"
| fwrite: "writerRun en w0 w cs \<Longrightarrow> i < length cs \<Longrightarrow> fileWrite en w i p = Inr w'
    \<Longrightarrow> writerRun en w0 w' (cs[i := cs ! i @ p])"
| fclose: "writerRun en w0 w cs \<Longrightarrow> i < length cs \<Longrightarrow> fileClose en w i = Inr w'
    \<Longrightarrow> writerRun en w0 w' cs"
| coord: "writerRun en w0 w cs \<Longrightarrow> writerRun en w0 (coordStep w) cs"

lemma writerRun_inv:
  assumes "writerRun en (newWriter s solid password concurrency) w cs"
  shows "writerInv w cs"
  using assms
proof induction
  case start
  then show ?case by (rule newWriter_inv)
next
  case (create w cs salt iv fh w')
  then show ?case by (blast intro: CreateHeader_inv)
next
  case (fwrite w cs i p w')
  then show ?case by (blast intro: fileWrite_inv)
next
  case (fclose w cs i w')
  then show ?case by (blast dest: fileClose_inv)
next
  case (coord w cs)
  then show ?case by (blast intro: writerInv_same coordStep_same)
qed

text \<open>
  After \<open>closeStreams\<close> every entry carries the length and the checksum of its content, provided
  the client closed every file but the last one it created; without concurrency it need not.
\<close>

definition entriesFinal :: "'z writer \<Rightarrow> byte list list \<Rightarrow> bool" where
  "entriesFinal w cs \<longleftrightarrow>
     tablesOk w \<and> length (w_files w) = length cs
     \<and> (\<forall>i<length cs. fl_uncompSize (w_files w ! i) = of_nat (length (cs ! i))
                     \<and> fl_crc32 (w_files w ! i) = checksumIEEE (cs ! i))"

lemma entriesFinal_same: "sameTables w w' \<Longrightarrow> entriesFinal w cs \<Longrightarrow> entriesFinal w' cs"
  using tablesOk_same [of w w'] by (simp add: entriesFinal_def) (simp add: sameTables_def)

lemma closeStreams_final:
  assumes inv: "writerInv w cs" and w': "closeStreams en (w\<lparr>w_closed := True\<rparr>) = Inr w'"
    and closed: "\<forall>i<length cs - 1. fr_closed (w_fileWriters w ! i)"
  shows "entriesFinal w' cs"
proof -
  let ?w = "w\<lparr>w_closed := True\<rparr>"
  have inv1: "writerInv ?w cs"
    using inv by (auto simp: writerInv_def sequential_def tablesOk_def)
  have cur: "w_current ?w = (if cs = [] then None else Some (length cs - 1))"
    using inv by (simp add: writerInv_def)
  obtain w1 where w1: "(case w_current ?w of Some i \<Rightarrow> fileClose en ?w i | None \<Rightarrow> Inr ?w) = Inr w1"
    using w' by (auto simp: closeStreams_def split: sum.splits)
  have fin: "entriesFinal w1 cs"
  proof (cases "cs = []")
    case True
    then have "w1 = ?w" using w1 cur by simp
    with True inv1 show ?thesis by (simp add: entriesFinal_def writerInv_def)
  next
    case False
    then have i: "length cs - 1 < length cs" and c: "fileClose en ?w (length cs - 1) = Inr w1"
      using w1 cur by simp_all
    have others: "\<forall>i<length cs - 1. fr_closed (w_fileWriters w1 ! i)"
      using closed fileClose_closed [OF c] by simp
    have inv2: "writerInv w1 cs" and "fr_closed (w_fileWriters w1 ! (length cs - 1))"
      using fileClose_inv [OF inv1 i c] by simp_all
    with others have "\<forall>i<length cs. fr_closed (w_fileWriters w1 ! i)"
      by (metis Suc_diff_1 False length_greater_0_conv less_SucE)
    with inv2 show ?thesis by (simp add: entriesFinal_def writerInv_def entryOk_def)
  qed
  define w2 where "w2 = (case w_activeFold w1 of
        Some k \<Rightarrow> if w_solid w1 then (folderClose en w1 k)\<lparr>w_activeFold := None\<rparr> else w1
      | None \<Rightarrow> w1)"
  have "entriesFinal (v\<lparr>w_activeFold := a\<rparr>) cs = entriesFinal v cs" "entriesFinal (v\<lparr>w_spoolsClosed := b\<rparr>) cs = entriesFinal v cs"
    for v :: "'a writer" and a b
    by (simp_all add: entriesFinal_def tablesOk_def)
  moreover have "w' = (if 1 < w_concurrency w2 \<and> \<not> w_solid w2 then coordDrain (w2\<lparr>w_spoolsClosed := True\<rparr>) else w2)"
    using w' unfolding closeStreams_def w1 sum.case Let_def w2_def [symmetric] by simp
  moreover have "entriesFinal w2 cs"
    using fin calculation(1) entriesFinal_same [OF folderClose_same fin]
    by (auto simp: w2_def split: option.split)
  ultimately show ?thesis
    using entriesFinal_same [OF coordDrain_same [of "w2\<lparr>w_spoolsClosed := True\<rparr>"], of cs] by auto
qed

text \<open>
  The header of a finished archive lists, in the order of creation, every entry with its name
  and the length and checksum of the bytes written to it.
\<close>

definition listing :: "fileHeader list \<Rightarrow> byte list list \<Rightarrow> bool" where
  "listing fs cs \<longleftrightarrow>
     length fs = length cs
     \<and> (\<forall>i<length cs. \<not> fh_isEmptyStream (fs ! i) \<longrightarrow>
           fh_UncompressedSize (fs ! i) = of_nat (length (cs ! i))
           \<and> fh_CRC32 (fs ! i) = checksumIEEE (cs ! i))"

lemma entriesFinal_listing:
  assumes "entriesFinal w cs"
  shows "listing (map storedFile (w_files w)) cs"
  using assms by (simp add: listing_def entriesFinal_def storedFile_def parsedFile_def)

lemma header_of_run:
  assumes run: "writerRun en (newWriter s solid password concurrency) w cs"
    and closed: "\<forall>i<length cs - 1. fr_closed (w_fileWriters w ! i)"
    and w': "closeStreams en (w\<lparr>w_closed := True\<rparr>) = Inr w'"
    and few: "length cs < 2 ^ 32" and data: "w_folders w' \<noteq> []"
    and names: "list_all (\<lambda>fi. storable (fl_fh fi)) (w_files w')"
    and laws: "utf16_law (utf16Decode ext)" "filetime_law (filetimeNanoseconds ext)"
  shows "\<exists>bs. writeHeader (buildHeader w') = Inr bs
    \<and> (\<forall>r. readEncodedHeader ext (feed (idHeader # bs) r) = Inr (readBackHeader w', r))
    \<and> listing (map storedFile (w_files w')) cs"
proof -
  have fin: "entriesFinal w' cs"
    using closeStreams_final [OF writerRun_inv [OF run] w' closed] .
  have "w_files w' \<noteq> []"
  proof
    assume none: "w_files w' = []"
    with fin have "concat (map fw_files (w_folders w')) = []" "list_all folderTableOk (w_folders w')"
      by (simp_all add: entriesFinal_def tablesOk_def)
    with data show False by (cases "w_folders w'") (simp_all add: folderTableOk_def)
  qed
  with fin few data have "builtOk w'" by (simp add: builtOk_def entriesFinal_def)
  from writer_header_roundtrip [OF this names laws] entriesFinal_listing [OF fin]
  show ?thesis by blast
qed

section \<open>Properties\<close>

text \<open>
C5: The tables of the writer stay consistent through every run of the writer, in solid,
sequential and concurrent mode: each entry belongs to exactly the folder its file writer has,
no folder is empty, the checksum and the count of every file writer are those of the bytes
written to the entry, the closed entries carry them, and without concurrency only the last
entry can be open.
\<close>

theorem writer_tables_invariant:
  assumes "writerRun en (newWriter s solid password concurrency) w cs"
  shows "writerInv w cs"
  using assms by (rule writerRun_inv)

text \<open>An example run: one entry with a byte, closed.\<close>

definition getOk :: "'e + 'z writer \<Rightarrow> 'z writer" where
  "getOk m = (case m of Inr w \<Rightarrow> w | Inl _ \<Rightarrow> newWriter \<lparr>sk_data = [], sk_pos = 0\<rparr> False [] 0)"

definition exampleRun :: "unit writer" where
  "exampleRun =
     (let w = newWriter \<lparr>sk_data = [], sk_pos = 0\<rparr> False [] 0;
          w = getOk (Create plainEnv w [0x61] (replicate 8 0) (replicate 16 0));
          w = getOk (fileWrite plainEnv w 0 [7])
      in getOk (fileClose plainEnv w 0))"

lemma getOk_ok: "(case m of Inr _ \<Rightarrow> True | Inl _ \<Rightarrow> False) \<Longrightarrow> m = Inr (getOk m)"
  by (simp add: getOk_def split: sum.splits)

lemma exampleRun_run:
  "writerRun plainEnv (newWriter \<lparr>sk_data = [], sk_pos = 0\<rparr> False [] 0) exampleRun [[7]]"
proof -
  define w0 :: "unit writer" where "w0 = newWriter \<lparr>sk_data = [], sk_pos = 0\<rparr> False [] 0"
  define w1 where "w1 = getOk (Create plainEnv w0 [0x61] (replicate 8 0) (replicate 16 0))"
  define w2 where "w2 = getOk (fileWrite plainEnv w1 0 [7])"
  note defs = w0_def w1_def w2_def
  have "Create plainEnv w0 [0x61] (replicate 8 0) (replicate 16 0) = Inr w1"
    unfolding w1_def by (rule getOk_ok, unfold defs, code_simp)
  then have r1: "writerRun plainEnv w0 w1 ([] @ [[]])"
    by (intro writerRun.create [OF writerRun.start]) (simp_all add: Create_def)
  have "fileWrite plainEnv w1 0 [7] = Inr w2"
    unfolding w2_def by (rule getOk_ok, unfold defs, code_simp)
  from writerRun.fwrite [OF r1 _ this] have r2: "writerRun plainEnv w0 w2 [[7]]" by simp
  have "fileClose plainEnv w2 0 = Inr exampleRun"
    unfolding exampleRun_def Let_def w0_def [symmetric] w1_def [symmetric] w2_def [symmetric]
    by (rule getOk_ok, unfold defs, code_simp)
  from writerRun.fclose [OF r2 _ this] show ?thesis by (simp add: w0_def)
qed

theorem writer_tables_invariant_witness:
  "writerInv exampleRun [[7]]"
  using writer_tables_invariant [OF exampleRun_run] .

text \<open>
C2: The header of a finished archive with at least one entry that is not a directory lists what
was written. (\<open>w_folders w' \<noteq> []\<close> says that there is such an entry: without one the package rejects
the header that it writes, see theory \<open>Writer_Header\<close>.) Take any run of a client over a new writer, in any mode, in which the
client has closed all files except perhaps the last, and close the streams; let there be fewer
than \<open>2 ^ 32\<close> entries, all of them storable, that is, with names in UTF-8 without a zero byte and shorter
than 64 KiB, and times that are zero or fit into 64 bits of nanoseconds. Then
the header is written, the package's own
reader reads it back, and it lists in the order of creation every entry with its name and
attributes and, for entries with data, the length and the CRC-32 of all bytes written to it.
The decoder of UTF-16 and the conversion of file times keep their laws.
\<close>

theorem archive_header_lists_contents:
  assumes "writerRun en (newWriter s solid password concurrency) w cs"
    and "\<forall>i<length cs - 1. fr_closed (w_fileWriters w ! i)"
    and "closeStreams en (w\<lparr>w_closed := True\<rparr>) = Inr w'"
    and "length cs < 2 ^ 32" and "w_folders w' \<noteq> []"
    and "list_all (\<lambda>fi. storable (fl_fh fi)) (w_files w')"
    and "utf16_law (utf16Decode ext)" and "filetime_law (filetimeNanoseconds ext)"
  shows "\<exists>bs. writeHeader (buildHeader w') = Inr bs
    \<and> (\<forall>r. readEncodedHeader ext (feed (idHeader # bs) r) = Inr (readBackHeader w', r))
    \<and> listing (map storedFile (w_files w')) cs"
  using assms by (rule header_of_run)

theorem archive_header_lists_contents_witness:
  "\<exists>w' bs. closeStreams plainEnv (exampleRun\<lparr>w_closed := True\<rparr>) = Inr w'
    \<and> writeHeader (buildHeader w') = Inr bs
    \<and> (\<forall>r. readEncodedHeader plainExternals (feed (idHeader # bs) r) = Inr (readBackHeader w', r))
    \<and> listing (map storedFile (w_files w')) [[7]]"
proof -
  define w' where "w' = getOk (closeStreams plainEnv (exampleRun\<lparr>w_closed := True\<rparr>))"
  have all: "(case closeStreams plainEnv (exampleRun\<lparr>w_closed := True\<rparr>) of
       Inr w \<Rightarrow> length (w_folders w) = 1
         \<and> map (\<lambda>fi. (fh_Name (fl_fh fi), fh_Created (fl_fh fi), fh_Accessed (fl_fh fi), fh_Modified (fl_fh fi))) (w_files w)
           = [([0x61], zeroTime, zeroTime, zeroTime)]
     | Inl _ \<Rightarrow> False)" by code_simp
  then have close: "closeStreams plainEnv (exampleRun\<lparr>w_closed := True\<rparr>) = Inr w'"
    unfolding w'_def by (intro getOk_ok) (simp split: sum.splits)
  with all have folders: "w_folders w' \<noteq> []" by auto
  have names: "list_all (\<lambda>fi. storable (fl_fh fi)) (w_files w')"
    using all close okName_a by (auto simp: storable_def okTime_def list_all_iff map_eq_Cons_conv)
  from archive_header_lists_contents [OF exampleRun_run _ close _ folders names plainExternals_laws] close
  show ?thesis by simp
qed

end
