(* ===== verification/Writer_Data.thy ===== *)
theory Writer_Data
  imports Writer_Invariant
begin

unbundle bit_operations_syntax

text \<open>
  Where the data of an archive is: the second invariant of all runs of the writer. Beside the
  content of the entries a run has, for each folder, the pieces that were written to it and the
  bytes that have left it. The folder has compressed and encrypted exactly these pieces, the
  pieces of a folder are the contents of its files one after the other, and the archive holds
  behind the signature header the bytes of the folders in order, at once or through the spools
  and the coordinator.
\<close>

section \<open>The destination\<close>

definition skBody :: "seeker \<Rightarrow> byte list" where
  "skBody s = take (sk_pos s - 32) (drop 32 (sk_data s))"

definition skOk :: "seeker \<Rightarrow> bool" where
  "skOk s \<longleftrightarrow> 32 \<le> sk_pos s \<and> (sk_pos s = 32 \<or> sk_pos s \<le> length (sk_data s))"

lemma seekWrite_body:
  assumes "skOk s"
  shows "skOk (seekWrite s bs)" and "skBody (seekWrite s bs) = skBody s @ bs"
    and "sk_pos (seekWrite s bs) = sk_pos s + length bs"
proof -
  define a where "a = take (sk_pos s) (sk_data s @ replicate (sk_pos s - length (sk_data s)) 0)"
  have len: "length a = sk_pos s" by (simp add: a_def)
  have d: "sk_data (seekWrite s bs) = a @ bs @ drop (sk_pos s + length bs) (sk_data s)"
    by (simp add: seekWrite_def a_def)
  show pos: "sk_pos (seekWrite s bs) = sk_pos s + length bs" by (simp add: seekWrite_def)
  have p: "32 \<le> sk_pos s" using assms by (simp add: skOk_def)
  show "skOk (seekWrite s bs)" using p len by (simp add: skOk_def pos d)
  have "drop 32 a = skBody s"
  proof (cases "sk_pos s = 32")
    case True
    then show ?thesis using len by (simp add: skBody_def)
  next
    case False
    then have "a = take (sk_pos s) (sk_data s)" using assms by (simp add: skOk_def a_def)
    then show ?thesis by (simp add: skBody_def drop_take)
  qed
  moreover from this have "length (skBody s) = sk_pos s - 32" using len by (metis length_drop)
  ultimately show "skBody (seekWrite s bs) = skBody s @ bs"
    using p len unfolding skBody_def [of "seekWrite s bs"] pos d by simp
qed

section \<open>What a folder holds\<close>

fun lzRun :: "'z lzmaLib \<Rightarrow> 'z \<Rightarrow> byte list list \<Rightarrow> 'z \<times> byte list" where
  "lzRun L z [] = (z, [])"
| "lzRun L z (p # ps) =
     (let (z, out) = lzWrite L z p; (z, outs) = lzRun L z ps in (z, out @ outs))"

lemma lzRun_snoc:
  "lzRun L z (ps @ [p]) = (let (z, outs) = lzRun L z ps; (z, out) = lzWrite L z p in (z, outs @ out))"
  by (induction ps arbitrary: z) (simp_all add: split_beta Let_def)

text \<open>The whole output of an encoder that was given the pieces \<open>ps\<close> and closed.\<close>

definition lzAll :: "'z lzmaLib \<Rightarrow> int \<Rightarrow> int \<Rightarrow> byte list list \<Rightarrow> byte list" where
  "lzAll L d c ps = (let (z, out) = lzRun L (lzNew L d c) ps in out @ lzClose L z)"

text \<open>The compressed bytes of a folder so far, and its compressor.\<close>

definition compressedTo :: "'z lzmaLib \<Rightarrow> 'z folderWriter \<Rightarrow> byte list list \<Rightarrow> byte list \<Rightarrow> bool" where
  "compressedTo L f ps cb \<longleftrightarrow>
     (if fw_closed f then cb = lzAll L (fw_dictCap f) (fw_concurrency f) ps
      else lzRun L (lzNew L (fw_dictCap f) (fw_concurrency f)) ps = (fw_compressor f, cb))"

text \<open>And what the encryptor made of them.\<close>

definition encryptedTo :: "crypto \<Rightarrow> byte list \<Rightarrow> 'z folderWriter \<Rightarrow> byte list \<Rightarrow> byte list \<Rightarrow> bool" where
  "encryptedTo c password f cb out \<longleftrightarrow>
     (\<exists>aw salt iv key. fw_aesW f = Some aw \<and> fw_aesProps f = aesProps salt iv
        \<and> length salt = 8 \<and> length iv = 16
        \<and> deriveKey c 19 (salt @ utf16Encoder c password) = Inr key
        \<and> fw_unencComp f = of_nat (length cb)
        \<and> (if fw_closed f then out = cbcEnc c key iv (pad16 cb)
           else aw_key aw = key \<and> aw_iv aw = cbcIv c key iv cb \<and> aw_buf aw = partial cb
             \<and> out = cbcEnc c key iv cb))"

definition folderHolds ::
    "'z env \<Rightarrow> byte list \<Rightarrow> 'z folderWriter \<Rightarrow> byte list list \<Rightarrow> byte list \<Rightarrow> bool" where
  "folderHolds en password f ps out \<longleftrightarrow>
     fw_compCount f = of_nat (length out) \<and> (fw_isEncrypted f \<longleftrightarrow> password \<noteq> [])
     \<and> fw_propByte f = encodeDictCap (en_lzma en) (fw_dictCap f)
     \<and> (\<exists>solid sz. fw_dictCap f = chooseDictCap en solid sz)
     \<and> (\<exists>cb. compressedTo (en_lzma en) f ps cb
          \<and> (if password = [] then fw_aesW f = None \<and> out = cb
             else encryptedTo (en_crypto en) password f cb out))"

text \<open>What stays the same when bytes go through a folder.\<close>

definition sameFolder :: "'z folderWriter \<Rightarrow> 'z folderWriter \<Rightarrow> bool" where
  "sameFolder f f' \<longleftrightarrow> folderShape f' = folderShape f \<and> fw_spool f' = fw_spool f"

lemma folderHolds_spool [simp]: "folderHolds en password (f\<lparr>fw_spool := s\<rparr>) ps out = folderHolds en password f ps out"
  by (simp add: folderHolds_def compressedTo_def encryptedTo_def)

lemma folderHolds_files [simp]:
  "folderHolds en password (f\<lparr>fw_files := a, fw_fileCount := b, fw_uncompSize := n\<rparr>) ps out = folderHolds en password f ps out"
  by (simp add: folderHolds_def compressedTo_def encryptedTo_def)

lemma aesWrite_cbc:
  "aesWrite c aw bs = (aw\<lparr>aw_buf := partial (aw_buf aw @ bs), aw_iv := cbcIv c (aw_key aw) (aw_iv aw) (aw_buf aw @ bs),
      aw_count := aw_count aw + of_nat (16 * (length (aw_buf aw @ bs) div 16))\<rparr>,
    cbcEnc c (aw_key aw) (aw_iv aw) (aw_buf aw @ bs))"
  by (simp add: aesWrite_def aesDrain_cbc)

text \<open>Bytes that leave the compressor.\<close>

lemma folderEmit_plain:
  assumes "fw_aesW f = None"
  shows "folderEmit c f bs = (f\<lparr>fw_compCount := fw_compCount f + of_nat (length bs)\<rparr>, bs)"
  using assms by (simp add: folderEmit_def)

lemma folderEmit_encrypted:
  assumes "fw_aesW f = Some aw" and "aw_key aw = key" "aw_iv aw = cbcIv c key iv cb" "aw_buf aw = partial cb"
  shows "\<exists>aw'. folderEmit c f bs = (f\<lparr>fw_aesW := Some aw', fw_unencComp := fw_unencComp f + of_nat (length bs),
      fw_compCount := fw_compCount f + of_nat (length (cbcEnc c key (cbcIv c key iv cb) (partial cb @ bs)))\<rparr>,
      cbcEnc c key (cbcIv c key iv cb) (partial cb @ bs))
    \<and> aw_key aw' = key \<and> aw_iv aw' = cbcIv c key iv (cb @ bs) \<and> aw_buf aw' = partial (cb @ bs)"
  using assms cbc_append [of c key iv cb bs]
  by (intro exI [of _ "fst (aesWrite c aw bs)"]) (simp add: folderEmit_def aesWrite_cbc)

lemma folderWrite_holds:
  assumes h: "folderHolds en password (w_folders w ! k) ps out" and op: "\<not> fw_closed (w_folders w ! k)"
  shows "\<exists>f' o'. folderWrite en w k p = sinkWrite w k f' o' \<and> folderHolds en password f' (ps @ [p]) (out @ o')
    \<and> sameFolder (w_folders w ! k) f' \<and> \<not> fw_closed f'"
proof -
  let ?f = "w_folders w ! k" and ?c = "en_crypto en" and ?L = "en_lzma en"
  obtain cb where cb: "compressedTo ?L ?f ps cb"
    "if password = [] then fw_aesW ?f = None \<and> out = cb else encryptedTo ?c password ?f cb out"
    using h by (auto simp: folderHolds_def)
  obtain z bs where lz: "lzWrite ?L (fw_compressor ?f) p = (z, bs)" by (cases "lzWrite ?L (fw_compressor ?f) p")
  let ?g = "?f\<lparr>fw_compressor := z\<rparr>"
  have run: "lzRun ?L (lzNew ?L (fw_dictCap ?f) (fw_concurrency ?f)) (ps @ [p]) = (z, cb @ bs)"
    using cb(1) op lz by (simp add: compressedTo_def lzRun_snoc)
  have w: "folderWrite en w k p = (let (f, o') = folderEmit ?c ?g bs in sinkWrite w k f o')"
    by (simp add: folderWrite_def lz)
  show ?thesis
  proof (cases "password = []")
    case True
    then have "folderEmit ?c ?g bs = (?g\<lparr>fw_compCount := fw_compCount ?f + of_nat (length bs)\<rparr>, bs)"
      using cb(2) by (simp add: folderEmit_plain)
    with w True h op run cb(2) show ?thesis
      by (intro exI [of _ "?g\<lparr>fw_compCount := fw_compCount ?f + of_nat (length bs)\<rparr>"] exI [of _ bs])
        (auto simp: folderHolds_def compressedTo_def sameFolder_def folderShape_def)
  next
    case False
    then obtain aw salt iv key where enc: "fw_aesW ?f = Some aw" "fw_aesProps ?f = aesProps salt iv"
        "length salt = 8" "length iv = 16" "deriveKey ?c 19 (salt @ utf16Encoder ?c password) = Inr key"
        "fw_unencComp ?f = of_nat (length cb)"
        "aw_key aw = key" "aw_iv aw = cbcIv ?c key iv cb" "aw_buf aw = partial cb" "out = cbcEnc ?c key iv cb"
      using cb(2) op by (auto simp: encryptedTo_def)
    define o' where "o' = cbcEnc ?c key (cbcIv ?c key iv cb) (partial cb @ bs)"
    from enc(1) have "fw_aesW ?g = Some aw" by simp
    from folderEmit_encrypted [OF this enc(7-9), of bs] obtain aw' where
      e: "folderEmit ?c ?g bs = (?g\<lparr>fw_aesW := Some aw', fw_unencComp := fw_unencComp ?g + of_nat (length bs),
          fw_compCount := fw_compCount ?g + of_nat (length o')\<rparr>, o')"
        "aw_key aw' = key" "aw_iv aw' = cbcIv ?c key iv (cb @ bs)" "aw_buf aw' = partial (cb @ bs)"
      unfolding o'_def by blast
    let ?f' = "?g\<lparr>fw_aesW := Some aw', fw_unencComp := fw_unencComp ?g + of_nat (length bs),
        fw_compCount := fw_compCount ?g + of_nat (length o')\<rparr>"
    have out': "out @ o' = cbcEnc ?c key iv (cb @ bs)" using cbc_append [of ?c key iv cb bs] by (simp add: o'_def enc(10))
    have "encryptedTo ?c password ?f' (cb @ bs) (out @ o')"
      unfolding encryptedTo_def using enc(2-6) e(2-4) op
      by (intro exI [of _ aw'] exI [of _ salt] exI [of _ iv] exI [of _ key]) (simp add: out')
    moreover have "compressedTo ?L ?f' (ps @ [p]) (cb @ bs)" using run op by (simp add: compressedTo_def)
    ultimately have "folderHolds en password ?f' (ps @ [p]) (out @ o')"
      using h False by (auto simp: folderHolds_def)
    with w e(1) op show ?thesis
      by (intro exI [of _ ?f'] exI [of _ o']) (simp add: sameFolder_def folderShape_def)
  qed
qed

lemma folderClose_holds:
  assumes h: "folderHolds en password (w_folders w ! k) ps out" and op: "\<not> fw_closed (w_folders w ! k)"
  shows "\<exists>f' o'. folderClose en w k = sinkWrite w k f' o' \<and> folderHolds en password f' ps (out @ o')
    \<and> sameFolder (w_folders w ! k) f' \<and> fw_closed f'"
proof -
  let ?f = "w_folders w ! k" and ?c = "en_crypto en" and ?L = "en_lzma en"
  obtain cb where cb: "compressedTo ?L ?f ps cb"
    "if password = [] then fw_aesW ?f = None \<and> out = cb else encryptedTo ?c password ?f cb out"
    using h by (auto simp: folderHolds_def)
  define bs where "bs = lzClose ?L (fw_compressor ?f)"
  let ?g = "?f\<lparr>fw_closed := True\<rparr>"
  have all: "lzAll ?L (fw_dictCap ?f) (fw_concurrency ?f) ps = cb @ bs"
    using cb(1) op by (simp add: compressedTo_def lzAll_def bs_def)
  show ?thesis
  proof (cases "password = []")
    case True
    let ?f' = "?g\<lparr>fw_compCount := fw_compCount ?f + of_nat (length bs)\<rparr>"
    have "folderClose en w k = sinkWrite w k ?f' bs"
      using op cb(2) True by (simp add: folderClose_def Let_def folderEmit_plain bs_def)
    moreover have "folderHolds en password ?f' ps (out @ bs)"
      using h True cb(2) all by (auto simp: folderHolds_def compressedTo_def)
    ultimately show ?thesis
      by (intro exI [of _ ?f'] exI [of _ bs]) (simp add: sameFolder_def folderShape_def)
  next
    case False
    then obtain aw salt iv key where enc: "fw_aesW ?f = Some aw" "fw_aesProps ?f = aesProps salt iv"
        "length salt = 8" "length iv = 16" "deriveKey ?c 19 (salt @ utf16Encoder ?c password) = Inr key"
        "fw_unencComp ?f = of_nat (length cb)"
        "aw_key aw = key" "aw_iv aw = cbcIv ?c key iv cb" "aw_buf aw = partial cb" "out = cbcEnc ?c key iv cb"
      using cb(2) op by (auto simp: encryptedTo_def)
    define o' where "o' = cbcEnc ?c key (cbcIv ?c key iv cb) (partial cb @ bs)"
    from enc(1) have "fw_aesW ?g = Some aw" by simp
    from folderEmit_encrypted [OF this enc(7-9), of bs] obtain aw' where
      e: "folderEmit ?c ?g bs = (?g\<lparr>fw_aesW := Some aw', fw_unencComp := fw_unencComp ?g + of_nat (length bs),
          fw_compCount := fw_compCount ?g + of_nat (length o')\<rparr>, o')"
        "aw_key aw' = key" "aw_iv aw' = cbcIv ?c key iv (cb @ bs)" "aw_buf aw' = partial (cb @ bs)"
      unfolding o'_def by blast
    obtain aw2 o2 where close: "aesClose ?c aw' = (aw2, o2)" by (cases "aesClose ?c aw'")
    have isE: "fw_isEncrypted ?f" using h False by (simp add: folderHolds_def)
    let ?f' = "?g\<lparr>fw_unencComp := fw_unencComp ?g + of_nat (length bs), fw_aesW := Some aw2,
        fw_compCount := fw_compCount ?g + of_nat (length o') + of_nat (length o2)\<rparr>"
    have fc: "folderClose en w k = sinkWrite w k ?f' (o' @ o2)"
      using op isE e(1) close by (simp add: folderClose_def Let_def bs_def [symmetric])
    have "aesEncryptAll ?c key iv [cb @ bs] = out @ o' @ o2"
    proof -
      have w: "aesWrites ?c (newAesWriter key iv) [cb @ bs] = (fst (aesWrites ?c (newAesWriter key iv) [cb @ bs]), out @ o')"
        using aesWrites_cbc [of "newAesWriter key iv" ?c "[cb @ bs]"] cbc_append [of ?c key iv cb bs]
        by (simp add: newAesWriter_def o'_def enc(10) prod_eq_iff)
      have same: "snd (aesClose ?c x) = snd (aesClose ?c y)"
        if "aw_key x = aw_key y" "aw_iv x = aw_iv y" "aw_buf x = aw_buf y" for x y
        using that by (simp add: aesClose_def Let_def cbcEncrypt1_def)
      have "snd (aesClose ?c (fst (aesWrites ?c (newAesWriter key iv) [cb @ bs]))) = snd (aesClose ?c aw')"
        using aesWrites_cbc [of "newAesWriter key iv" ?c "[cb @ bs]"] e(2-4)
        by (intro same) (simp_all add: newAesWriter_def del: aesWrites.simps)
      with w close show ?thesis
        unfolding aesEncryptAll_def by (metis (no_types, lifting) append_assoc case_prod_conv prod.collapse snd_conv)
    qed
    then have out': "out @ o' @ o2 = cbcEnc ?c key iv (pad16 (cb @ bs))" by (simp add: aesEncryptAll_cbc)
    have "encryptedTo ?c password ?f' (cb @ bs) (out @ o' @ o2)"
      unfolding encryptedTo_def using enc(2-6)
      by (intro exI [of _ aw2] exI [of _ salt] exI [of _ iv] exI [of _ key]) (simp add: out')
    moreover have "compressedTo ?L ?f' ps (cb @ bs)" using all by (simp add: compressedTo_def)
    ultimately have "folderHolds en password ?f' ps (out @ o' @ o2)"
      using h False by (auto simp: folderHolds_def)
    with fc show ?thesis
      by (intro exI [of _ ?f'] exI [of _ "o' @ o2"]) (simp add: sameFolder_def folderShape_def)
  qed
qed

text \<open>A new folder holds nothing.\<close>

lemma deriveKey_19: "\<exists>key. deriveKey c 19 b = Inr key"
  by (simp add: deriveKey_def maxCyclesPower_def)

lemma newFolderWriter_holds:
  assumes "length salt = 8" and "length iv = 16"
    and "fl_propByte fi = encodeDictCap (en_lzma en) d" and "d = chooseDictCap en solid sz"
  shows "folderHolds en (w_password w) (newFolderWriter en w fi d salt iv) [] []"
    and "fw_seq (newFolderWriter en w fi d salt iv) = length (w_folders w)"
    and "\<not> fw_closed (newFolderWriter en w fi d salt iv)"
    and "fw_files (newFolderWriter en w fi d salt iv) = []"
    and "fw_spool (newFolderWriter en w fi d salt iv) = (if sequential w then None else Some [])"
proof -
  obtain key where key: "deriveKey (en_crypto en) 19 (salt @ utf16Encoder (en_crypto en) (w_password w)) = Inr key"
    using deriveKey_19 by blast
  show "folderHolds en (w_password w) (newFolderWriter en w fi d salt iv) [] []"
    using assms key by (auto simp: folderHolds_def newFolderWriter_def Let_def compressedTo_def encryptedTo_def
        newAesWriter_def)
qed (auto simp: newFolderWriter_def Let_def sequential_def)

section \<open>The invariant\<close>

text \<open>The folders hold their pieces, which are the contents of their files.\<close>

definition foldersOk ::
    "'z env \<Rightarrow> 'z writer \<Rightarrow> byte list list \<Rightarrow> (nat \<Rightarrow> byte list list) \<Rightarrow> (nat \<Rightarrow> byte list) \<Rightarrow> bool" where
  "foldersOk en w cs css outs \<longleftrightarrow>
     (\<forall>k<length (w_folders w).
        folderHolds en (w_password w) (w_folders w ! k) (css k) (outs k) \<and> fw_seq (w_folders w ! k) = k
        \<and> concat (css k) = concat (map ((!) cs) (fw_files (w_folders w ! k))))"

text \<open>The file writers and the lists of files agree.\<close>

definition membersOk :: "'z writer \<Rightarrow> nat \<Rightarrow> bool" where
  "membersOk w n \<longleftrightarrow>
     (\<forall>i<n. \<forall>k. fr_fold (w_fileWriters w ! i) = Some k \<longrightarrow>
        k < length (w_folders w) \<and> i \<in> set (fw_files (w_folders w ! k)))
     \<and> (\<forall>k<length (w_folders w). \<forall>i\<in>set (fw_files (w_folders w ! k)).
          i < n \<and> fr_fold (w_fileWriters w ! i) = Some k)"

text \<open>Which folders are closed: the one of a solid archive at the end, others with their file.\<close>

definition closedOk :: "'z writer \<Rightarrow> bool" where
  "closedOk w \<longleftrightarrow>
     (if w_solid w
      then length (w_folders w) \<le> 1 \<and> (\<forall>k<length (w_folders w). \<not> fw_closed (w_folders w ! k))
      else \<forall>k<length (w_folders w). length (fw_files (w_folders w ! k)) = 1
        \<and> (fw_closed (w_folders w ! k) \<longleftrightarrow>
             (\<forall>i\<in>set (fw_files (w_folders w ! k)). fr_closed (w_fileWriters w ! i))))"

text \<open>The closed folders of a concurrent archive are in the queue, in the coordinator, or written.\<close>

definition queueOk :: "'z writer \<Rightarrow> bool" where
  "queueOk w \<longleftrightarrow>
     set (w_spools w) \<union> snd ` set (w_folderMap w) \<union> {..<w_writeSeq w}
       = {k. k < length (w_folders w) \<and> fw_closed (w_folders w ! k)}
     \<and> (\<forall>e\<in>set (w_folderMap w). fst e = snd e)"

definition placeOk :: "'z writer \<Rightarrow> (nat \<Rightarrow> byte list) \<Rightarrow> bool" where
  "placeOk w outs \<longleftrightarrow>
     skOk (w_w w)
     \<and> (if sequential w
        then (\<forall>k<length (w_folders w). fw_spool (w_folders w ! k) = None)
          \<and> skBody (w_w w) = concat (map outs [0..<length (w_folders w)])
          \<and> w_spools w = [] \<and> w_folderMap w = []
          \<and> (\<forall>k. Suc k < length (w_folders w) \<longrightarrow> fw_closed (w_folders w ! k))
        else (\<forall>k<length (w_folders w). fw_spool (w_folders w ! k) = Some (outs k))
          \<and> skBody (w_w w) = concat (map outs [0..<w_writeSeq w]))"

definition coordinated :: "'z writer \<Rightarrow> bool" where
  "coordinated w \<longleftrightarrow> sequential w \<or> queueOk w \<and> w_writeSeq w \<notin> snd ` set (w_folderMap w)"

definition dataInv ::
    "'z env \<Rightarrow> 'z writer \<Rightarrow> byte list list \<Rightarrow> (nat \<Rightarrow> byte list list) \<Rightarrow> (nat \<Rightarrow> byte list) \<Rightarrow> bool" where
  "dataInv en w cs css outs \<longleftrightarrow>
     foldersOk en w cs css outs \<and> membersOk w (length cs) \<and> closedOk w \<and> placeOk w outs \<and> coordinated w"

lemma membersD:
  "membersOk w n \<Longrightarrow> i < n \<Longrightarrow> fr_fold (w_fileWriters w ! i) = Some k \<Longrightarrow>
     k < length (w_folders w) \<and> i \<in> set (fw_files (w_folders w ! k))"
  "membersOk w n \<Longrightarrow> k < length (w_folders w) \<Longrightarrow> i \<in> set (fw_files (w_folders w ! k)) \<Longrightarrow>
     i < n \<and> fr_fold (w_fileWriters w ! i) = Some k"
  unfolding membersOk_def by blast+

lemma membersI:
  "(\<And>i k. i < n \<Longrightarrow> fr_fold (w_fileWriters w ! i) = Some k \<Longrightarrow>
      k < length (w_folders w) \<and> i \<in> set (fw_files (w_folders w ! k))) \<Longrightarrow>
   (\<And>k i. k < length (w_folders w) \<Longrightarrow> i \<in> set (fw_files (w_folders w ! k)) \<Longrightarrow>
      i < n \<and> fr_fold (w_fileWriters w ! i) = Some k) \<Longrightarrow> membersOk w n"
  unfolding membersOk_def by blast

lemma closedD:
  "closedOk w \<Longrightarrow> w_solid w \<Longrightarrow> length (w_folders w) \<le> 1"
  "closedOk w \<Longrightarrow> w_solid w \<Longrightarrow> k < length (w_folders w) \<Longrightarrow> \<not> fw_closed (w_folders w ! k)"
  "closedOk w \<Longrightarrow> \<not> w_solid w \<Longrightarrow> k < length (w_folders w) \<Longrightarrow> length (fw_files (w_folders w ! k)) = 1"
  "closedOk w \<Longrightarrow> \<not> w_solid w \<Longrightarrow> k < length (w_folders w) \<Longrightarrow> fw_closed (w_folders w ! k) \<longleftrightarrow>
     (\<forall>i\<in>set (fw_files (w_folders w ! k)). fr_closed (w_fileWriters w ! i))"
  unfolding closedOk_def by simp_all

section \<open>Bytes that go to a folder\<close>

lemma sinkWrite_effect:
  fixes w :: "'z writer" and o' :: "byte list"
  assumes "sameFolder (w_folders w ! k) f'" and "k < length (w_folders w)"
  defines "w1 \<equiv> sinkWrite w k f' o'"
  shows "sameTables w w1" and "w_spools w1 = w_spools w" "w_folderMap w1 = w_folderMap w" "w_writeSeq w1 = w_writeSeq w"
    and "j \<noteq> k \<Longrightarrow> w_folders w1 ! j = w_folders w ! j"
    and "folderHolds en password (w_folders w1 ! k) ps out = folderHolds en password f' ps out"
    and "folderShape (w_folders w1 ! k) = folderShape (w_folders w ! k)"
    and "fw_closed (w_folders w1 ! k) = fw_closed f'"
    and "fw_spool (w_folders w ! k) = None \<Longrightarrow> fw_spool (w_folders w1 ! k) = None \<and> w_w w1 = seekWrite (w_w w) o'"
    and "fw_spool (w_folders w ! k) = Some sp \<Longrightarrow> fw_spool (w_folders w1 ! k) = Some (sp @ o') \<and> w_w w1 = w_w w"
proof -
  have f': "folderShape f' = folderShape (w_folders w ! k)" "fw_spool f' = fw_spool (w_folders w ! k)"
    using assms(1) by (simp_all add: sameFolder_def)
  show "sameTables w w1" unfolding w1_def by (rule sinkWrite_same [OF f'(1)])
  show "folderShape (w_folders w1 ! k) = folderShape (w_folders w ! k)"
    using f' assms(2) by (simp add: w1_def sinkWrite_def folderShape_def split: option.split)
qed (use assms in \<open>auto simp: w1_def sinkWrite_def sameFolder_def split: option.splits\<close>)

lemma shape_fields: "folderShape f = folderShape g \<Longrightarrow> fw_files f = fw_files g \<and> fw_seq f = fw_seq g \<and> fw_isEncrypted f = fw_isEncrypted g"
  by (simp add: folderShape_def)

text \<open>The file that may be written is the last of its folder, and no other folder has it.\<close>

lemma open_file:
  assumes inv: "writerInv w cs" and data: "dataInv en w cs css outs" and i: "i < length cs"
    and op: "\<not> fr_closed (w_fileWriters w ! i)" and k: "fr_fold (w_fileWriters w ! i) = Some k"
  shows "k < length (w_folders w)" and "\<not> fw_closed (w_folders w ! k)"
    and "\<exists>pre. fw_files (w_folders w ! k) = pre @ [i] \<and> i \<notin> set pre"
    and "j < length (w_folders w) \<Longrightarrow> j \<noteq> k \<Longrightarrow> i \<notin> set (fw_files (w_folders w ! j))"
    and "sequential w \<Longrightarrow> Suc k = length (w_folders w)"
proof -
  have m: "membersOk w (length cs)" and c: "closedOk w" using data by (simp_all add: dataInv_def)
  have mem: "k < length (w_folders w)" "i \<in> set (fw_files (w_folders w ! k))"
    using membersD(1) [OF m i k] by simp_all
  then show "k < length (w_folders w)" by simp
  show "i \<notin> set (fw_files (w_folders w ! j))" if "j < length (w_folders w)" "j \<noteq> k"
    using membersD(2) [OF m that(1), of i] that(2) k by auto
  have nonsolid: "fw_files (w_folders w ! k) = [i]" if "\<not> w_solid w"
    using closedD(3) [OF c that mem(1)] mem(2) by (cases "fw_files (w_folders w ! k)") auto
  show ncl: "\<not> fw_closed (w_folders w ! k)"
    using closedD(2) [OF c _ mem(1)] closedD(4) [OF c _ mem(1)] mem(2) op by blast
  show "Suc k = length (w_folders w)" if "sequential w"
  proof (rule ccontr)
    assume "Suc k \<noteq> length (w_folders w)"
    then have "Suc k < length (w_folders w)" using mem by simp
    then show False using ncl data that by (simp add: dataInv_def placeOk_def)
  qed
  show "\<exists>pre. fw_files (w_folders w ! k) = pre @ [i] \<and> i \<notin> set pre"
  proof (cases "w_solid w")
    case True
    then have one: "length (w_folders w) = 1" "k = 0" using closedD(1) [OF c True] mem by linarith+
    have "sequential w" using True by (simp add: sequential_def)
    then have "\<not> i < length cs - 1" using inv op by (auto simp: writerInv_def)
    then have last: "length cs = Suc i" using i by linarith
    have "hasData (w_files w ! i)" using inv i k by (fastforce simp: writerInv_def entryOk_def)
    moreover have "w_folders w = [w_folders w ! 0]" using one by (cases "w_folders w") auto
    then have "concat (map fw_files (w_folders w)) = fw_files (w_folders w ! 0)" by (metis concat.simps append_Nil2 list.map)
    then have "fw_files (w_folders w ! k) = filter (\<lambda>i. hasData (w_files w ! i)) [0..<length cs]"
      using inv one by (simp add: writerInv_def tablesOk_def)
    moreover have "[0..<length cs] = [0..<i] @ [i]" by (simp add: last)
    ultimately show ?thesis by (intro exI [of _ "filter (\<lambda>i. hasData (w_files w ! i)) [0..<i]"]) simp
  qed (use nonsolid in simp)
qed

lemma files_same:
  assumes "sameTables w w'" and "j < length (w_folders w)"
  shows "fw_files (w_folders w' ! j) = fw_files (w_folders w ! j)" and "fw_seq (w_folders w' ! j) = fw_seq (w_folders w ! j)"
proof -
  have "map folderShape (w_folders w') ! j = map folderShape (w_folders w) ! j"
    using assms(1) by (simp add: sameTables_def)
  then have "folderShape (w_folders w' ! j) = folderShape (w_folders w ! j)"
    using assms(2) sameTables_length [OF assms(1)] by simp
  then show "fw_files (w_folders w' ! j) = fw_files (w_folders w ! j)" "fw_seq (w_folders w' ! j) = fw_seq (w_folders w ! j)"
    using shape_fields by blast+
qed

lemma membersOk_same: "sameTables w w' \<Longrightarrow> membersOk w n \<Longrightarrow> membersOk w' n"
proof -
  assume same: "sameTables w w'" and ok: "membersOk w n"
  have len: "length (w_folders w') = length (w_folders w)" and fws: "w_fileWriters w' = w_fileWriters w"
    using same sameTables_length by (blast, simp add: sameTables_def)
  show ?thesis
    unfolding membersOk_def len fws using membersD [OF ok] files_same(1) [OF same] by metis
qed

lemma open_unwritten:
  assumes "dataInv en w cs css outs" and "\<not> sequential w" and "k < length (w_folders w)" and "\<not> fw_closed (w_folders w ! k)"
  shows "w_writeSeq w \<le> k"
proof (rule ccontr)
  assume "\<not> w_writeSeq w \<le> k"
  then have "k \<in> set (w_spools w) \<union> snd ` set (w_folderMap w) \<union> {..<w_writeSeq w}" by simp
  moreover have "set (w_spools w) \<union> snd ` set (w_folderMap w) \<union> {..<w_writeSeq w}
      = {k. k < length (w_folders w) \<and> fw_closed (w_folders w ! k)}"
    using assms(1,2) by (simp add: dataInv_def coordinated_def queueOk_def)
  ultimately have "k \<in> {k. k < length (w_folders w) \<and> fw_closed (w_folders w ! k)}" by (simp only:)
  then show False using assms(4) by simp
qed

text \<open>A folder that is still open takes a piece, or is finished.\<close>

lemma emit_parts:
  fixes w :: "'z writer" and o' :: "byte list" and p :: "byte list"
  assumes fo: "foldersOk en w cs css outs" and me: "membersOk w n" and pl: "placeOk w outs"
    and k: "k < length (w_folders w)" and seq: "sequential w \<Longrightarrow> Suc k = length (w_folders w)"
    and conc: "\<not> sequential w \<Longrightarrow> w_writeSeq w \<le> k"
    and f': "sameFolder (w_folders w ! k) f'" "folderHolds en (w_password w) f' (css' k) (outs k @ o')"
    and css': "\<And>j. j \<noteq> k \<Longrightarrow> css' j = css j"
    and cs': "\<And>j. j < length (w_folders w) \<Longrightarrow>
      concat (css' j) = concat (map ((!) cs') (fw_files (w_folders w ! j)))"
  defines "w1 \<equiv> sinkWrite w k f' o'" and "outs' \<equiv> outs(k := outs k @ o')"
  shows "foldersOk en w1 cs' css' outs'" and "membersOk w1 n" and "placeOk w1 outs'"
    and "fw_closed (w_folders w1 ! j) = (if j = k then fw_closed f' else fw_closed (w_folders w ! j))"
proof -
  note eff = sinkWrite_effect [OF f'(1) k, where o' = o', folded w1_def]
  have len: "length (w_folders w1) = length (w_folders w)" using sameTables_length [OF eff(1)] .
  have pw: "w_password w1 = w_password w" "sequential w1 = sequential w"
    using eff(1) by (simp_all add: sameTables_def sequential_def)
  show closed: "fw_closed (w_folders w1 ! j) = (if j = k then fw_closed f' else fw_closed (w_folders w ! j))" for j
    using eff(5,8) by simp
  show "membersOk w1 n" using membersOk_same [OF eff(1) me] .
  show "foldersOk en w1 cs' css' outs'"
    unfolding foldersOk_def len pw
  proof (intro allI impI)
    fix j assume j: "j < length (w_folders w)"
    have "folderHolds en (w_password w) (w_folders w1 ! j) (css' j) (outs' j)"
    proof (cases "j = k")
      case True
      with f'(2) eff(6) show ?thesis by (simp add: outs'_def)
    next
      case False
      with fo j css' eff(5) show ?thesis by (simp add: foldersOk_def outs'_def)
    qed
    with fo j cs' [OF j] files_same [OF eff(1) j]
    show "folderHolds en (w_password w) (w_folders w1 ! j) (css' j) (outs' j) \<and> fw_seq (w_folders w1 ! j) = j
        \<and> concat (css' j) = concat (map ((!) cs') (fw_files (w_folders w1 ! j)))"
      by (simp add: foldersOk_def)
  qed
  show "placeOk w1 outs'"
  proof (cases "sequential w")
    case True
    then have spool: "fw_spool (w_folders w ! k) = None" and n: "Suc k = length (w_folders w)"
      using pl k seq by (simp_all add: placeOk_def)
    have ok: "skOk (w_w w)" and body: "skBody (w_w w) = concat (map outs [0..<Suc k])"
      using pl True n by (simp_all add: placeOk_def)
    have "concat (map outs' [0..<Suc k]) = concat (map outs [0..<Suc k]) @ o'"
      by (simp add: outs'_def)
    then have "skBody (w_w w1) = concat (map outs' [0..<length (w_folders w)])"
      using seekWrite_body [OF ok] eff(9) [OF spool] body n by simp
    moreover have "fw_spool (w_folders w1 ! j) = None" if "j < length (w_folders w)" for j
      using that pl True eff(5) eff(9) [OF spool] by (cases "j = k") (simp_all add: placeOk_def)
    moreover have "fw_closed (w_folders w1 ! j)" if "Suc j < length (w_folders w)" for j
      using that pl True n closed [of j] by (auto simp: placeOk_def)
    ultimately show ?thesis
      using True pl seekWrite_body(1) [OF ok] eff(9) [OF spool] eff(2,3) by (simp add: placeOk_def pw len)
  next
    case False
    then have spool: "fw_spool (w_folders w ! k) = Some (outs k)" using pl k by (simp add: placeOk_def)
    have "concat (map outs' [0..<w_writeSeq w]) = concat (map outs [0..<w_writeSeq w])"
      using conc [OF False] by (intro arg_cong [of _ _ concat] map_cong) (auto simp: outs'_def)
    moreover have "fw_spool (w_folders w1 ! j) = Some (outs' j)" if "j < length (w_folders w)" for j
      using that pl False eff(5) eff(10) [OF spool] by (cases "j = k") (simp_all add: placeOk_def outs'_def)
    ultimately show ?thesis
      using False pl eff(10) [OF spool] eff(4) by (simp add: placeOk_def pw len)
  qed
qed

text \<open>The invariant looks at the file writers only for their folder and whether they are closed.\<close>

lemma dataInv_writers:
  assumes "\<And>j. fr_fold (fws ! j) = fr_fold (w_fileWriters w ! j)" "\<And>j. fr_closed (fws ! j) = fr_closed (w_fileWriters w ! j)"
  shows "dataInv en (w\<lparr>w_fileWriters := fws\<rparr>) cs css outs = dataInv en w cs css outs"
  by (simp add: dataInv_def foldersOk_def membersOk_def closedOk_def placeOk_def coordinated_def queueOk_def
      sequential_def assms)

section \<open>Writing and closing files\<close>

lemma closedOk_same:
  assumes same: "sameTables w w'" and cl: "\<And>j. fw_closed (w_folders w' ! j) = fw_closed (w_folders w ! j)"
    and ok: "closedOk w"
  shows "closedOk w'"
proof -
  have len: "length (w_folders w') = length (w_folders w)" and t: "w_fileWriters w' = w_fileWriters w" "w_solid w' = w_solid w"
    using same sameTables_length by (blast, simp_all add: sameTables_def)
  show ?thesis
    using ok files_same(1) [OF same] unfolding closedOk_def len t cl by (cases "w_solid w") simp_all
qed

lemma coordinated_same:
  assumes same: "sameTables w w'" and cl: "\<And>j. fw_closed (w_folders w' ! j) = fw_closed (w_folders w ! j)"
    and q: "w_spools w' = w_spools w" "w_folderMap w' = w_folderMap w" "w_writeSeq w' = w_writeSeq w"
    and ok: "coordinated w"
  shows "coordinated w'"
proof -
  have len: "length (w_folders w') = length (w_folders w)" using sameTables_length [OF same] .
  have t: "sequential w' = sequential w" using same by (simp add: sameTables_def sequential_def)
  show ?thesis using ok by (simp add: coordinated_def queueOk_def cl q t len)
qed

lemma concat_update:
  "i \<notin> set is \<Longrightarrow> map ((!) (cs[i := c])) is = map ((!) cs) is"
  by (rule map_cong) (auto intro!: nth_list_update_neq)

lemma fileWrite_data:
  fixes p :: "byte list"
  assumes inv: "writerInv w cs" and data: "dataInv en w cs css outs" and i: "i < length cs"
    and w': "fileWrite en w i p = Inr w'"
  shows "\<exists>css' outs'. dataInv en w' (cs[i := cs ! i @ p]) css' outs'"
proof -
  let ?fw = "w_fileWriters w ! i" and ?cs = "cs[i := cs ! i @ p]"
  have op: "\<not> fr_closed ?fw" using w' by (auto simp: fileWrite_def Let_def split: if_splits)
  define w1 where "w1 = (case fr_fold ?fw of None \<Rightarrow> w | Some k \<Rightarrow> folderWrite en w k p)"
  define fw' where "fw' = (if 0 < length p
      then ?fw\<lparr>fr_crc32Hash := crc32Update (fr_crc32Hash ?fw) p,
              fr_uncompSize := fr_uncompSize ?fw + of_nat (length p)\<rparr> else ?fw)"
  have fw1: "w_fileWriters w1 = w_fileWriters w"
    using folderWrite_same [of w en] by (auto simp: w1_def sameTables_def split: option.split)
  have eq: "w' = w1\<lparr>w_fileWriters := (w_fileWriters w1)[i := fw']\<rparr>"
    using w' op by (simp add: fileWrite_def Let_def w1_def fw'_def)
  have keep: "fr_fold ((w_fileWriters w1)[i := fw'] ! j) = fr_fold (w_fileWriters w1 ! j)"
    "fr_closed ((w_fileWriters w1)[i := fw'] ! j) = fr_closed (w_fileWriters w1 ! j)" for j
    using inv i by (cases "i = j"; simp add: fw1 fw'_def writerInv_def)+
  have parts: "foldersOk en w cs css outs" "membersOk w (length cs)" "closedOk w" "placeOk w outs" "coordinated w"
    using data by (simp_all add: dataInv_def)
  have "\<exists>css' outs'. dataInv en w1 ?cs css' outs'"
  proof (cases "fr_fold ?fw")
    case None
    have u: "map ((!) ?cs) (fw_files (w_folders w ! k)) = map ((!) cs) (fw_files (w_folders w ! k))"
      if "k < length (w_folders w)" for k
    proof (rule concat_update)
      show "i \<notin> set (fw_files (w_folders w ! k))" using membersD(2) [OF parts(2) that, of i] None by auto
    qed
    have "foldersOk en w ?cs css outs" using parts(1) u unfolding foldersOk_def by metis
    with parts None show ?thesis by (auto simp: w1_def dataInv_def)
  next
    case (Some k)
    note opn = open_file [OF inv data i op Some]
    obtain pre where pre: "fw_files (w_folders w ! k) = pre @ [i]" "i \<notin> set pre" using opn(3) by blast
    have holds: "folderHolds en (w_password w) (w_folders w ! k) (css k) (outs k)" "concat (css k) = concat (map ((!) cs) (pre @ [i]))"
      using parts(1) opn(1) pre(1) by (simp_all add: foldersOk_def)
    from folderWrite_holds [OF holds(1) opn(2), of p] obtain f' o' where
      f': "folderWrite en w k p = sinkWrite w k f' o'" "folderHolds en (w_password w) f' (css k @ [p]) (outs k @ o')"
        "sameFolder (w_folders w ! k) f'" "\<not> fw_closed f'" by blast
    define css' where "css' = css(k := css k @ [p])"
    have cs': "concat (css' j) = concat (map ((!) ?cs) (fw_files (w_folders w ! j)))" if j: "j < length (w_folders w)" for j
    proof (cases "j = k")
      case True
      have m: "map ((!) ?cs) pre = map ((!) cs) pre" using pre(2) by (rule concat_update)
      have "map ((!) ?cs) (pre @ [i]) = map ((!) cs) pre @ [cs ! i @ p]" unfolding map_append m using i by simp
      note mm = this
      have "concat (css' k) = concat (css k) @ p" by (simp add: css'_def)
      then show ?thesis unfolding True pre(1) mm holds(2) by simp
    next
      case False
      with parts(1) j show ?thesis
        unfolding concat_update [OF opn(4) [OF j False]] by (simp add: css'_def foldersOk_def)
    qed
    have w1: "w1 = sinkWrite w k f' o'" using Some f'(1) by (simp add: w1_def)
    have unwritten: "w_writeSeq w \<le> k" if "\<not> sequential w"
      using open_unwritten [OF data that opn(1,2)] .
    from f'(2) have holds': "folderHolds en (w_password w) f' (css' k) (outs k @ o')" by (simp add: css'_def)
    have old: "css' j = css j" if "j \<noteq> k" for j using that by (simp add: css'_def)
    note new = emit_parts [OF parts(1,2,4) opn(1,5) unwritten f'(3) holds' old cs', folded w1]
    note eff = sinkWrite_effect [OF f'(3) opn(1), where o' = o', folded w1]
    have cl: "fw_closed (w_folders w1 ! j) = fw_closed (w_folders w ! j)" for j
      using new(4) [of j] f'(4) opn(2) by simp
    show ?thesis
      using new(1-3) closedOk_same [OF eff(1) cl parts(3)] coordinated_same [OF eff(1) cl eff(2-4) parts(5)]
      by (intro exI [of _ css'] exI [of _ "outs(k := outs k @ o')"]) (simp add: dataInv_def)
  qed
  then show ?thesis unfolding eq using dataInv_writers [OF keep] by blast
qed

lemma dataInv_files: "dataInv en (w\<lparr>w_files := fs\<rparr>) cs css outs = dataInv en w cs css outs"
  by (simp add: dataInv_def foldersOk_def membersOk_def closedOk_def placeOk_def coordinated_def queueOk_def sequential_def)

text \<open>Finishing the folder of a file.\<close>

lemma finish_folder:
  assumes data: "dataInv en w cs css outs" and k: "k < length (w_folders w)" and op: "\<not> fw_closed (w_folders w ! k)"
    and seq: "sequential w \<Longrightarrow> Suc k = length (w_folders w)"
  shows "\<exists>outs'. foldersOk en (folderClose en w k) cs css outs' \<and> membersOk (folderClose en w k) (length cs)
    \<and> placeOk (folderClose en w k) outs'
    \<and> (\<forall>j. fw_closed (w_folders (folderClose en w k) ! j) = (j = k \<or> fw_closed (w_folders w ! j)))
    \<and> w_spools (folderClose en w k) = w_spools w \<and> w_folderMap (folderClose en w k) = w_folderMap w
    \<and> w_writeSeq (folderClose en w k) = w_writeSeq w"
proof -
  have parts: "foldersOk en w cs css outs" "membersOk w (length cs)" "placeOk w outs"
    using data by (simp_all add: dataInv_def)
  have holds: "folderHolds en (w_password w) (w_folders w ! k) (css k) (outs k)"
    using parts(1) k by (simp add: foldersOk_def)
  from folderClose_holds [OF holds op] obtain f' o' where
    f': "folderClose en w k = sinkWrite w k f' o'" "folderHolds en (w_password w) f' (css k) (outs k @ o')"
      "sameFolder (w_folders w ! k) f'" "fw_closed f'" by blast
  have unwritten: "w_writeSeq w \<le> k" if "\<not> sequential w"
    using open_unwritten [OF data that k op] .
  have cs: "concat (css j) = concat (map ((!) cs) (fw_files (w_folders w ! j)))" if "j < length (w_folders w)" for j
    using parts(1) that by (simp add: foldersOk_def)
  note new = emit_parts [OF parts k seq unwritten f'(3,2) refl cs]
  note eff = sinkWrite_effect [OF f'(3) k, where o' = o']
  show ?thesis
    unfolding f'(1) using new eff(2-4) f'(4) by (intro exI [of _ "outs(k := outs k @ o')"]) simp
qed

text \<open>Marking a file as closed.\<close>

definition markClosed :: "'z writer \<Rightarrow> nat \<Rightarrow> 'z writer" where
  "markClosed w i = w\<lparr>w_fileWriters := (w_fileWriters w)[i := (w_fileWriters w ! i)\<lparr>fr_closed := True\<rparr>]\<rparr>"

lemma markClosed_same [simp]:
  "w_folders (markClosed w i) = w_folders w" "w_solid (markClosed w i) = w_solid w"
  "w_concurrency (markClosed w i) = w_concurrency w" "w_files (markClosed w i) = w_files w"
  "length (w_fileWriters (markClosed w i)) = length (w_fileWriters w)" "sequential (markClosed w i) = sequential w"
  by (simp_all add: markClosed_def sequential_def)

lemma mark_file:
  assumes "i < length (w_fileWriters w)"
  shows "fr_fold (w_fileWriters (markClosed w i) ! j) = fr_fold (w_fileWriters w ! j)"
    and "fr_closed (w_fileWriters (markClosed w i) ! j) = (j = i \<or> fr_closed (w_fileWriters w ! j))"
  using assms by (cases "i = j"; simp add: markClosed_def)+

lemma mark_data:
  assumes data: "dataInv en w cs css outs" and i: "i < length (w_fileWriters w)"
  shows "foldersOk en (markClosed w i) cs css outs" "membersOk (markClosed w i) (length cs)"
    "placeOk (markClosed w i) outs" "coordinated (markClosed w i)"
proof -
  let ?u = "markClosed w i"
  have "foldersOk en ?u cs css outs = foldersOk en w cs css outs" by (simp add: markClosed_def foldersOk_def)
  moreover have "membersOk ?u (length cs) = membersOk w (length cs)" by (simp add: membersOk_def mark_file [OF i])
  moreover have "placeOk ?u outs = placeOk w outs" by (simp add: markClosed_def placeOk_def sequential_def)
  moreover have "coordinated ?u = coordinated w" by (simp add: markClosed_def coordinated_def queueOk_def sequential_def)
  ultimately show "foldersOk en ?u cs css outs" "membersOk ?u (length cs)" "placeOk ?u outs" "coordinated ?u"
    using data by (simp_all only: dataInv_def)
qed

text \<open>Closing the folder of the marked file.\<close>

lemma folderClose_mark: "folderClose en (markClosed w i) k = (folderClose en w k)\<lparr>w_fileWriters := w_fileWriters (markClosed w i)\<rparr>"
  by (simp add: markClosed_def folderClose_def sinkWrite_def split_beta Let_def split: option.split)

lemma closeMarked_data:
  assumes inv: "writerInv w cs" and data: "dataInv en w cs css outs" and i: "i < length cs"
    and op: "\<not> fr_closed (w_fileWriters w ! i)" and k: "fr_fold (w_fileWriters w ! i) = Some k" and ns: "\<not> w_solid w"
  defines "x \<equiv> folderClose en (markClosed w i) k"
  shows "\<exists>outs'. foldersOk en x cs css outs' \<and> membersOk x (length cs) \<and> placeOk x outs' \<and> closedOk x
    \<and> sameTables w (folderClose en w k) \<and> k < length (w_folders w)
    \<and> (\<forall>j. fw_closed (w_folders x ! j) = (j = k \<or> fw_closed (w_folders w ! j)))
    \<and> w_spools x = w_spools w \<and> w_folderMap x = w_folderMap w \<and> w_writeSeq x = w_writeSeq w"
proof -
  let ?y = "folderClose en w k"
  have len: "i < length (w_fileWriters w)" using inv i by (simp add: writerInv_def)
  have parts: "membersOk w (length cs)" "closedOk w" using data by (simp_all add: dataInv_def)
  note opn = open_file [OF inv data i op k] and x = folderClose_mark [of en w i k, folded x_def] and cl = mark_file(2) [OF len]
  have files: "fw_files (w_folders w ! k) = [i]" using closedD(3) [OF parts(2) ns opn(1)] opn(3) by auto
  from finish_folder [OF data opn(1,2,5)] obtain outs' where
    f: "foldersOk en ?y cs css outs'" "membersOk ?y (length cs)" "placeOk ?y outs'"
       "\<forall>j. fw_closed (w_folders ?y ! j) = (j = k \<or> fw_closed (w_folders w ! j))"
       "w_spools ?y = w_spools w" "w_folderMap ?y = w_folderMap w" "w_writeSeq ?y = w_writeSeq w" by blast
  have same: "sameTables w ?y" by (rule folderClose_same)
  have lenf: "length (w_folders x) = length (w_folders w)" using sameTables_length [OF same] by (simp add: x)
  have fws: "w_fileWriters ?y = w_fileWriters w" and sol: "w_solid ?y = w_solid w" using same by (simp_all add: sameTables_def)
  have "foldersOk en x cs css outs' = foldersOk en ?y cs css outs'" by (simp add: x foldersOk_def)
  moreover have "membersOk x (length cs) = membersOk ?y (length cs)" by (simp add: x membersOk_def mark_file(1) [OF len] fws)
  moreover have "placeOk x outs' = placeOk ?y outs'" by (simp add: x placeOk_def sequential_def)
  moreover have "length (fw_files (w_folders x ! j)) = 1 \<and> (fw_closed (w_folders x ! j) \<longleftrightarrow>
      (\<forall>i\<in>set (fw_files (w_folders x ! j)). fr_closed (w_fileWriters x ! i)))" if j: "j < length (w_folders w)" for j
  proof -
    have fj: "fw_files (w_folders x ! j) = fw_files (w_folders w ! j)" using files_same(1) [OF same j] by (simp add: x)
    have "i \<notin> set (fw_files (w_folders w ! j))" if "j \<noteq> k" using opn(4) [OF j that] .
    then show ?thesis
      using closedD(3,4) [OF parts(2) ns j] files f(4) cl unfolding fj by (cases "j = k") (auto simp: x)
  qed
  then have "closedOk x" using ns by (simp add: closedOk_def lenf) (simp add: x sol)
  ultimately show ?thesis using f same opn(1) by (intro exI [of _ outs']) (simp add: x)
qed

text \<open>A closed folder joins the queue of the coordinator.\<close>

lemma enqueue_data:
  assumes x: "foldersOk en x cs css outs" "membersOk x (length cs)" "placeOk x outs" "closedOk x" "\<not> sequential x"
    and w: "queueOk w" "w_writeSeq w \<notin> snd ` set (w_folderMap w)"
    and k: "k < length (w_folders w)" "length (w_folders x) = length (w_folders w)"
      "\<forall>j. fw_closed (w_folders x ! j) = (j = k \<or> fw_closed (w_folders w ! j))"
    and same: "w_spools x = w_spools w" "w_folderMap x = w_folderMap w" "w_writeSeq x = w_writeSeq w"
  shows "dataInv en (x\<lparr>w_spools := w_spools x @ [k]\<rparr>) cs css outs"
proof -
  define v where "v = x\<lparr>w_spools := w_spools x @ [k]\<rparr>"
  have fv: "w_spools v = w_spools w @ [k]" "w_folderMap v = w_folderMap w" "w_writeSeq v = w_writeSeq w"
    "w_folders v = w_folders x" by (simp_all add: v_def same)
  have "set (w_spools v) \<union> snd ` set (w_folderMap v) \<union> {..<w_writeSeq v}
      = insert k (set (w_spools w) \<union> snd ` set (w_folderMap w) \<union> {..<w_writeSeq w})"
    by (simp add: fv)
  also have "\<dots> = {j. j < length (w_folders v) \<and> fw_closed (w_folders v ! j)}"
    using w(1) k by (auto simp: queueOk_def fv)
  finally have "queueOk v" using w(1) by (simp add: queueOk_def fv)
  then have "coordinated v" using w(2) by (simp add: coordinated_def fv)
  moreover have "closedOk v = closedOk x" by (simp add: v_def closedOk_def)
  moreover have "foldersOk en v cs css outs = foldersOk en x cs css outs" by (simp add: v_def foldersOk_def)
  moreover have "membersOk v (length cs) = membersOk x (length cs)" by (simp add: v_def membersOk_def)
  moreover have "\<not> sequential v" using x(5) by (simp add: v_def sequential_def)
  then have "placeOk v outs = placeOk x outs" using x(5) by (simp add: placeOk_def) (simp add: v_def)
  ultimately show ?thesis unfolding dataInv_def v_def [symmetric] using x by (simp only:)
qed

lemma fileClose_data:
  assumes inv: "writerInv w cs" and data: "dataInv en w cs css outs" and i: "i < length cs"
    and w': "fileClose en w i = Inr w'"
  shows "\<exists>outs'. dataInv en w' cs css outs'"
proof (cases "fr_closed (w_fileWriters w ! i)")
  case True
  then have "w' = w" using w' by (simp add: fileClose_def)
  with data show ?thesis by blast
next
  case op: False
  let ?u = "markClosed w i"
  have len: "i < length (w_fileWriters w)" using inv i by (simp add: writerInv_def)
  have parts: "membersOk w (length cs)" "closedOk w" "coordinated w" using data by (simp_all add: dataInv_def)
  note up = mark_data [OF data len]
  define m where "m = (case fr_fold (w_fileWriters w ! i) of
                 Some k \<Rightarrow>
                   if w_solid ?u then Inr ?u
                   else
                     let w = folderClose en ?u k in
                     if 1 < w_concurrency w then
                       if w_spoolsClosed w then Inl WriterPanic
                       else Inr (w\<lparr>w_spools := w_spools w @ [k]\<rparr>)
                     else Inr w
               | None \<Rightarrow> Inr ?u)"
  obtain v fs where v: "m = Inr v" and w'v: "w' = v\<lparr>w_files := fs\<rparr>"
    using w' op unfolding fileClose_def Let_def m_def markClosed_def by (auto split: sum.splits)
  have "\<exists>outs'. dataInv en v cs css outs'"
  proof (cases "\<exists>k. fr_fold (w_fileWriters w ! i) = Some k \<and> \<not> w_solid w")
    case False
    then have vu: "v = ?u" using v by (auto simp: m_def split: option.splits)
    have "j \<noteq> i" if "\<not> w_solid w" "k < length (w_folders w)" "j \<in> set (fw_files (w_folders w ! k))" for j k
      using False membersD(2) [OF parts(1) that(2,3)] that(1) by auto
    then have "closedOk ?u" using parts(2) by (auto simp: closedOk_def mark_file(2) [OF len])
    with up vu show ?thesis by (auto simp: dataInv_def)
  next
    case True
    then obtain k where k: "fr_fold (w_fileWriters w ! i) = Some k" and ns: "\<not> w_solid w" by blast
    let ?x = "folderClose en ?u k"
    obtain outs' where x: "foldersOk en ?x cs css outs'" "membersOk ?x (length cs)" "placeOk ?x outs'" "closedOk ?x"
      and same: "sameTables w (folderClose en w k)" and kl: "k < length (w_folders w)"
      and q: "\<forall>j. fw_closed (w_folders ?x ! j) = (j = k \<or> fw_closed (w_folders w ! j))"
        "w_spools ?x = w_spools w" "w_folderMap ?x = w_folderMap w" "w_writeSeq ?x = w_writeSeq w"
      using closeMarked_data [OF inv data i op k ns] by blast
    have t: "w_concurrency ?x = w_concurrency w" "sequential ?x = sequential w" "length (w_folders ?x) = length (w_folders w)"
      using same sameTables_length [OF same] by (simp_all add: folderClose_mark sameTables_def sequential_def)
    have v': "v = (if 1 < w_concurrency w then ?x\<lparr>w_spools := w_spools ?x @ [k]\<rparr> else ?x)"
      using v ns t(1) by (simp add: m_def k Let_def split: if_splits)
    show ?thesis
    proof (cases "sequential w")
      case True
      then have "v = ?x" "coordinated ?x" using v' ns t(2) by (simp_all add: sequential_def coordinated_def)
      then show ?thesis using x by (auto simp: dataInv_def)
    next
      case False
      then have "v = ?x\<lparr>w_spools := w_spools ?x @ [k]\<rparr>" "queueOk w" "w_writeSeq w \<notin> snd ` set (w_folderMap w)"
        using v' parts(3) by (simp_all add: sequential_def coordinated_def)
      then show ?thesis using enqueue_data [OF x _ _ _ kl t(3) q] False t(2) by auto
    qed
  qed
  then show ?thesis unfolding w'v dataInv_files .
qed

section \<open>Adding an entry\<close>

lemma ensureFolder_cases:
  assumes "w_activeFold w = (if w_folders w = [] then None else Some (length (w_folders w) - 1))"
    and "\<not> w_solid w \<Longrightarrow> w_concurrency w \<le> 1 \<Longrightarrow> w_folders w \<noteq> [] \<Longrightarrow> fw_closed (w_folders w ! (length (w_folders w) - 1))"
  shows "ensureFolder en w fi d salt iv =
    (if w_solid w \<and> w_folders w \<noteq> [] then (length (w_folders w) - 1, w)
     else (length (w_folders w), w\<lparr>w_activeFold := Some (length (w_folders w)),
             w_folders := w_folders w @ [newFolderWriter en w fi d salt iv]\<rparr>))"
  using assms by (auto simp: ensureFolder_def Let_def folderClose_def)

lemma nth_old:
  assumes "membersOk w (length cs)" and "k < length (w_folders w)"
  shows "concat (map ((!) (cs @ ds)) (fw_files (w_folders w ! k))) = concat (map ((!) cs) (fw_files (w_folders w ! k)))"
  using membersD(2) [OF assms] by (intro arg_cong [of _ _ concat] map_cong) (simp_all add: nth_append)

text \<open>An entry without data.\<close>

lemma add_directory:
  assumes data: "dataInv en w cs css outs" and len: "length (w_fileWriters w) = length cs"
    and fw: "fr_fold fw = None"
  shows "dataInv en (w\<lparr>w_files := fs, w_fileWriters := w_fileWriters w @ [fw], w_current := c\<rparr>) (cs @ [[]]) css outs"
proof -
  let ?w = "w\<lparr>w_files := fs, w_fileWriters := w_fileWriters w @ [fw], w_current := c\<rparr>"
  have parts: "foldersOk en w cs css outs" "membersOk w (length cs)" "closedOk w" "placeOk w outs" "coordinated w"
    using data by (simp_all add: dataInv_def)
  have mem: "i < length cs" if "k < length (w_folders w)" "i \<in> set (fw_files (w_folders w ! k))" for i k
    using membersD(2) [OF parts(2) that] by simp
  have "foldersOk en ?w (cs @ [[]]) css outs"
    using parts(1) nth_old [OF parts(2)] unfolding foldersOk_def by simp
  moreover have "membersOk ?w (length (cs @ [[]]))"
  proof (rule membersI)
    fix i k assume i: "i < length (cs @ [[]])" "fr_fold (w_fileWriters ?w ! i) = Some k"
    then have "i < length cs" using fw len by (cases "i = length cs") (auto simp: nth_append)
    with i len membersD(1) [OF parts(2), of i k]
    show "k < length (w_folders ?w) \<and> i \<in> set (fw_files (w_folders ?w ! k))" by (simp add: nth_append)
  next
    fix k i assume "k < length (w_folders ?w)" "i \<in> set (fw_files (w_folders ?w ! k))"
    with membersD(2) [OF parts(2), of k i] len
    show "i < length (cs @ [[]]) \<and> fr_fold (w_fileWriters ?w ! i) = Some k" by (simp add: nth_append)
  qed
  moreover have "closedOk ?w"
  proof -
    have "(\<forall>i\<in>set (fw_files (w_folders w ! k)). fr_closed ((w_fileWriters w @ [fw]) ! i))
        = (\<forall>i\<in>set (fw_files (w_folders w ! k)). fr_closed (w_fileWriters w ! i))" if "k < length (w_folders w)" for k
      using mem [OF that] len by (simp add: nth_append)
    with parts(3) show ?thesis by (cases "w_solid w") (simp_all add: closedOk_def)
  qed
  moreover have "placeOk ?w outs" using parts(4) by (simp add: placeOk_def sequential_def)
  moreover have "coordinated ?w" using parts(5) by (simp add: coordinated_def queueOk_def sequential_def)
  ultimately show ?thesis by (simp add: dataInv_def)
qed

text \<open>An entry in a folder of its own.\<close>

lemma add_folder_members:
  assumes m: "membersOk w (length cs)" and len: "length (w_fileWriters w) = length cs"
    and fw: "fr_fold fw = Some (length (w_folders w))" and f: "fw_files f = [length cs]"
  shows "membersOk (w\<lparr>w_files := fs, w_folders := w_folders w @ [f], w_activeFold := a,
      w_fileWriters := w_fileWriters w @ [fw], w_current := c\<rparr>) (length (cs @ [[]]))"
    (is "membersOk ?w _")
proof (rule membersI)
  fix i k assume i: "i < length (cs @ [[]])" "fr_fold (w_fileWriters ?w ! i) = Some k"
  show "k < length (w_folders ?w) \<and> i \<in> set (fw_files (w_folders ?w ! k))"
  proof (cases "i = length cs")
    case True
    with i fw f len show ?thesis by (simp add: nth_append)
  next
    case False
    with i len membersD(1) [OF m, of i k] show ?thesis by (simp add: nth_append)
  qed
next
  fix k i assume k: "k < length (w_folders ?w)" "i \<in> set (fw_files (w_folders ?w ! k))"
  show "i < length (cs @ [[]]) \<and> fr_fold (w_fileWriters ?w ! i) = Some k"
  proof (cases "k = length (w_folders w)")
    case True
    with k fw f len show ?thesis by (simp add: nth_append)
  next
    case False
    with k len membersD(2) [OF m, of k i] show ?thesis by (simp add: nth_append)
  qed
qed

lemma add_folder_place:
  assumes p: "placeOk w outs" and co: "coordinated w" and spool: "fw_spool f = (if sequential w then None else Some [])"
    and closed: "sequential w \<Longrightarrow> \<forall>k<length (w_folders w). fw_closed (w_folders w ! k)"
  shows "placeOk (w\<lparr>w_files := fs, w_folders := w_folders w @ [f], w_activeFold := a,
      w_fileWriters := fws, w_current := c\<rparr>) (outs(length (w_folders w) := []))"
    (is "placeOk ?w ?outs")
proof -
  let ?N = "length (w_folders w)"
  have seq: "sequential ?w = sequential w" by (simp add: sequential_def)
  have same: "map ?outs [0..<n] = map outs [0..<n]" if "n \<le> ?N" for n using that by (intro map_cong) auto
  show ?thesis
  proof (cases "sequential w")
    case True
    have "concat (map ?outs [0..<Suc ?N]) = concat (map outs [0..<?N])" using same [of ?N] by simp
    with True p spool closed show ?thesis
      unfolding placeOk_def seq by (auto simp: nth_append less_Suc_eq)
  next
    case False
    have "{..<w_writeSeq w} \<subseteq> {k. k < ?N \<and> fw_closed (w_folders w ! k)}"
      using co False unfolding coordinated_def queueOk_def by blast
    then have "w_writeSeq w \<le> ?N" by (cases "?N < w_writeSeq w") auto
    then have "concat (map ?outs [0..<w_writeSeq w]) = concat (map outs [0..<w_writeSeq w])" by (simp only: same)
    with False p spool show ?thesis
      unfolding placeOk_def seq by (auto simp: nth_append less_Suc_eq)
  qed
qed

lemma add_folder:
  assumes data: "dataInv en w cs css outs" and len: "length (w_fileWriters w) = length cs"
    and fw: "fr_fold fw = Some (length (w_folders w))" "\<not> fr_closed fw"
    and f: "fw_files f = [length cs]" "folderHolds en (w_password w) f [] []" "fw_seq f = length (w_folders w)"
      "\<not> fw_closed f" "fw_spool f = (if sequential w then None else Some [])"
    and solid: "w_solid w \<Longrightarrow> w_folders w = []"
    and all: "sequential w \<Longrightarrow> \<forall>i<length cs. fr_closed (w_fileWriters w ! i)"
  shows "\<exists>css' outs'. dataInv en (w\<lparr>w_files := fs, w_folders := w_folders w @ [f], w_activeFold := a,
      w_fileWriters := w_fileWriters w @ [fw], w_current := c\<rparr>) (cs @ [[]]) css' outs'"
proof -
  let ?N = "length (w_folders w)"
  let ?w = "w\<lparr>w_files := fs, w_folders := w_folders w @ [f], w_activeFold := a,
      w_fileWriters := w_fileWriters w @ [fw], w_current := c\<rparr>"
  define css' where "css' = css(?N := [])"
  define outs' where "outs' = outs(?N := [])"
  have parts: "foldersOk en w cs css outs" "membersOk w (length cs)" "closedOk w" "placeOk w outs" "coordinated w"
    using data by (simp_all add: dataInv_def)
  have mem: "i < length cs" if "k < ?N" "i \<in> set (fw_files (w_folders w ! k))" for i k
    using membersD(2) [OF parts(2) that] by simp
  have seq: "sequential ?w = sequential w" by (simp add: sequential_def)
  have "foldersOk en ?w (cs @ [[]]) css' outs'"
    using parts(1) nth_old [OF parts(2)] f unfolding foldersOk_def
    by (auto simp: nth_append less_Suc_eq css'_def outs'_def)
  moreover have "membersOk ?w (length (cs @ [[]]))" by (rule add_folder_members [OF parts(2) len fw(1) f(1)])
  moreover have cl: "closedOk ?w"
  proof (cases "w_solid w")
    case True
    with solid f(4) show ?thesis by (simp add: closedOk_def)
  next
    case False
    have "length (fw_files (w_folders ?w ! k)) = 1 \<and> (fw_closed (w_folders ?w ! k) \<longleftrightarrow>
        (\<forall>i\<in>set (fw_files (w_folders ?w ! k)). fr_closed (w_fileWriters ?w ! i)))" if "k < length (w_folders ?w)" for k
    proof (cases "k = ?N")
      case True
      with f(1,4) fw(2) len show ?thesis by (simp add: nth_append)
    next
      case old: False
      with that have k: "k < ?N" by simp
      with mem [OF k] closedD(3,4) [OF parts(3) False k] len show ?thesis by (simp add: nth_append)
    qed
    then show ?thesis using False unfolding closedOk_def by simp
  qed
  moreover have "placeOk ?w outs'"
    unfolding outs'_def
  proof (rule add_folder_place [OF parts(4,5) f(5)])
    assume s: "sequential w"
    show "\<forall>k<?N. fw_closed (w_folders w ! k)"
    proof (intro allI impI)
      fix k assume k: "k < ?N"
      then have "\<not> w_solid w" using solid by auto
      then show "fw_closed (w_folders w ! k)" using closedD(4) [OF parts(3) _ k] all [OF s] mem [OF k] by simp
    qed
  qed
  moreover have "coordinated ?w"
  proof -
    have "{k. k < length (w_folders w @ [f]) \<and> fw_closed ((w_folders w @ [f]) ! k)} = {k. k < ?N \<and> fw_closed (w_folders w ! k)}"
      using f(4) by (auto simp: nth_append less_Suc_eq)
    with parts(5) show ?thesis unfolding coordinated_def seq by (auto simp: queueOk_def)
  qed
  ultimately have "dataInv en ?w (cs @ [[]]) css' outs'" by (simp add: dataInv_def)
  then show ?thesis by blast
qed

text \<open>An entry in the folder of a solid archive.\<close>

lemma add_to_folder:
  assumes data: "dataInv en w cs css outs" and len: "length (w_fileWriters w) = length cs"
    and fw: "fr_fold fw = Some 0" and solid: "w_solid w" and one: "w_folders w = [g]"
  shows "dataInv en (w\<lparr>w_files := fs, w_folders := [g\<lparr>fw_files := fw_files g @ [length cs], fw_fileCount := m, fw_uncompSize := n\<rparr>],
      w_fileWriters := w_fileWriters w @ [fw], w_current := c\<rparr>) (cs @ [[]]) css outs"
proof -
  let ?g = "g\<lparr>fw_files := fw_files g @ [length cs], fw_fileCount := m, fw_uncompSize := n\<rparr>"
  let ?w = "w\<lparr>w_files := fs, w_folders := [?g], w_fileWriters := w_fileWriters w @ [fw], w_current := c\<rparr>"
  have parts: "foldersOk en w cs css outs" "membersOk w (length cs)" "closedOk w" "placeOk w outs" "coordinated w"
    using data by (simp_all add: dataInv_def)
  have "foldersOk en ?w (cs @ [[]]) css outs"
    using parts(1) nth_old [OF parts(2), of 0 "[[]]"] unfolding foldersOk_def by (simp add: one)
  moreover have "membersOk ?w (length (cs @ [[]]))"
  proof (rule membersI)
    fix i k assume i: "i < length (cs @ [[]])" "fr_fold (w_fileWriters ?w ! i) = Some k"
    show "k < length (w_folders ?w) \<and> i \<in> set (fw_files (w_folders ?w ! k))"
    proof (cases "i = length cs")
      case True
      with i fw len show ?thesis by (simp add: nth_append)
    next
      case False
      with i len membersD(1) [OF parts(2), of i k] show ?thesis by (auto simp: nth_append one)
    qed
  next
    fix k i assume k: "k < length (w_folders ?w)" "i \<in> set (fw_files (w_folders ?w ! k))"
    show "i < length (cs @ [[]]) \<and> fr_fold (w_fileWriters ?w ! i) = Some k"
    proof (cases "i = length cs")
      case True
      with k fw len show ?thesis by (simp add: nth_append)
    next
      case False
      with k len membersD(2) [OF parts(2), of k i] show ?thesis by (simp add: nth_append one)
    qed
  qed
  moreover have "closedOk ?w" using parts(3) solid by (simp add: closedOk_def one)
  moreover have "placeOk ?w outs" using parts(4) solid by (simp add: placeOk_def sequential_def one)
  moreover have "coordinated ?w" using solid by (simp add: coordinated_def sequential_def)
  ultimately show ?thesis by (simp add: dataInv_def)
qed

lemma CreateHeader_data:
  assumes inv: "writerInv w cs" and data: "dataInv en w cs css outs"
    and w': "CreateHeader en w fh salt iv = Inr w'" and salts: "length salt = 8" "length iv = 16"
  shows "\<exists>css' outs'. dataInv en w' (cs @ [[]]) css' outs'"
proof -
  obtain w0 where close: "(case w_current w of
                Some i \<Rightarrow> if w_solid w \<or> w_concurrency w \<le> 1 then fileClose en w i else Inr w
              | None \<Rightarrow> Inr w) = Inr w0"
    using w' by (auto simp: CreateHeader_def split: if_splits sum.splits)
  note inv0 = current_closed [OF inv close]
  have cur: "w_current w = (if cs = [] then None else Some (length cs - 1))"
    using inv by (simp add: writerInv_def)
  obtain outs0 where data0: "dataInv en w0 cs css outs0"
    using close cur data fileClose_data [OF inv data, of "length cs - 1" w0]
    by (auto split: if_splits option.splits)
  define fh1 where "fh1 = fh\<lparr>fh_isEmptyStream := modeIsDir (Mode fh), fh_isEmptyFile := False\<rparr>"
  define d where "d = chooseDictCap en (w_solid w0) (fh_UncompressedSize fh1)"
  define fi where "fi = \<lparr>fl_fh = fh1, fl_propByte = encodeDictCap (en_lzma en) d, fl_uncompSize = 0, fl_crc32 = 0\<rparr>"
  define w1 where "w1 = w0\<lparr>w_files := w_files w0 @ [fi]\<rparr>"
  have lens: "length (w_files w0) = length cs" "length (w_fileWriters w0) = length cs"
    and act: "w_activeFold w0 = (if w_folders w0 = [] then None else Some (length (w_folders w0) - 1))"
    using inv0(1) by (simp_all add: writerInv_def)
  show ?thesis
  proof (cases "fh_isEmptyStream fh1")
    case True
    then have "w' = addFileWriter w1 (length cs) None"
      using w' close lens
      by (simp add: CreateHeader_def Let_def fh1_def d_def fi_def w1_def split: if_splits)
    then have e: "w' = w0\<lparr>w_files := w_files w0 @ [fi], w_fileWriters := w_fileWriters w0 @ [\<lparr>fr_fi = length cs, fr_crc32Hash = 0,
        fr_uncompSize = 0, fr_closed = False, fr_fold = None\<rparr>], w_current := Some (length cs)\<rparr>"
      using lens by (simp add: addFileWriter_def w1_def)
    have "dataInv en w' (cs @ [[]]) css outs0" unfolding e by (rule add_directory [OF data0 lens(2)]) simp
    then show ?thesis by blast
  next
    case False
    let ?N = "length (w_folders w0)"
    let ?fw = "\<lambda>k. \<lparr>fr_fi = length cs, fr_crc32Hash = 0, fr_uncompSize = 0, fr_closed = False, fr_fold = Some k\<rparr>"
    have d0: "membersOk w0 (length cs)" "closedOk w0" using data0 by (simp_all add: dataInv_def)
    have last_closed: "fw_closed (w_folders w1 ! (length (w_folders w1) - 1))"
      if "\<not> w_solid w1" "w_concurrency w1 \<le> 1" "w_folders w1 \<noteq> []"
    proof -
      have s: "\<not> w_solid w0" "sequential w0" and k: "?N - 1 < ?N" using that by (simp_all add: w1_def sequential_def)
      from closedD(4) [OF d0(2) s(1) k] inv0(2) [OF s(2)] membersD(2) [OF d0(1) k] show ?thesis by (simp add: w1_def)
    qed
    have ens: "ensureFolder en w1 fi d salt iv =
      (if w_solid w1 \<and> w_folders w1 \<noteq> [] then (length (w_folders w1) - 1, w1)
       else (length (w_folders w1), w1\<lparr>w_activeFold := Some (length (w_folders w1)),
               w_folders := w_folders w1 @ [newFolderWriter en w1 fi d salt iv]\<rparr>))"
    proof (rule ensureFolder_cases)
      show "w_activeFold w1 = (if w_folders w1 = [] then None else Some (length (w_folders w1) - 1))"
        using act by (simp add: w1_def)
    qed (rule last_closed)
    have w'eq: "w' = (let (k, w2) = ensureFolder en w1 fi d salt iv; f = w_folders w2 ! k;
        f = f\<lparr>fw_files := fw_files f @ [length cs], fw_fileCount := fw_fileCount f + 1,
              fw_uncompSize := fw_uncompSize f + sint (fh_UncompressedSize fh1)\<rparr>
      in addFileWriter (w2\<lparr>w_folders := (w_folders w2)[k := f]\<rparr>) (length cs) (Some k))"
      using w' close lens False
      by (simp add: CreateHeader_def Let_def fh1_def d_def fi_def w1_def split_beta split: if_splits)
    show ?thesis
    proof (cases "w_solid w0 \<and> w_folders w0 \<noteq> []")
      case True
      then have "?N = 1" using closedD(1) [OF d0(2)] by (cases "w_folders w0") auto
      then obtain g where g: "w_folders w0 = [g]" by (cases "w_folders w0") auto
      have e: "w' = w0\<lparr>w_files := w_files w0 @ [fi], w_folders := [g\<lparr>fw_files := fw_files g @ [length cs], fw_fileCount := fw_fileCount g + 1,
              fw_uncompSize := fw_uncompSize g + sint (fh_UncompressedSize fh1)\<rparr>],
          w_fileWriters := w_fileWriters w0 @ [?fw 0], w_current := Some (length cs)\<rparr>"
      proof -
        have r: "ensureFolder en w1 fi d salt iv = (0, w1)" unfolding ens using True g by (simp add: w1_def)
        show ?thesis unfolding w'eq r using g lens by (simp add: w1_def addFileWriter_def)
      qed
      have "dataInv en w' (cs @ [[]]) css outs0"
        unfolding e by (rule add_to_folder [OF data0 lens(2) _ _ g]) (use True in simp_all)
      then show ?thesis by blast
    next
      case new: False
      define nf where "nf = newFolderWriter en w1 fi d salt iv"
      have "fl_propByte fi = encodeDictCap (en_lzma en) d" by (simp add: fi_def)
      note nfw = newFolderWriter_holds [OF salts this d_def, of w1, folded nf_def]
      define f where "f = nf\<lparr>fw_files := fw_files nf @ [length cs], fw_fileCount := fw_fileCount nf + 1,
              fw_uncompSize := fw_uncompSize nf + sint (fh_UncompressedSize fh1)\<rparr>"
      have f: "fw_files f = [length cs]" "folderHolds en (w_password w0) f [] []" "fw_seq f = ?N" "\<not> fw_closed f"
          "fw_spool f = (if sequential w0 then None else Some [])"
        using nfw by (simp_all add: f_def w1_def sequential_def)
      have e: "w' = w0\<lparr>w_files := w_files w0 @ [fi], w_folders := w_folders w0 @ [f], w_activeFold := Some ?N,
          w_fileWriters := w_fileWriters w0 @ [?fw ?N], w_current := Some (length cs)\<rparr>"
      proof -
        have r: "ensureFolder en w1 fi d salt iv = (?N, w1\<lparr>w_activeFold := Some ?N, w_folders := w_folders w0 @ [nf]\<rparr>)"
          unfolding ens using new by (auto simp: w1_def nf_def)
        show ?thesis unfolding w'eq r using lens by (simp add: w1_def addFileWriter_def f_def)
      qed
      show ?thesis unfolding e by (rule add_folder [OF data0 lens(2) _ _ f _ inv0(2)]) (use new in auto)
    qed
  qed
qed

section \<open>The coordinator\<close>

text \<open>The invariant while the coordinator copies spools.\<close>

lemma coordFlush_data:
  assumes "foldersOk en w cs css outs" "membersOk w n" "closedOk w" "placeOk w outs" "queueOk w" "\<not> sequential w"
  shows "placeOk (coordFlush w) outs \<and> queueOk (coordFlush w)
    \<and> w_writeSeq (coordFlush w) \<notin> snd ` set (w_folderMap (coordFlush w))
    \<and> w_folders (coordFlush w) = w_folders w"
  using assms
proof (induction w rule: coordFlush.induct)
  case (1 w)
  have q: "set (w_spools w) \<union> snd ` set (w_folderMap w) \<union> {..<w_writeSeq w}
      = {k. k < length (w_folders w) \<and> fw_closed (w_folders w ! k)}" "\<forall>e\<in>set (w_folderMap w). fst e = snd e"
    using "1.prems"(5) by (simp_all add: queueOk_def)
  show ?case
  proof (cases "map_of (w_folderMap w) (w_writeSeq w)")
    case None
    then have "w_writeSeq w \<notin> fst ` set (w_folderMap w)" by (simp add: map_of_eq_None_iff)
    then have "w_writeSeq w \<notin> snd ` set (w_folderMap w)" using q(2) by force
    moreover have "coordFlush w = w" using None by (subst coordFlush.simps) simp
    ultimately show ?thesis using "1.prems"(4,5) by simp
  next
    case (Some k)
    then have mem: "(w_writeSeq w, k) \<in> set (w_folderMap w)" by (rule map_of_SomeD)
    with q(2) have k: "k = w_writeSeq w" by auto
    then have "k \<in> set (w_spools w) \<union> snd ` set (w_folderMap w) \<union> {..<w_writeSeq w}" using mem by force
    then have kn: "k < length (w_folders w)" unfolding q(1) by simp
    let ?w = "w\<lparr>w_w := seekWrite (w_w w) (case fw_spool (w_folders w ! k) of None \<Rightarrow> [] | Some sp \<Rightarrow> sp),
               w_folderMap := filter (\<lambda>e. fst e \<noteq> w_writeSeq w) (w_folderMap w),
               w_writeSeq := Suc (w_writeSeq w)\<rparr>"
    have ns: "\<not> sequential ?w" using "1.prems"(6) by (simp add: sequential_def)
    have spool: "fw_spool (w_folders w ! k) = Some (outs k)" and ok: "skOk (w_w w)"
      and body: "skBody (w_w w) = concat (map outs [0..<w_writeSeq w])"
      using "1.prems"(4,6) kn by (simp_all add: placeOk_def)
    have "placeOk ?w outs"
      using "1.prems"(4,6) ns seekWrite_body [OF ok] body by (simp add: placeOk_def spool [unfolded k] k)
    moreover have "queueOk ?w"
    proof -
      have "snd ` set (filter (\<lambda>e. fst e \<noteq> w_writeSeq w) (w_folderMap w)) \<union> {..<Suc (w_writeSeq w)}
          = snd ` set (w_folderMap w) \<union> {..<w_writeSeq w}"
        using q(2) mem k by (force simp: lessThan_Suc image_iff)
      note eq = this
      have "set (w_spools w) \<union> snd ` set (filter (\<lambda>e. fst e \<noteq> w_writeSeq w) (w_folderMap w)) \<union> {..<Suc (w_writeSeq w)}
          = {k. k < length (w_folders w) \<and> fw_closed (w_folders w ! k)}"
        unfolding Un_assoc eq using q(1) by (simp only: Un_assoc)
      then show ?thesis unfolding queueOk_def using q(2) by simp
    qed
    moreover have "foldersOk en ?w cs css outs" "membersOk ?w n" "closedOk ?w"
    proof -
      have "foldersOk en ?w cs css outs = foldersOk en w cs css outs" by (simp add: foldersOk_def)
      then show "foldersOk en ?w cs css outs" using "1.prems"(1) by simp
      have "membersOk ?w n = membersOk w n" by (simp add: membersOk_def)
      then show "membersOk ?w n" using "1.prems"(2) by simp
      have "closedOk ?w = closedOk w" by (simp add: closedOk_def)
      then show "closedOk ?w" using "1.prems"(3) by simp
    qed
    ultimately have "placeOk (coordFlush ?w) outs \<and> queueOk (coordFlush ?w)
        \<and> w_writeSeq (coordFlush ?w) \<notin> snd ` set (w_folderMap (coordFlush ?w)) \<and> w_folders (coordFlush ?w) = w_folders ?w"
      using ns by (intro "1.IH" [OF Some])
    moreover have "coordFlush w = coordFlush ?w" using Some by (subst coordFlush.simps) simp
    ultimately show ?thesis by simp
  qed
qed

lemma coordStep_data:
  assumes data: "dataInv en w cs css outs"
  shows "dataInv en (coordStep w) cs css outs"
proof (cases "w_spools w")
  case Nil
  with data show ?thesis by (simp add: coordStep_def)
next
  case (Cons k ks)
  have parts: "foldersOk en w cs css outs" "membersOk w (length cs)" "closedOk w" "placeOk w outs" "coordinated w"
    using data by (simp_all add: dataInv_def)
  have ns: "\<not> sequential w" using parts(4) Cons by (auto simp: placeOk_def)
  have q: "set (w_spools w) \<union> snd ` set (w_folderMap w) \<union> {..<w_writeSeq w}
      = {k. k < length (w_folders w) \<and> fw_closed (w_folders w ! k)}" "\<forall>e\<in>set (w_folderMap w). fst e = snd e"
    using parts(5) ns by (simp_all add: coordinated_def queueOk_def)
  have "k \<in> set (w_spools w) \<union> snd ` set (w_folderMap w) \<union> {..<w_writeSeq w}" using Cons by simp
  then have "k < length (w_folders w)" unfolding q(1) by simp
  then have seq: "fw_seq (w_folders w ! k) = k" using parts(1) by (simp add: foldersOk_def)
  define v where "v = w\<lparr>w_spools := ks, w_folderMap := (k, k) # w_folderMap w\<rparr>"
  have step: "coordStep w = coordFlush v" using Cons seq by (simp add: coordStep_def v_def)
  have nv: "\<not> sequential v" using ns by (simp add: v_def sequential_def)
  have "foldersOk en v cs css outs = foldersOk en w cs css outs" "membersOk v (length cs) = membersOk w (length cs)"
    "closedOk v = closedOk w"
    by (simp_all add: v_def foldersOk_def membersOk_def closedOk_def)
  with parts have pv: "foldersOk en v cs css outs" "membersOk v (length cs)" "closedOk v" by simp_all
  have pl: "placeOk v outs" using parts(4) ns nv by (simp add: placeOk_def) (simp add: v_def)
  have "set ks \<union> snd ` set ((k, k) # w_folderMap w) \<union> {..<w_writeSeq w}
      = set (w_spools w) \<union> snd ` set (w_folderMap w) \<union> {..<w_writeSeq w}" using Cons by auto
  then have qv: "queueOk v" using q by (simp add: queueOk_def v_def)
  note fl = coordFlush_data [OF pv pl qv nv]
  have same: "sameTables v (coordFlush v)" by (rule coordFlush_same)
  have "foldersOk en (coordFlush v) cs css outs = foldersOk en v cs css outs"
    using fl same by (simp add: foldersOk_def sameTables_def)
  moreover have "membersOk (coordFlush v) (length cs)" using membersOk_same [OF same pv(2)] .
  moreover have "closedOk (coordFlush v)" using closedOk_same [OF same _ pv(3)] fl by simp
  ultimately show ?thesis unfolding step dataInv_def coordinated_def using fl pv(1) by simp
qed

section \<open>Runs\<close>

text \<open>What a client chooses once.\<close>

definition settings :: "'z writer \<Rightarrow> bool \<times> int \<times> byte list \<times> bool" where
  "settings w = (w_solid w, w_concurrency w, w_password w, w_closed w)"

lemma settings_same: "sameTables w w' \<Longrightarrow> settings w' = settings w"
  by (simp add: settings_def sameTables_def)

lemma fileWrite_settings: "fileWrite en w i p = Inr w' \<Longrightarrow> settings w' = settings w"
  using folderWrite_same [of w en] by (auto simp: settings_def fileWrite_def Let_def sameTables_def split: if_splits option.splits)

lemma CreateHeader_settings:
  assumes inv: "writerInv w cs" and w': "CreateHeader en w fh salt iv = Inr w'"
  shows "settings w' = settings w"
proof -
  obtain w0 where close: "(case w_current w of
                Some i \<Rightarrow> if w_solid w \<or> w_concurrency w \<le> 1 then fileClose en w i else Inr w
              | None \<Rightarrow> Inr w) = Inr w0"
    using w' by (auto simp: CreateHeader_def split: if_splits sum.splits)
  have p0: "settings w0 = settings w"
    using close inv fileClose_inv [OF inv, of "length cs - 1" en w0]
    by (auto simp: writerInv_def settings_def split: if_splits option.splits)
  have ens: "settings (snd (ensureFolder en v fi d salt iv)) = settings v" for v fi d
    using folderClose_same [of v en] by (simp add: settings_def ensureFolder_def sameTables_def Let_def split: option.split)
  show ?thesis
    using w' close p0 ens by (auto simp: settings_def CreateHeader_def Let_def addFileWriter_def split_beta split: if_splits)
qed

lemma writerRun_data:
  assumes "writerRun en (newWriter s solid password concurrency) w cs"
  shows "settings w = (solid, concurrency, password, False) \<and> (\<exists>css outs. dataInv en w cs css outs)"
  using assms
proof induction
  case start
  have "dataInv en (newWriter s solid password concurrency) [] (\<lambda>_. []) (\<lambda>_. [])"
    by (simp add: dataInv_def foldersOk_def membersOk_def closedOk_def placeOk_def coordinated_def queueOk_def
        newWriter_def skOk_def skBody_def)
  then show ?case by (auto simp: newWriter_def settings_def)
next
  case (create w cs salt iv fh w')
  note inv = writerRun_inv [OF create.hyps(1)]
  from create.IH obtain css outs where "dataInv en w cs css outs" by blast
  from CreateHeader_data [OF inv this create.hyps(4,2,3)] CreateHeader_settings [OF inv create.hyps(4)] create.IH
  show ?case by simp
next
  case (fwrite w cs i p w')
  note inv = writerRun_inv [OF fwrite.hyps(1)]
  from fwrite.IH obtain css outs where "dataInv en w cs css outs" by blast
  from fileWrite_data [OF inv this fwrite.hyps(2,3)] fileWrite_settings [OF fwrite.hyps(3)] fwrite.IH
  show ?case by simp
next
  case (fclose w cs i w')
  note inv = writerRun_inv [OF fclose.hyps(1)]
  from fclose.IH obtain css outs where "dataInv en w cs css outs" by blast
  from fileClose_data [OF inv this fclose.hyps(2,3)] fileClose_inv [OF inv fclose.hyps(2,3)] fclose.IH
  show ?case by (auto simp: settings_def)
next
  case (coord w cs)
  then obtain css outs where "dataInv en w cs css outs" by blast
  from coordStep_data [OF this] settings_same [OF coordStep_same [of w]] coord.IH show ?case by auto
qed

section \<open>The end of a run\<close>

text \<open>All folders are complete and lie one after the other behind the signature header.\<close>

definition dataFinal ::
    "'z env \<Rightarrow> 'z writer \<Rightarrow> byte list list \<Rightarrow> (nat \<Rightarrow> byte list list) \<Rightarrow> (nat \<Rightarrow> byte list) \<Rightarrow> bool" where
  "dataFinal en w cs css outs \<longleftrightarrow>
     foldersOk en w cs css outs \<and> (\<forall>k<length (w_folders w). fw_closed (w_folders w ! k))
     \<and> skOk (w_w w) \<and> skBody (w_w w) = concat (map outs [0..<length (w_folders w)])"

lemma coordDrain_data: "dataInv en w cs css outs \<Longrightarrow> dataInv en (coordDrain w) cs css outs \<and> w_spools (coordDrain w) = []"
proof (induction w rule: coordDrain.induct)
  case (1 w)
  show ?case
  proof (cases "w_spools w = []")
    case True
    then have "coordDrain w = w" by (subst coordDrain.simps) simp
    with True 1 show ?thesis by simp
  next
    case False
    then have "coordDrain w = coordDrain (coordStep w)" by (subst coordDrain.simps) simp
    with "1.IH" [OF False coordStep_data [OF "1.prems"]] show ?thesis by simp
  qed
qed

lemma dataInv_closed: "dataInv en (w\<lparr>w_closed := b\<rparr>) cs css outs = dataInv en w cs css outs"
  by (simp add: dataInv_def foldersOk_def membersOk_def closedOk_def placeOk_def coordinated_def queueOk_def sequential_def)

lemma dataInv_spoolsClosed: "dataInv en (w\<lparr>w_spoolsClosed := b\<rparr>) cs css outs = dataInv en w cs css outs"
  by (simp add: dataInv_def foldersOk_def membersOk_def closedOk_def placeOk_def coordinated_def queueOk_def sequential_def)

text \<open>First the current file is closed, and with it all of them are.\<close>

lemma closeCurrent_data:
  assumes inv: "writerInv w cs" and data: "dataInv en w cs css outs"
    and w1: "(case w_current w of Some i \<Rightarrow> fileClose en w i | None \<Rightarrow> Inr w) = Inr w1"
    and closed: "\<forall>i<length cs - 1. fr_closed (w_fileWriters w ! i)"
  shows "\<exists>outs1. dataInv en w1 cs css outs1 \<and> writerInv w1 cs \<and> (\<forall>i<length cs. fr_closed (w_fileWriters w1 ! i))
    \<and> w_password w1 = w_password w"
proof (cases "cs = []")
  case True
  then have "w1 = w" using w1 inv by (simp add: writerInv_def)
  with True data inv show ?thesis by auto
next
  case False
  then have i: "length cs - 1 < length cs" and c: "fileClose en w (length cs - 1) = Inr w1"
    using w1 inv by (simp_all add: writerInv_def)
  have others: "\<forall>i<length cs - 1. fr_closed (w_fileWriters w1 ! i)"
    using closed fileClose_closed [OF c] by simp
  note ci = fileClose_inv [OF inv i c]
  have "\<forall>i<length cs. fr_closed (w_fileWriters w1 ! i)"
    using others ci by (metis Suc_diff_1 False length_greater_0_conv less_SucE)
  with fileClose_data [OF inv data i c] ci show ?thesis by auto
qed

lemma folders_closed:
  assumes data: "dataInv en w cs css outs" and all: "\<forall>i<length cs. fr_closed (w_fileWriters w ! i)"
    and k: "\<not> w_solid w" "k < length (w_folders w)"
  shows "fw_closed (w_folders w ! k)"
proof -
  have "closedOk w" "membersOk w (length cs)" using data by (simp_all add: dataInv_def)
  with closedD(4) [OF _ k] all membersD(2) [OF _ k(2)] show ?thesis by blast
qed

text \<open>The folder of a solid archive is closed last.\<close>

lemma closeSolid_final:
  assumes d: "dataInv en w cs css outs" and solid: "w_solid w" and ne: "w_folders w \<noteq> []"
  shows "length (w_folders w) = 1 \<and> (\<exists>outs'. dataFinal en (folderClose en w 0) cs css outs')"
proof -
  have c: "closedOk w" using d by (simp add: dataInv_def)
  have n: "length (w_folders w) = 1" using closedD(1) [OF c solid] ne by (cases "w_folders w") auto
  let ?v = "folderClose en w 0"
  have k: "0 < length (w_folders w)" "\<not> fw_closed (w_folders w ! 0)" "sequential w \<Longrightarrow> Suc 0 = length (w_folders w)"
    using n closedD(2) [OF c solid, of 0] by simp_all
  from finish_folder [OF d k] obtain outs' where f: "foldersOk en ?v cs css outs'" "placeOk ?v outs'"
    "\<forall>j. fw_closed (w_folders ?v ! j) = (j = 0 \<or> fw_closed (w_folders w ! j))" by blast
  have len: "length (w_folders ?v) = 1" "sequential ?v"
    using sameTables_length [OF folderClose_same [of w en 0]] n solid folderClose_same [of w en 0]
    by (simp_all add: sequential_def sameTables_def)
  have "dataFinal en ?v cs css outs'" using f len by (simp add: dataFinal_def placeOk_def)
  with n show ?thesis by blast
qed

text \<open>A drained coordinator has written all folders.\<close>

lemma drained_final:
  assumes d: "dataInv en w cs css outs" and conc: "\<not> sequential w"
    and all: "\<forall>i<length cs. fr_closed (w_fileWriters w ! i)"
  shows "w_password (coordDrain w) = w_password w \<and> dataFinal en (coordDrain w) cs css outs"
proof -
  let ?w' = "coordDrain w"
  have dr: "dataInv en ?w' cs css outs" "w_spools ?w' = []" using coordDrain_data [OF d] by simp_all
  have same: "sameTables w ?w'" by (rule coordDrain_same)
  then have t: "w_solid ?w' = w_solid w" "w_fileWriters ?w' = w_fileWriters w" "sequential ?w' = sequential w"
    "w_password ?w' = w_password w"
    by (simp_all add: sameTables_def sequential_def)
  have parts: "foldersOk en ?w' cs css outs" "placeOk ?w' outs" "coordinated ?w'"
    using dr(1) by (simp_all add: dataInv_def)
  have cl: "fw_closed (w_folders ?w' ! k)" if "k < length (w_folders ?w')" for k
    using folders_closed [OF dr(1) _ _ that] all conc t by (simp add: sequential_def)
  have q: "snd ` set (w_folderMap ?w') \<union> {..<w_writeSeq ?w'} = {k. k < length (w_folders ?w') \<and> fw_closed (w_folders ?w' ! k)}"
    "w_writeSeq ?w' \<notin> snd ` set (w_folderMap ?w')"
    using parts(3) conc t(3) dr(2) by (simp_all add: coordinated_def queueOk_def)
  have "w_writeSeq ?w' \<noteq> length (w_folders ?w') \<Longrightarrow>
      w_writeSeq ?w' < length (w_folders ?w') \<or> length (w_folders ?w') \<in> {..<w_writeSeq ?w'}" by auto
  then have "w_writeSeq ?w' = length (w_folders ?w')" using q cl by blast
  then show ?thesis using parts(1,2) cl conc t by (simp add: dataFinal_def placeOk_def)
qed

lemma closeStreams_data:
  assumes inv: "writerInv w cs" and data: "dataInv en w cs css outs"
    and w': "closeStreams en (w\<lparr>w_closed := True\<rparr>) = Inr w'"
    and closed: "\<forall>i<length cs - 1. fr_closed (w_fileWriters w ! i)"
  shows "w_password w' = w_password w \<and> (\<exists>outs'. dataFinal en w' cs css outs')"
proof -
  let ?w = "w\<lparr>w_closed := True\<rparr>"
  have "writerInv ?w cs" "dataInv en ?w cs css outs"
    using inv data by (auto simp: writerInv_def sequential_def tablesOk_def dataInv_closed)
  moreover obtain w1 where w1: "(case w_current ?w of Some i \<Rightarrow> fileClose en ?w i | None \<Rightarrow> Inr ?w) = Inr w1"
    using w' by (auto simp: closeStreams_def split: sum.splits)
  ultimately obtain outs1 where d: "dataInv en w1 cs css outs1" and inv2: "writerInv w1 cs"
    and all: "\<forall>i<length cs. fr_closed (w_fileWriters w1 ! i)" and p1: "w_password w1 = w_password w"
    using closeCurrent_data [of ?w cs en css outs w1] closed by auto
  have parts: "foldersOk en w1 cs css outs1" "placeOk w1 outs1" using d by (simp_all add: dataInv_def)
  have act: "w_activeFold w1 = (if w_folders w1 = [] then None else Some (length (w_folders w1) - 1))"
    using inv2 by (simp add: writerInv_def)
  consider (empty) "w_solid w1" "w_folders w1 = []" | (solid) "w_solid w1" "w_folders w1 \<noteq> []"
    | (direct) "\<not> w_solid w1" "sequential w1" | (conc) "\<not> sequential w1" by blast
  then show ?thesis
  proof cases
    case empty
    then have "w' = w1" using w' w1 act unfolding closeStreams_def by simp
    moreover have "dataFinal en w1 cs css outs1"
      using parts empty by (simp add: dataFinal_def placeOk_def sequential_def)
    ultimately show ?thesis using p1 by blast
  next
    case solid
    let ?v = "folderClose en w1 0"
    from closeSolid_final [OF d solid] obtain outs' where n: "length (w_folders w1) = 1" and f: "dataFinal en ?v cs css outs'" by blast
    have w'v: "w' = ?v\<lparr>w_activeFold := None\<rparr>"
      using w' w1 act solid n folderClose_same [of w1 en 0] unfolding closeStreams_def by (simp add: sameTables_def)
    have "dataFinal en w' cs css outs'" using f by (simp add: w'v dataFinal_def foldersOk_def)
    moreover have "w_password w' = w_password w" using p1 folderClose_same [of w1 en 0] by (simp add: w'v sameTables_def)
    ultimately show ?thesis by blast
  next
    case direct
    then have "w' = w1" using w' w1 act unfolding closeStreams_def by (auto simp: sequential_def split: option.splits)
    moreover have "dataFinal en w1 cs css outs1"
      using parts folders_closed [OF d all] direct by (simp add: dataFinal_def placeOk_def)
    ultimately show ?thesis using p1 by blast
  next
    case conc
    then have "w' = coordDrain (w1\<lparr>w_spoolsClosed := True\<rparr>)"
      using w' w1 act unfolding closeStreams_def by (auto simp: sequential_def split: option.splits if_splits)
    moreover have "dataInv en (w1\<lparr>w_spoolsClosed := True\<rparr>) cs css outs1" using d by (simp only: dataInv_spoolsClosed)
    ultimately show ?thesis using drained_final [of en "w1\<lparr>w_spoolsClosed := True\<rparr>"] conc all p1 by (auto simp: sequential_def)
  qed
qed

section \<open>Progress of the coordinator\<close>

lemma coordFlush_folders: "w_folders (coordFlush w) = w_folders w"
  by (induction w rule: coordFlush.induct) (subst coordFlush.simps, simp split: option.split)

lemma coordStep_folders: "w_folders (coordStep w) = w_folders w"
  by (simp add: coordStep_def coordFlush_folders split: list.split)

lemma coordStep_spools: "w_spools (coordStep w) = tl (w_spools w)"
  by (simp add: coordStep_def split: list.split)

text \<open>One turn of the coordinator per folder in the queue.\<close>

lemma coordDrain_turns: "coordDrain w = (coordStep ^^ length (w_spools w)) w"
proof (induction w rule: coordDrain.induct)
  case (1 w)
  show ?case
  proof (cases "w_spools w = []")
    case True
    then show ?thesis by (subst coordDrain.simps) simp
  next
    case False
    then have "length (w_spools w) = Suc (length (w_spools (coordStep w)))" by (simp add: coordStep_spools)
    moreover have "coordDrain w = coordDrain (coordStep w)" using False by (subst coordDrain.simps) simp
    ultimately show ?thesis using "1.IH" [OF False] by (simp add: funpow_swap1)
  qed
qed

lemma coordDrain_folders: "w_folders (coordDrain w) = w_folders w"
proof -
  have "w_folders ((coordStep ^^ n) w) = w_folders w" for n by (induction n) (simp_all add: coordStep_folders)
  then show ?thesis by (simp add: coordDrain_turns)
qed

lemma coordinator_progress:
  assumes data: "dataInv en w cs css outs" and ns: "\<not> sequential w"
  shows "w_spools (coordDrain w) = []
    \<and> skBody (w_w (coordDrain w)) = concat (map (\<lambda>f. the (fw_spool f)) (takeWhile fw_closed (w_folders w)))"
proof -
  let ?v = "coordDrain w" and ?fs = "w_folders w"
  have d: "dataInv en ?v cs css outs" "w_spools ?v = []" using coordDrain_data [OF data] by simp_all
  have fs: "w_folders ?v = ?fs" by (rule coordDrain_folders)
  have nv: "\<not> sequential ?v" using ns coordDrain_same [of w] by (simp add: sameTables_def sequential_def)
  have sp: "\<forall>k<length ?fs. fw_spool (?fs ! k) = Some (outs k)" and body: "skBody (w_w ?v) = concat (map outs [0..<w_writeSeq ?v])"
    using d(1) nv by (simp_all add: dataInv_def placeOk_def fs)
  have q: "snd ` set (w_folderMap ?v) \<union> {..<w_writeSeq ?v} = {k. k < length ?fs \<and> fw_closed (?fs ! k)}"
    "w_writeSeq ?v \<notin> snd ` set (w_folderMap ?v)"
    using d nv by (simp_all add: dataInv_def coordinated_def queueOk_def fs)
  have done': "k < length ?fs \<and> fw_closed (?fs ! k)" if "k < w_writeSeq ?v" for k
  proof -
    have "k \<in> snd ` set (w_folderMap ?v) \<union> {..<w_writeSeq ?v}" using that by simp
    then show ?thesis unfolding q(1) by simp
  qed
  have "\<not> fw_closed (?fs ! w_writeSeq ?v)" if "w_writeSeq ?v < length ?fs"
  proof
    assume "fw_closed (?fs ! w_writeSeq ?v)"
    then have "w_writeSeq ?v \<in> snd ` set (w_folderMap ?v) \<union> {..<w_writeSeq ?v}" unfolding q(1) using that by simp
    with q(2) show False by simp
  qed
  then have prefix: "takeWhile fw_closed ?fs = take (w_writeSeq ?v) ?fs"
    using done' by (intro takeWhile_eq_take_P_nth) auto
  have "w_writeSeq ?v \<le> length ?fs" using done' by (meson not_less less_irrefl)
  then have "map (\<lambda>f. the (fw_spool f)) (take (w_writeSeq ?v) ?fs) = map outs [0..<w_writeSeq ?v]"
    using sp by (intro nth_equalityI) simp_all
  with prefix body d(2) show ?thesis by simp
qed

text \<open>
  C7: The coordinator makes progress and holds nothing back: in every run of a writer that compresses files
  concurrently, after as many of its turns as there are folders in its queue the queue is
  empty, and the archive holds exactly the longest prefix of finished folders, in order; a
  folder waits only for folders before it that are still open.
\<close>

theorem coordinator_holds_nothing_back:
  assumes "writerRun en (newWriter s False password concurrency) w cs" and "1 < concurrency"
  shows "let v = (coordStep ^^ length (w_spools w)) w in
    w_spools v = [] \<and> skBody (w_w v) = concat (map (\<lambda>f. the (fw_spool f)) (takeWhile fw_closed (w_folders w)))"
proof -
  from writerRun_data [OF assms(1)] obtain css outs where d: "dataInv en w cs css outs" and "\<not> sequential w"
    using assms(2) by (auto simp: settings_def sequential_def)
  with coordinator_progress show ?thesis by (simp add: coordDrain_turns Let_def)
qed

text \<open>Two files at once, the second closed first.\<close>

definition concRun :: "nat \<Rightarrow> unit writer" where
  "concRun n =
     (let w = newWriter \<lparr>sk_data = [], sk_pos = 0\<rparr> False [] 2;
          w = getOk (Create plainEnv w [0x61] (replicate 8 0) (replicate 16 0));
          w = getOk (fileWrite plainEnv w 0 [7]);
          w = getOk (Create plainEnv w [0x62] (replicate 8 0) (replicate 16 0));
          w = getOk (fileClose plainEnv w 1)
      in if n = 0 then w else getOk (fileClose plainEnv w 0))"

lemma concRun_run:
  "writerRun plainEnv (newWriter \<lparr>sk_data = [], sk_pos = 0\<rparr> False [] 2) (concRun n) [[7], []]"
proof -
  define w0 :: "unit writer" where "w0 = newWriter \<lparr>sk_data = [], sk_pos = 0\<rparr> False [] 2"
  define w1 where "w1 = getOk (Create plainEnv w0 [0x61] (replicate 8 0) (replicate 16 0))"
  define w2 where "w2 = getOk (fileWrite plainEnv w1 0 [7])"
  define w3 where "w3 = getOk (Create plainEnv w2 [0x62] (replicate 8 0) (replicate 16 0))"
  define w4 where "w4 = getOk (fileClose plainEnv w3 1)"
  define w5 where "w5 = getOk (fileClose plainEnv w4 0)"
  note defs = w0_def w1_def w2_def w3_def w4_def
  have "Create plainEnv w0 [0x61] (replicate 8 0) (replicate 16 0) = Inr w1"
    unfolding w1_def by (rule getOk_ok, unfold defs, code_simp)
  then have r1: "writerRun plainEnv w0 w1 ([] @ [[]])"
    by (intro writerRun.create [OF writerRun.start]) (simp_all add: Create_def)
  have "fileWrite plainEnv w1 0 [7] = Inr w2"
    unfolding w2_def by (rule getOk_ok, unfold defs, code_simp)
  from writerRun.fwrite [OF r1 _ this] have r2: "writerRun plainEnv w0 w2 [[7]]" by simp
  have "Create plainEnv w2 [0x62] (replicate 8 0) (replicate 16 0) = Inr w3"
    unfolding w3_def by (rule getOk_ok, unfold defs, code_simp)
  then have r3: "writerRun plainEnv w0 w3 ([[7]] @ [[]])"
    by (intro writerRun.create [OF r2]) (simp_all add: Create_def)
  have "fileClose plainEnv w3 1 = Inr w4"
    unfolding w4_def by (rule getOk_ok, unfold defs, code_simp)
  from writerRun.fclose [OF r3 _ this] have r4: "writerRun plainEnv w0 w4 [[7], []]" by simp
  have "fileClose plainEnv w4 0 = Inr w5"
    unfolding w5_def by (rule getOk_ok, unfold defs, code_simp)
  from writerRun.fclose [OF r4 _ this] have r5: "writerRun plainEnv w0 w5 [[7], []]" by simp
  have "concRun n = (if n = 0 then w4 else w5)"
    unfolding concRun_def Let_def w0_def [symmetric] w1_def [symmetric] w2_def [symmetric]
      w3_def [symmetric] w4_def [symmetric] w5_def [symmetric] by simp
  with r4 r5 show ?thesis by (simp add: w0_def)
qed

theorem coordinator_holds_nothing_back_witness:
  "(\<exists>n. skBody (w_w ((coordStep ^^ n) (concRun 0))) = []) \<and> (\<exists>n. skBody (w_w ((coordStep ^^ n) (concRun 1))) = [7])"
proof -
  have "concat (map (\<lambda>f. the (fw_spool f)) (takeWhile fw_closed (w_folders (concRun 0)))) = []"
    "concat (map (\<lambda>f. the (fw_spool f)) (takeWhile fw_closed (w_folders (concRun 1)))) = [7]"
    by code_simp+
  with coordinator_holds_nothing_back [OF concRun_run [of 0]] coordinator_holds_nothing_back [OF concRun_run [of 1]]
  show ?thesis unfolding Let_def by auto
qed

end
