(* ===== verification/Folder_Reader.thy ===== *)
theory Folder_Reader
  imports Structs Checksum
begin

text \<open>
  Reading a folder: the table of decoders (\<open>register.go\<close>), and how \<open>folderReader\<close> of \<open>struct.go\<close>
  plugs decoders together over the packed streams, and the reader it returns, which counts and
  checksums what it delivers and seeks forwards by reading.

  A reader that has not been read is a stream: the bytes it delivers and the error it reports
  after them, \<open>EOF\<close> at a regular end. The theories \<open>Bra_X86\<close>, \<open>Bra_Stream\<close>, \<open>Aes_RoundTrip\<close> and \<open>Bcj2\<close>
  show that the decoders of this package deliver the same bytes however they are read. A
  decoder is a function of its properties, the size of its output and its input streams; the
  decoders are an argument. In an archive in which two inputs are bound to one output the code
  lets both read from one reader; here both get the whole stream.

  The properties of a coder are an array that the archive and the decoder share, and setting the
  password of the AES decoder can write to it (\<open>internal/aes7z/key.go\<close>, theory \<open>Aes7z\<close>). So the
  properties are a state: opening a decoder returns them as it leaves them, and \<open>folderReader\<close>
  returns the tables with the properties of its coders replaced. The coders of a folder have
  an array each, and a loop over the coders opens each of them once.
\<close>

section \<open>Streams\<close>

type_synonym stream = "byte list \<times> sz_error"

text \<open>\<open>plumbing.LimitReadCloser\<close>, an \<open>io.LimitedReader\<close>.\<close>

definition limitStream :: "int \<Rightarrow> stream \<Rightarrow> stream" where
  "limitStream n s =
     (if n \<le> int (length (fst s)) then (take (nat n) (fst s), EOF) else s)"

text \<open>
  The bytes of an \<open>io.SectionReader\<close>. The bound of a section of negative length overflows, and
  \<open>io.NewSectionReader\<close> then takes the largest offset for it, so that the section goes on to the
  end of the source. At a negative offset the source returns \<open>EOF\<close>.
\<close>

definition sectionBytes :: "byte list \<Rightarrow> int \<Rightarrow> int \<Rightarrow> byte list" where
  "sectionBytes bs off n =
     (if off < 0 then [] else if n < 0 then drop (nat off) bs else take (nat n) (drop (nat off) bs))"

definition int64 :: "int \<Rightarrow> int" where
  "int64 x = sint (of_int x :: u64)"

section \<open>Decoders\<close>

text \<open>
  What a constructor returns: a reader, or one that first needs the password. Setting the password
  also says what the properties of the coder are afterwards.
\<close>

datatype coderStream = PlainStream stream | CryptoStream "gostring \<Rightarrow> stream result \<times> byte list"

type_synonym decompressor = "byte list \<Rightarrow> u64 \<Rightarrow> stream list \<Rightarrow> coderStream result"
type_synonym registry = "byte list \<rightharpoonup> decompressor"

definition newCopyReader :: decompressor where
  "newCopyReader props sz readers =
     (case readers of [r] \<Rightarrow> Inr (PlainStream r) | _ \<Rightarrow> Inl ErrNeedOneReader)"

datatype decoder =
    DeltaReader | LZMAReader | BCJReader | BCJ2Reader | PPCReader | ARMReader | SPARCReader
  | DeflateReader | Bzip2Reader | ZstdReader | BrotliReader | LZ4Reader | AESReader | ARM64Reader
  | LZMA2Reader | PPMDReader

definition RegisterDecompressor :: "byte list \<Rightarrow> decompressor \<Rightarrow> registry \<Rightarrow> registry" where
  "RegisterDecompressor method dcomp reg = reg(method \<mapsto> dcomp)"

definition registerAll :: "(decoder \<Rightarrow> decompressor) \<Rightarrow> registry" where
  "registerAll impl =
     fold (\<lambda>(method, dcomp). RegisterDecompressor method dcomp)
       [([0x00], newCopyReader),
        ([0x03], impl DeltaReader),
        ([0x03, 0x01, 0x01], impl LZMAReader),
        ([0x03, 0x03, 0x01, 0x03], impl BCJReader),
        ([0x03, 0x03, 0x01, 0x1b], impl BCJ2Reader),
        ([0x03, 0x03, 0x02, 0x05], impl PPCReader),
        ([0x03, 0x03, 0x05, 0x01], impl ARMReader),
        ([0x03, 0x03, 0x08, 0x05], impl SPARCReader),
        ([0x04, 0x01, 0x08], impl DeflateReader),
        ([0x04, 0x02, 0x02], impl Bzip2Reader),
        ([0x04, 0xf7, 0x11, 0x01], impl ZstdReader),
        ([0x04, 0xf7, 0x11, 0x02], impl BrotliReader),
        ([0x04, 0xf7, 0x11, 0x04], impl LZ4Reader),
        ([0x06, 0xf1, 0x07, 0x01], impl AESReader),
        ([0x0a], impl ARM64Reader),
        ([0x21], impl LZMA2Reader),
        ([0x03, 0x04, 0x01], impl PPMDReader)] (\<lambda>_. None)"

definition decompressor :: "registry \<Rightarrow> byte list \<Rightarrow> decompressor option" where
  "decompressor reg method = reg method"

text \<open>
  The reader of one coder, cut off at its declared size, and whether it is encrypted; with it the
  properties of the coder afterwards.
\<close>

definition coderReader ::
    "registry \<Rightarrow> folder \<Rightarrow> stream list \<Rightarrow> nat \<Rightarrow> gostring \<Rightarrow> (stream \<times> bool) result \<times> byte list" where
  "coderReader reg f readers coder password =
     (case idx (fo_coder f) coder of
        Inl e \<Rightarrow> (Inl e, [])
      | Inr c \<Rightarrow>
          case decompressor reg (co_id c) of
            None \<Rightarrow> (Inl ErrAlgorithm, co_properties c)
          | Some dcomp \<Rightarrow>
              case rbind (idx (fo_size f) coder) (\<lambda>sz.
                   rbind (dcomp (co_properties c) sz readers) (\<lambda>cr. Inr (sz, cr))) of
                Inl e \<Rightarrow> (Inl e, co_properties c)
              | Inr (sz, PlainStream s) \<Rightarrow> (Inr (limitStream (sint sz) s, False), co_properties c)
              | Inr (sz, CryptoStream setPassword) \<Rightarrow>
                  case setPassword password of
                    (Inl e, p) \<Rightarrow> (Inl e, p)
                  | (Inr s, p) \<Rightarrow> (Inr (limitStream (sint sz) s, True), p))"

section \<open>The folder reader\<close>

record folderReadCloser =
  fc_rest :: stream
  fc_h :: u32
  fc_count :: nat
  fc_size :: int
  fc_hasEncryption :: bool

definition newFolderReadCloser :: "stream \<Rightarrow> int \<Rightarrow> bool \<Rightarrow> folderReadCloser" where
  "newFolderReadCloser rc sz hasEncryption =
     \<lparr>fc_rest = rc, fc_h = 0, fc_count = 0, fc_size = sz, fc_hasEncryption = hasEncryption\<rparr>"

text \<open>The loop over the packed streams of a folder. \<open>src\<close> is the data between the headers.\<close>

fun openPacked ::
    "byte list \<Rightarrow> streamsInfo \<Rightarrow> nat \<Rightarrow> nat \<Rightarrow> int \<Rightarrow> u64 list \<Rightarrow> stream option list \<Rightarrow> stream option list result" where
  "openPacked src si folder k offset [] ins = Inr ins"
| "openPacked src si folder k offset (input # inputs) ins =
     rbind (deref (si_packInfo si)) (\<lambda>p.
     rbind (idx (pi_size p) k) (\<lambda>size.
     rbind (folderOffset si folder) (\<lambda>base.
     if length ins \<le> unat input then Inl Panic
     else openPacked src si folder (Suc k) (int64 (offset + sint size)) inputs
            (ins[unat input := Some (sectionBytes src (int64 (base + offset)) (sint size), EOF)]))))"

text \<open>The inputs of one coder: packed streams, or outputs of coders before it.\<close>

fun bindInputs :: "folder \<Rightarrow> stream option list \<Rightarrow> nat list \<Rightarrow> stream option list \<Rightarrow> stream option list result" where
  "bindInputs f outs [] ins = Inr ins"
| "bindInputs f outs (j # js) ins =
     rbind (idx ins j) (\<lambda>s.
     if s \<noteq> None then bindInputs f outs js ins
     else
       case findInBindPair f (of_nat j) of
         None \<Rightarrow> Inl ErrNoBoundStream
       | Some bp \<Rightarrow>
           rbind (idx outs (unat (bp_out bp))) (\<lambda>s.
           if s = None then Inl ErrNoBoundStream
           else bindInputs f outs js (ins[j := s])))"

text \<open>
  The loop over the coders. An error comes with what is known about encryption by then. The second
  result are the properties of the coders from this one on.
\<close>

fun coderLoop ::
    "registry \<Rightarrow> folder \<Rightarrow> gostring \<Rightarrow> nat \<Rightarrow> u64 \<Rightarrow> u64 \<Rightarrow> stream option list \<Rightarrow> stream option list \<Rightarrow> bool
     \<Rightarrow> coder list \<Rightarrow> ((sz_error \<times> bool) + (stream option list \<times> bool)) \<times> byte list list" where
  "coderLoop reg f password i input output ins outs enc [] = (Inr (outs, enc), [])"
| "coderLoop reg f password i input output ins outs enc (c # cs) =
     (if co_out c \<noteq> 1 then (Inl (ErrMultipleOutputStreams, enc), map co_properties (c # cs))
      else
        let lo = unat input; hi = unat (input + co_in c) in
        case bindInputs f outs [lo..<hi] ins of
          Inl e \<Rightarrow> (Inl (e, enc), map co_properties (c # cs))
        | Inr ins \<Rightarrow>
            if hi < lo \<or> length ins < hi then (Inl (Panic, enc), map co_properties (c # cs))
            else
              case coderReader reg f (map the (take (hi - lo) (drop lo ins))) i password of
                (Inl e, p) \<Rightarrow> (Inl (e, enc), p # map co_properties cs)
              | (Inr (s, isEncrypted), p) \<Rightarrow>
                  if length outs \<le> unat output then (Inl (Panic, enc), p # map co_properties cs)
                  else
                    let (r, ps) = coderLoop reg f password (Suc i) (input + co_in c) (output + co_out c) ins
                          (outs[unat output := Some s]) (enc \<or> isEncrypted) cs
                    in (r, p # ps))"

definition packedOffset :: "folder list \<Rightarrow> nat \<Rightarrow> nat" where
  "packedOffset fs folder = sum_list (map (\<lambda>f. length (fo_packed f)) (take folder fs))"

text \<open>The tables with the properties of the coders of a folder replaced.\<close>

definition setProperties :: "folder \<Rightarrow> byte list list \<Rightarrow> folder" where
  "setProperties f ps = f\<lparr>fo_coder := map2 (\<lambda>c p. c\<lparr>co_properties := p\<rparr>) (fo_coder f) ps\<rparr>"

definition withProperties :: "streamsInfo \<Rightarrow> nat \<Rightarrow> byte list list \<Rightarrow> streamsInfo" where
  "withProperties si folder ps =
     (case si_unpackInfo si of
        None \<Rightarrow> si
      | Some u \<Rightarrow>
          si\<lparr>si_unpackInfo := Some (u\<lparr>ui_folder := (ui_folder u)[folder := setProperties (ui_folder u ! folder) ps]\<rparr>)\<rparr>)"

definition folderReader ::
    "registry \<Rightarrow> byte list \<Rightarrow> streamsInfo \<Rightarrow> nat \<Rightarrow> gostring
     \<Rightarrow> ((sz_error \<times> bool) + (folderReadCloser \<times> u32)) \<times> streamsInfo" where
  "folderReader reg src si folder password =
     (case rbind (deref (si_unpackInfo si)) (\<lambda>u. rbind (idx (ui_folder u) folder) (\<lambda>f.
             rbind (openPacked src si folder (packedOffset (ui_folder u) folder) 0 (fo_packed f)
                      (replicate (unat (fo_in f)) None)) (\<lambda>ins. Inr (u, f, ins)))) of
        Inl e \<Rightarrow> (Inl (e, False), si)
      | Inr (u, f, ins) \<Rightarrow>
          let (r, ps) = coderLoop reg f password 0 0 0 ins (replicate (unat (fo_out f)) None) False (fo_coder f)
          in
          (case r of
             Inl e \<Rightarrow> Inl e
           | Inr (outs, enc) \<Rightarrow>
               case filter (\<lambda>i. findOutBindPair f (of_nat i) = None) [0..<unat (fo_out f)] of
                 [i] \<Rightarrow>
                   (case outs ! i of
                      None \<Rightarrow> Inl (ErrNoUnboundStream, enc)
                    | Some s \<Rightarrow>
                        let fr = newFolderReadCloser s (sint (unpackSize f)) enc in
                        if ui_digest u = [] then Inr (fr, 0)
                        else case idx (ui_digest u) folder of Inl e \<Rightarrow> Inl (e, enc) | Inr crc \<Rightarrow> Inr (fr, crc))
               | _ \<Rightarrow> Inl (ErrNoUnboundStream, enc),
           withProperties si folder ps))"

section \<open>The properties of the coders\<close>

text \<open>A folder whose decoders leave their properties alone can be opened again as it was.\<close>

lemma setProperties_same [simp]: "setProperties f (map co_properties (fo_coder f)) = f"
proof -
  have "map2 (\<lambda>c p. c\<lparr>co_properties := p\<rparr>) cs (map co_properties cs) = cs" for cs :: "coder list"
    by (induction cs) simp_all
  then show ?thesis by (simp add: setProperties_def)
qed

lemma withProperties_same:
  assumes "si_unpackInfo si = Some u" and "folder < length (ui_folder u)"
  shows "withProperties si folder (map co_properties (fo_coder (ui_folder u ! folder))) = si"
  using assms by (simp add: withProperties_def)

lemma coderLoop_keeps:
  assumes "\<And>j readers. i \<le> j \<Longrightarrow> j < i + length cs \<Longrightarrow> snd (coderReader reg f readers j password) = co_properties (cs ! (j - i))"
  shows "snd (coderLoop reg f password i a b ins outs enc cs) = map co_properties cs"
  using assms
proof (induction cs arbitrary: i a b ins outs enc)
  case (Cons c cs)
  have "snd (coderReader reg f readers j password) = co_properties (cs ! (j - Suc i))"
    if "Suc i \<le> j" "j < Suc i + length cs" for j readers
  proof -
    have "j - i = Suc (j - Suc i)" using that(1) by simp
    with Cons.prems [of j readers] that show ?thesis by simp
  qed
  note IH = Cons.IH [OF this]
  have first: "snd (coderReader reg f readers i password) = co_properties c" for readers
    using Cons.prems [of i readers] by simp
  show ?case
    by (auto simp: Let_def split_beta IH first split: sum.split prod.split)
qed simp

lemma folderReader_keeps:
  assumes "\<And>u j readers. si_unpackInfo si = Some u \<Longrightarrow> folder < length (ui_folder u) \<Longrightarrow> j < length (fo_coder (ui_folder u ! folder)) \<Longrightarrow>
      snd (coderReader reg (ui_folder u ! folder) readers j password) = co_properties (fo_coder (ui_folder u ! folder) ! j)"
  shows "snd (folderReader reg src si folder password) = si"
proof (cases "rbind (deref (si_unpackInfo si)) (\<lambda>u. rbind (idx (ui_folder u) folder) (\<lambda>f.
             rbind (openPacked src si folder (packedOffset (ui_folder u) folder) 0 (fo_packed f)
                      (replicate (unat (fo_in f)) None)) (\<lambda>ins. Inr (u, f, ins))))")
  case (Inr r)
  then obtain u ins where u: "si_unpackInfo si = Some u" "folder < length (ui_folder u)" and r: "r = (u, ui_folder u ! folder, ins)"
    by (auto simp: deref_def idx_def elim!: rbind_InrE split: option.splits if_splits)
  let ?f = "ui_folder u ! folder"
  have "snd (coderLoop reg ?f password 0 0 0 ins (replicate (unat (fo_out ?f)) None) False (fo_coder ?f))
      = map co_properties (fo_coder ?f)"
    using assms [OF u] by (intro coderLoop_keeps) simp
  with withProperties_same [OF u] show ?thesis
    unfolding folderReader_def Inr r by (simp add: split_beta Let_def)
qed (simp add: folderReader_def)

lemma coderReader_plain:
  assumes "\<And>dcomp n s. reg (co_id (fo_coder f ! i)) = Some dcomp \<Longrightarrow> i < length (fo_coder f) \<Longrightarrow>
      dcomp (co_properties (fo_coder f ! i)) n readers = Inr s \<Longrightarrow> (\<exists>t. s = PlainStream t)"
    and "i < length (fo_coder f)"
  shows "snd (coderReader reg f readers i password) = co_properties (fo_coder f ! i)"
  using assms by (fastforce simp: coderReader_def decompressor_def idx_def split: option.split sum.split coderStream.split
      elim!: rbind_InrE)

section \<open>Reading and seeking\<close>

text \<open>\<open>n\<close> bytes leave the folder through the tee, which hashes and counts them.\<close>

definition advance :: "folderReadCloser \<Rightarrow> nat \<Rightarrow> folderReadCloser" where
  "advance rc n =
     rc\<lparr>fc_rest := (drop n (fst (fc_rest rc)), snd (fc_rest rc)),
        fc_h := crc32Update (fc_h rc) (take n (fst (fc_rest rc))),
        fc_count := fc_count rc + length (take n (fst (fc_rest rc)))\<rparr>"

text \<open>
  \<open>Read\<close> with a buffer of \<open>m\<close> bytes, for which the decoders have \<open>g\<close> bytes ready, at least one
  unless they are at the end.
\<close>

definition frcRead :: "nat \<Rightarrow> folderReadCloser \<Rightarrow> nat \<Rightarrow> byte list \<times> sz_error option \<times> folderReadCloser" where
  "frcRead g rc m =
     (if m = 0 then ([], None, rc)
      else if fst (fc_rest rc) = [] then ([], Some (snd (fc_rest rc)), rc)
      else
        let n = min m (max 1 g)
        in (take n (fst (fc_rest rc)), None, advance rc n))"

definition Checksum :: "folderReadCloser \<Rightarrow> u32" where
  "Checksum rc = fc_h rc"

text \<open>\<open>io.CopyN\<close> into \<open>io.Discard\<close>.\<close>

definition discardN :: "nat \<Rightarrow> folderReadCloser \<Rightarrow> sz_error option \<times> folderReadCloser" where
  "discardN n rc =
     (if n \<le> length (fst (fc_rest rc)) then (None, advance rc n)
      else (Some (snd (fc_rest rc)), advance rc n))"

abbreviation (input) SeekStart :: int where "SeekStart \<equiv> 0"
abbreviation (input) SeekCurrent :: int where "SeekCurrent \<equiv> 1"
abbreviation (input) SeekEnd :: int where "SeekEnd \<equiv> 2"

definition frcSeek :: "folderReadCloser \<Rightarrow> int \<Rightarrow> int \<Rightarrow> int result \<times> folderReadCloser" where
  "frcSeek rc offset whence =
     (if whence \<noteq> SeekStart \<and> whence \<noteq> SeekCurrent \<and> whence \<noteq> SeekEnd then (Inl ErrInvalidWhence, rc)
      else
        let newo = (if whence = SeekStart then offset
                    else if whence = SeekCurrent then int64 (int (fc_count rc) + offset)
                    else int64 (fc_size rc + offset))
        in
        if newo < 0 then (Inl ErrNegativeSeek, rc)
        else if nat newo < fc_count rc then (Inl ErrSeekBackwards, rc)
        else if fc_size rc < newo then (Inl ErrSeekEOF, rc)
        else
          case discardN (nat newo - fc_count rc) rc of
            (Some e, rc) \<Rightarrow> (Inl e, rc)
          | (None, rc) \<Rightarrow> (Inr newo, rc))"

section \<open>What a folder reader has delivered\<close>

text \<open>A reader over the bytes \<open>bs\<close>, which end with \<open>e\<close>: position, rest and checksum agree.\<close>

definition tracks :: "stream \<Rightarrow> folderReadCloser \<Rightarrow> bool" where
  "tracks s rc \<longleftrightarrow>
     fc_count rc \<le> length (fst s) \<and> fc_rest rc = (drop (fc_count rc) (fst s), snd s)
     \<and> fc_h rc = checksumIEEE (take (fc_count rc) (fst s))"

lemma tracks_new: "tracks s (newFolderReadCloser s n enc)"
  by (simp add: tracks_def newFolderReadCloser_def checksumIEEE_def)

lemma advance_simps [simp]:
  "fc_size (advance rc n) = fc_size rc" "fc_hasEncryption (advance rc n) = fc_hasEncryption rc"
  "advance rc 0 = rc"
  by (simp_all add: advance_def)

lemma advance_tracks:
  assumes "tracks s rc"
  shows "tracks s (advance rc n)" and "fc_count (advance rc n) = min (fc_count rc + n) (length (fst s))"
proof -
  let ?k = "fc_count rc"
  have t: "?k \<le> length (fst s)" "fc_rest rc = (drop ?k (fst s), snd s)" "fc_h rc = checksumIEEE (take ?k (fst s))"
    using assms by (simp_all add: tracks_def)
  show c: "fc_count (advance rc n) = min (?k + n) (length (fst s))"
    using t by (simp add: advance_def)
  have "take (min (?k + n) (length (fst s))) (fst s) = take ?k (fst s) @ take n (drop ?k (fst s))"
    by (metis take_add take_all_iff min.commute min_def nle_le)
  moreover have "drop (min (?k + n) (length (fst s))) (fst s) = drop n (drop ?k (fst s))"
    by (simp add: min_def add.commute)
  ultimately show "tracks s (advance rc n)"
    unfolding tracks_def c using t by (simp add: advance_def checksum_append)
qed

lemma int64_small: "0 \<le> x \<Longrightarrow> x < 2 ^ 63 \<Longrightarrow> int64 x = x"
proof -
  assume x: "0 \<le> x" "x < 2 ^ 63"
  then obtain n where n: "x = int n" using nonneg_int_cases by blast
  then have "sint (of_nat n :: u64) = x" using x(2) by (simp add: sint_of_nat)
  then show ?thesis by (simp only: int64_def n of_int_of_nat_eq)
qed

text \<open>Seeking forwards skips, and asking for the position changes nothing.\<close>

lemma frcSeek_forward:
  assumes "tracks s rc" and "fc_count rc \<le> off" and "off \<le> length (fst s)" and "int off \<le> fc_size rc"
  shows "frcSeek rc (int off) SeekStart = (Inr (int off), advance rc (off - fc_count rc))"
    and "fc_count (advance rc (off - fc_count rc)) = off"
proof -
  have "off - fc_count rc \<le> length (fst (fc_rest rc))" using assms by (simp add: tracks_def)
  then show "frcSeek rc (int off) SeekStart = (Inr (int off), advance rc (off - fc_count rc))"
    using assms by (simp add: frcSeek_def discardN_def)
  show "fc_count (advance rc (off - fc_count rc)) = off"
    using advance_tracks(2) [OF assms(1)] assms(2,3) by simp
qed

lemma frcSeek_current:
  assumes "int (fc_count rc) \<le> fc_size rc" and "fc_size rc < 2 ^ 63"
  shows "frcSeek rc 0 SeekCurrent = (Inr (int (fc_count rc)), rc)"
proof -
  have "int64 (int (fc_count rc)) = int (fc_count rc)" using assms by (intro int64_small) linarith+
  with assms show ?thesis by (simp add: frcSeek_def discardN_def)
qed

lemma frcRead_tracks:
  assumes "tracks s rc" and "0 < m"
  obtains q where "frcRead g rc m = (take q (drop (fc_count rc) (fst s)),
      if fc_count rc = length (fst s) then Some (snd s) else None, advance rc q)"
    and "q \<le> m" and "fc_count rc < length (fst s) \<Longrightarrow> 0 < q" and "tracks s (advance rc q)"
proof (cases "fst (fc_rest rc) = []")
  case True
  then have "frcRead g rc m = (take 0 (drop (fc_count rc) (fst s)), Some (snd s), advance rc 0)" "fc_count rc = length (fst s)"
    using assms by (simp_all add: frcRead_def tracks_def)
  with assms(1) that [of 0] show ?thesis by simp
next
  case False
  then have "frcRead g rc m = (take (min m (max 1 g)) (drop (fc_count rc) (fst s)), None, advance rc (min m (max 1 g)))"
      "fc_count rc < length (fst s)"
    using assms by (simp_all add: frcRead_def tracks_def Let_def)
  with advance_tracks [OF assms(1)] assms(2) that [of "min m (max 1 g)"] show ?thesis by simp
qed

text \<open>A sequence of reads and seeks; each read says how many bytes the decoders have ready.\<close>

datatype frcOp = DoRead nat nat | DoSeek int int

fun frcStep :: "folderReadCloser \<Rightarrow> frcOp \<Rightarrow> folderReadCloser" where
  "frcStep rc (DoRead g m) = snd (snd (frcRead g rc m))"
| "frcStep rc (DoSeek off whence) = snd (frcSeek rc off whence)"

lemma frcStep_tracks: "tracks s rc \<Longrightarrow> tracks s (frcStep rc a)"
proof (cases a)
  case (DoRead g m)
  assume t: "tracks s rc"
  show ?thesis
  proof (cases "m = 0")
    case True
    with t show ?thesis by (simp add: DoRead frcRead_def)
  next
    case False
    with t show ?thesis by (auto simp: DoRead elim: frcRead_tracks [of s rc m g])
  qed
next
  case (DoSeek off whence)
  assume "tracks s rc"
  then show ?thesis
    using advance_tracks(1) by (auto simp: DoSeek frcSeek_def discardN_def Let_def split: prod.splits option.splits)
qed

text \<open>
  C33: The reader of a folder keeps its books: after any reads and seeks, successful or not, it
  has delivered or skipped exactly a prefix of the folder's content, its position is the length
  of that prefix and its checksum the CRC-32 of it; a read at that position returns the bytes
  that follow, and the end of the content is reported after the last of them and not before.
\<close>

theorem folder_reader_keeps_position:
  assumes "rc = foldl frcStep (newFolderReadCloser s n enc) ops" and "0 < m"
  shows "\<exists>k q. k \<le> length (fst s) \<and> fc_count rc = k \<and> Checksum rc = checksumIEEE (take k (fst s))
    \<and> frcRead g rc m = (take q (drop k (fst s)), if k = length (fst s) then Some (snd s) else None, advance rc q)
    \<and> q \<le> m \<and> (k < length (fst s) \<longrightarrow> 0 < q)"
proof -
  have "tracks s (foldl frcStep rc0 ops)" if "tracks s rc0" for rc0
    using that by (induction ops arbitrary: rc0) (simp_all add: frcStep_tracks)
  from this [OF tracks_new] assms(1) have t: "tracks s rc" by simp
  obtain q where "frcRead g rc m = (take q (drop (fc_count rc) (fst s)),
      if fc_count rc = length (fst s) then Some (snd s) else None, advance rc q)"
    "q \<le> m" "fc_count rc < length (fst s) \<Longrightarrow> 0 < q"
    using frcRead_tracks [OF t assms(2)] by blast
  with t show ?thesis unfolding Checksum_def tracks_def by blast
qed

theorem folder_reader_keeps_position_witness:
  "Checksum (foldl frcStep (newFolderReadCloser ([1, 2, 3], EOF) 3 False) [DoRead 1 5, DoSeek 2 SeekStart, DoSeek 0 SeekStart])
     = checksumIEEE [1, 2]"
proof -
  let ?rc = "foldl frcStep (newFolderReadCloser ([1, 2, 3], EOF) 3 False) [DoRead 1 5, DoSeek 2 SeekStart, DoSeek 0 SeekStart]"
  have "fc_count ?rc = 2" by code_simp
  then show ?thesis using folder_reader_keeps_position [where rc = ?rc and s = "([1, 2, 3], EOF)" and m = 1, OF refl] by auto
qed

section \<open>Chains of coders\<close>

text \<open>
  A chain of \<open>n\<close> coders with one input and one output each: the packed stream goes into the
  first, and every other one reads the output of the one before it.
\<close>

definition chainFolder :: "nat \<Rightarrow> folder \<Rightarrow> bool" where
  "chainFolder n f \<longleftrightarrow>
     0 < n \<and> n < 2 ^ 32 \<and> length (fo_coder f) = n
     \<and> list_all (\<lambda>c. co_in c = 1 \<and> co_out c = 1) (fo_coder f)
     \<and> fo_in f = of_nat n \<and> fo_out f = of_nat n \<and> fo_packed f = [0]
     \<and> set (fo_bindPair f) = {\<lparr>bp_in = of_nat (Suc i), bp_out = of_nat i\<rparr> |i. Suc i < n}"

text \<open>
  The reference: the coders one after the other, each on the output of the one before; with the
  result come the properties that the decoders leave.
\<close>

fun pipeline :: "registry \<Rightarrow> folder \<Rightarrow> gostring \<Rightarrow> nat \<Rightarrow> coder list \<Rightarrow> stream \<Rightarrow> bool
    \<Rightarrow> ((sz_error \<times> bool) + (stream \<times> bool)) \<times> byte list list" where
  "pipeline reg f password i [] s enc = (Inr (s, enc), [])"
| "pipeline reg f password i (c # cs) s enc =
     (case coderReader reg f [s] i password of
        (Inl e, p) \<Rightarrow> (Inl (e, enc), p # map co_properties cs)
      | (Inr (s', isEncrypted), p) \<Rightarrow>
          let (r, ps) = pipeline reg f password (Suc i) cs s' (enc \<or> isEncrypted) in (r, p # ps))"

lemma unat_small: "n < 2 ^ 32 \<Longrightarrow> unat (of_nat n :: u64) = n"
  by (simp add: unsigned_of_nat take_bit_nat_eq_self)

lemma of_nat_small_eq: "m < 2 ^ 32 \<Longrightarrow> n < 2 ^ 32 \<Longrightarrow> (of_nat m :: u64) = of_nat n \<longleftrightarrow> m = n"
  by (metis unat_small)

lemma chain_findIn:
  assumes "chainFolder n f" and "Suc i < n"
  shows "findInBindPair f (of_nat (Suc i)) = Some \<lparr>bp_in = of_nat (Suc i), bp_out = of_nat i\<rparr>"
proof -
  have set: "set (fo_bindPair f) = {\<lparr>bp_in = of_nat (Suc i), bp_out = of_nat i\<rparr> |i. Suc i < n}"
    and n: "n < 2 ^ 32" using assms(1) by (simp_all add: chainFolder_def)
  have one: "b = \<lparr>bp_in = of_nat (Suc i), bp_out = of_nat i\<rparr>"
    if b: "b \<in> set (fo_bindPair f)" "bp_in b = of_nat (Suc i)" for b
  proof -
    obtain k where k: "b = \<lparr>bp_in = of_nat (Suc k), bp_out = of_nat k\<rparr>" "Suc k < n" using b(1) unfolding set by blast
    have "(of_nat (Suc k) :: u64) = of_nat (Suc i)" using k(1) b(2) by (metis bindPair.select_convs(1))
    then have "Suc k = Suc i"
      using of_nat_small_eq [OF order.strict_trans [OF k(2) n] order.strict_trans [OF assms(2) n]] by blast
    with k show ?thesis by simp
  qed
  have "\<lparr>bp_in = of_nat (Suc i), bp_out = of_nat i\<rparr> \<in> set (fo_bindPair f)" using set assms(2) by blast
  then have "findInBindPair f (of_nat (Suc i)) \<noteq> None"
    unfolding findInBindPair_def find_None_iff by (metis bindPair.select_convs(1))
  then obtain b where b: "findInBindPair f (of_nat (Suc i)) = Some b" by blast
  then have "b \<in> set (fo_bindPair f)" "bp_in b = of_nat (Suc i)"
    unfolding findInBindPair_def by (auto simp: find_Some_iff)
  with one b show ?thesis by simp
qed

lemma chain_findOut:
  assumes "chainFolder n f" and "i < n"
  shows "findOutBindPair f (of_nat i) = None \<longleftrightarrow> i = n - 1"
proof -
  have n: "n < 2 ^ 32" using assms(1) by (simp add: chainFolder_def)
  have "findOutBindPair f (of_nat i) = None \<longleftrightarrow> (\<forall>k. Suc k < n \<longrightarrow> (of_nat k :: u64) \<noteq> of_nat i)"
    using assms(1) by (auto simp: findOutBindPair_def find_None_iff chainFolder_def)
  moreover have "(of_nat k :: u64) = of_nat i \<longleftrightarrow> k = i" if "Suc k < n" for k
    using n assms(2) that by (intro of_nat_small_eq) simp_all
  then have "(\<forall>k. Suc k < n \<longrightarrow> (of_nat k :: u64) \<noteq> of_nat i) \<longleftrightarrow> (\<forall>k. Suc k < n \<longrightarrow> k \<noteq> i)" by blast
  moreover have "(\<forall>k. Suc k < n \<longrightarrow> k \<noteq> i) \<longleftrightarrow> i = n - 1"
  proof
    assume "\<forall>k. Suc k < n \<longrightarrow> k \<noteq> i"
    then have "\<not> Suc i < n" by blast
    with assms(2) show "i = n - 1" by linarith
  qed auto
  ultimately show ?thesis by simp
qed

lemma chain_unbound:
  assumes "chainFolder n f"
  shows "filter (\<lambda>i. findOutBindPair f (of_nat i) = None) [0..<n] = [n - 1]"
proof -
  have "0 < n" using assms by (simp add: chainFolder_def)
  then have "filter (\<lambda>i. findOutBindPair f (of_nat i) = None) [0..<n] = filter (\<lambda>i. i = n - 1) [0..<n]"
    using chain_findOut [OF assms] by (intro filter_cong) auto
  also have "\<dots> = [n - 1]"
    using \<open>0 < n\<close> by (cases n) (simp_all add: filter_empty_conv)
  finally show ?thesis .
qed

text \<open>Before coder \<open>i\<close>: the stream it is to read is where the loop looks for it.\<close>

definition chainState :: "nat \<Rightarrow> nat \<Rightarrow> stream \<Rightarrow> stream option list \<Rightarrow> stream option list \<Rightarrow> bool" where
  "chainState n i s ins outs \<longleftrightarrow>
     length ins = n \<and> length outs = n \<and> (\<forall>j. i < j \<and> j < n \<longrightarrow> ins ! j = None)
     \<and> (if i = 0 then ins ! 0 = Some s else (i < n \<longrightarrow> ins ! i = None) \<and> outs ! (i - 1) = Some s)"

lemma coderLoop_step:
  assumes chain: "chainFolder n f" and i: "i < n" and st: "chainState n i s ins outs"
  shows "coderLoop reg f password i (of_nat i) (of_nat i) ins outs enc (c # cs) =
    (if co_out c = 1 \<and> co_in c = 1 then
       case coderReader reg f [s] i password of
         (Inl e, p) \<Rightarrow> (Inl (e, enc), p # map co_properties cs)
       | (Inr (s', isEncrypted), p) \<Rightarrow>
           let (r, ps) = coderLoop reg f password (Suc i) (of_nat (Suc i)) (of_nat (Suc i)) (ins[i := Some s])
                 (outs[i := Some s']) (enc \<or> isEncrypted) cs
           in (r, p # ps)
     else coderLoop reg f password i (of_nat i) (of_nat i) ins outs enc (c # cs))"
proof (cases "co_out c = 1 \<and> co_in c = 1")
  case True
  have u: "unat (of_nat i :: u64) = i" "unat (1 + of_nat i :: u64) = Suc i"
    using chain i unat_small [of i] unat_small [of "Suc i"] by (simp_all add: chainFolder_def)
  have bind: "bindInputs f outs [i] ins = Inr (ins[i := Some s])"
  proof (cases i)
    case 0
    with st have "ins ! 0 = Some s" by (simp add: chainState_def)
    with st i 0 show ?thesis by (simp add: chainState_def) (metis list_update_id)
  next
    case (Suc k)
    have "unat (of_nat k :: u64) = k" using chain i Suc unat_small [of k] by (simp add: chainFolder_def)
    then show ?thesis
      using st i chain_findIn [OF chain, of k] Suc by (simp add: chainState_def)
  qed
  have len: "i < length ins" "i < length outs" using st i by (simp_all add: chainState_def)
  have s: "map the (take (Suc 0) (drop i (ins[i := Some s]))) = [s]"
    using len by (simp add: Cons_nth_drop_Suc [symmetric] take_Suc)
  show ?thesis
    using True len by (simp add: u bind s add.commute [of _ 1] Let_def del: bindInputs.simps split: sum.split prod.split)
qed (simp only: if_False)

lemma coderLoop_chain:
  assumes chain: "chainFolder n f" and "cs = drop i (fo_coder f)" and "i \<le> n" and "chainState n i s ins outs"
  shows "case pipeline reg f password i cs s enc of
      (Inl e, ps) \<Rightarrow> coderLoop reg f password i (of_nat i) (of_nat i) ins outs enc cs = (Inl e, ps)
    | (Inr (s', enc'), ps) \<Rightarrow> \<exists>ins' outs'.
        coderLoop reg f password i (of_nat i) (of_nat i) ins outs enc cs = (Inr (outs', enc'), ps)
        \<and> chainState n n s' ins' outs'"
  using assms(2-)
proof (induction cs arbitrary: i s ins outs enc)
  case Nil
  then have "i = n" using chain by (simp add: chainFolder_def)
  with Nil show ?case by auto
next
  case (Cons c cs)
  have i: "i < n" using Cons.prems chain by (cases "i < length (fo_coder f)") (auto simp: chainFolder_def)
  have "c = fo_coder f ! i" "cs = drop (Suc i) (fo_coder f)"
    using Cons.prems(1) i chain by (auto simp: chainFolder_def Cons_nth_drop_Suc [symmetric])
  note c = this
  then have one: "co_out c = 1 \<and> co_in c = 1" using chain i by (auto simp: chainFolder_def list_all_length)
  note step = coderLoop_step [OF chain i Cons.prems(3), of reg password enc c cs, unfolded if_P [OF one]]
  obtain r p where cr: "coderReader reg f [s] i password = (r, p)" by (cases "coderReader reg f [s] i password")
  show ?case
  proof (cases r)
    case (Inl e)
    with step cr show ?thesis by simp
  next
    case (Inr q)
    obtain s' isE where r: "r = Inr (s', isE)" using Inr by (cases q) simp
    have "chainState n (Suc i) s' (ins[i := Some s]) (outs[i := Some s'])"
      using Cons.prems(3) i by (auto simp: chainState_def)
    from Cons.IH [OF c(2) Suc_leI [OF i] this, of "enc \<or> isE"] show ?thesis
      unfolding pipeline.simps step cr r by (auto simp del: of_nat_Suc split: sum.splits prod.splits)
  qed
qed

text \<open>The reader of such a folder.\<close>

lemma folderReader_chain:
  assumes "si_unpackInfo si = Some u" and "si_packInfo si = Some p" and "k < length (ui_folder u)"
    and "chainFolder n (ui_folder u ! k)" and "packedOffset (ui_folder u) k < length (pi_size p)"
    and "folderOffset si k = Inr base" and "ui_digest u = [] \<or> k < length (ui_digest u)"
  shows "folderReader reg src si k password =
    (let (r, ps) = pipeline reg (ui_folder u ! k) password 0 (fo_coder (ui_folder u ! k))
            (sectionBytes src base (sint (pi_size p ! packedOffset (ui_folder u) k)), EOF) False
     in (case r of
           Inl e \<Rightarrow> Inl e
         | Inr (s, enc) \<Rightarrow>
             Inr (newFolderReadCloser s (sint (unpackSize (ui_folder u ! k))) enc,
                  if ui_digest u = [] then 0 else ui_digest u ! k),
         withProperties si k ps))"
proof -
  define f where "f = ui_folder u ! k"
  define s where "s = (sectionBytes src base (sint (pi_size p ! packedOffset (ui_folder u) k)), EOF)"
  have chain: "chainFolder n f" using assms(4) by (simp add: f_def)
  have n: "0 < n" "unat (fo_in f) = n" "unat (fo_out f) = n" "fo_packed f = [0]" "length (fo_coder f) = n"
    using chain unat_small [of n] by (simp_all add: chainFolder_def)
  have b: "int64 base = base"
  proof -
    obtain x :: u64 where "base = sint x"
      using assms(1,2,6) by (auto simp: folderOffset_def split: if_splits elim!: rbind_InrE)
    then show ?thesis by (simp add: int64_def)
  qed
  have packed: "openPacked src si k (packedOffset (ui_folder u) k) 0 [0] (replicate n None)
      = Inr ((replicate n None)[0 := Some s])"
    using assms(2,5,6) n(1) b by (simp add: s_def)
  have st: "chainState n 0 s ((replicate n None)[0 := Some s]) (replicate n None)"
    using n(1) by (simp add: chainState_def)
  have opn: "rbind (deref (si_unpackInfo si)) (\<lambda>u. rbind (idx (ui_folder u) k) (\<lambda>f.
             rbind (openPacked src si k (packedOffset (ui_folder u) k) 0 (fo_packed f)
                      (replicate (unat (fo_in f)) None)) (\<lambda>ins. Inr (u, f, ins))))
      = Inr (u, f, (replicate n None)[0 := Some s])"
    using assms(1,3) packed n by (simp add: f_def [symmetric])
  note loop = coderLoop_chain [OF chain _ _ st, of "fo_coder f" reg password False, simplified]
  obtain r ps where pl: "pipeline reg f password 0 (fo_coder f) s False = (r, ps)"
    by (cases "pipeline reg f password 0 (fo_coder f) s False")
  show ?thesis
  proof (cases r)
    case (Inl e)
    with loop pl show ?thesis
      unfolding folderReader_def opn f_def [symmetric] s_def [symmetric] by (simp add: n(3))
  next
    case (Inr q)
    obtain s' enc where r: "r = Inr (s', enc)" using Inr by (cases q) simp
    with loop pl obtain ins' outs' where l: "coderLoop reg f password 0 0 0 ((replicate n None)[0 := Some s])
        (replicate n None) False (fo_coder f) = (Inr (outs', enc), ps)" "chainState n n s' ins' outs'" by auto
    then have "outs' ! (n - 1) = Some s'" using n(1) by (simp add: chainState_def)
    with l r pl assms(7) show ?thesis
      unfolding folderReader_def opn f_def [symmetric] s_def [symmetric]
      by (auto simp: n(3) chain_unbound [OF chain] Let_def)
  qed
qed

text \<open>
  C12: A folder whose coders form a chain is read by the decoders one after the other: the reader
  that \<open>folderReader\<close> returns delivers the last coder's output of the folder's packed stream,
  with the folder's size and digest; and it fails as the first failing coder does. The packed
  stream is the section of the archive at the folder's offset: as many bytes as the packed size
  says, as far as there are so many, and everything up to the end of the data when the size, taken as
  a signed number, is negative. The properties of the folder's coders are afterwards what the
  decoders that were opened left there.
\<close>

theorem folder_reader_composes:
  assumes "si_unpackInfo si = Some u" and "si_packInfo si = Some p" and "k < length (ui_folder u)"
    and "chainFolder n (ui_folder u ! k)" and "packedOffset (ui_folder u) k < length (pi_size p)"
    and "folderOffset si k = Inr base" and "ui_digest u = [] \<or> k < length (ui_digest u)"
  shows "folderReader reg src si k password =
    (let (r, ps) = pipeline reg (ui_folder u ! k) password 0 (fo_coder (ui_folder u ! k))
            (sectionBytes src base (sint (pi_size p ! packedOffset (ui_folder u) k)), EOF) False
     in (case r of
           Inl e \<Rightarrow> Inl e
         | Inr (s, enc) \<Rightarrow>
             Inr (newFolderReadCloser s (sint (unpackSize (ui_folder u ! k))) enc,
                  if ui_digest u = [] then 0 else ui_digest u ! k),
         withProperties si k ps))"
  using assms by (rule folderReader_chain)

text \<open>A folder of two copying coders over a packed stream of three bytes.\<close>

definition copyFolder :: folder where
  "copyFolder =
     (let c = \<lparr>co_id = [0], co_in = 1, co_out = 1, co_properties = []\<rparr>
      in \<lparr>fo_in = 2, fo_out = 2, fo_packedStreams = 1, fo_coder = [c, c],
          fo_bindPair = [\<lparr>bp_in = 1, bp_out = 0\<rparr>], fo_size = [3, 2], fo_packed = [0]\<rparr>)"

definition copyStreams :: streamsInfo where
  "copyStreams =
     \<lparr>si_packInfo = Some \<lparr>pi_position = 1, pi_streams = 1, pi_size = [3], pi_digest = []\<rparr>,
      si_unpackInfo = Some \<lparr>ui_folder = [copyFolder], ui_digest = [7]\<rparr>, si_subStreamsInfo = None\<rparr>"

definition noDecoders :: "decoder \<Rightarrow> decompressor" where
  "noDecoders d props n readers = Inl (ErrDecoder 0)"

lemma chain_copyFolder: "chainFolder 2 copyFolder"
proof -
  have "{\<lparr>bp_in = of_nat (Suc i), bp_out = of_nat i\<rparr> |i. Suc i < 2} = {\<lparr>bp_in = 1, bp_out = 0\<rparr> :: bindPair}"
    by (auto intro: exI [of _ 0])
  then show ?thesis by (simp add: chainFolder_def copyFolder_def Let_def)
qed

theorem folder_reader_composes_witness:
  "folderReader (registerAll noDecoders) [9, 1, 2, 3, 9] copyStreams 0 [] =
     (Inr (newFolderReadCloser ([1, 2], EOF) 2 False, 7), copyStreams)"
proof -
  have "pipeline (registerAll noDecoders) copyFolder [] 0 (fo_coder copyFolder)
      (sectionBytes [9, 1, 2, 3, 9] 1 3, EOF) False = (Inr (([1, 2], EOF), False), [[], []])" by code_simp
  moreover have "withProperties copyStreams 0 [[], []] = copyStreams"
    by (simp add: withProperties_def setProperties_def copyStreams_def copyFolder_def Let_def)
  moreover have "unpackSize copyFolder = 2" by code_simp
  moreover have "folderOffset copyStreams 0 = Inr 1" by code_simp
  ultimately show ?thesis
    using folder_reader_composes [where si = copyStreams and k = 0 and n = 2 and base = 1
        and u = "\<lparr>ui_folder = [copyFolder], ui_digest = [7]\<rparr>"
        and p = "\<lparr>pi_position = 1, pi_streams = 1, pi_size = [3], pi_digest = []\<rparr>"
        and reg = "registerAll noDecoders" and src = "[9, 1, 2, 3, 9]" and password = "[]"]
    by (simp add: copyStreams_def chain_copyFolder packedOffset_def)
qed

end
