(* ===== verification/Pool.thy ===== *)
theory Pool
  imports "HOL-Library.Multiset"
begin

text \<open>
  Pools of partly read folder readers, \<open>internal/pool\<close>: a pool that keeps nothing, and one that
  keeps as many readers as there are processors, by the offset they have reached, and evicts the
  one that was put in first. Both are poolers: the contract is the locale \<open>pooler_contract\<close>, which is what
  opening files (theory \<open>File_Reader\<close>) relies on.

  The map \<open>items\<close> of the code holds exactly the elements of \<open>evictList\<close> by their key, so one list
  stands for both, with the most recent element first. Operations return the readers that they
  close.
\<close>

section \<open>The pool\<close>

record 'r pool =
  po_size :: nat
  po_list :: "(int \<times> 'r) list"

definition newPool :: "nat \<Rightarrow> 'r pool" where
  "newPool numCPU = \<lparr>po_size = numCPU, po_list = []\<rparr>"

definition removeElement :: "'r pool \<Rightarrow> int \<Rightarrow> 'r pool" where
  "removeElement p k = p\<lparr>po_list := filter (\<lambda>e. fst e \<noteq> k) (po_list p)\<rparr>"

definition poolKeys :: "'r pool \<Rightarrow> int list" where
  "poolKeys p = map fst (rev (po_list p))"

lemma sort_poolKeys: "sort (poolKeys p) = sort (map fst (po_list p))"
  by (rule properties_for_sort) (simp_all add: poolKeys_def rev_map)

text \<open>\<open>Get\<close>: the reader at the offset, or the one with the closest smaller key.\<close>

definition poolGet :: "'r pool \<Rightarrow> int \<Rightarrow> 'r option \<times> 'r pool" where
  "poolGet p offset =
     (case map_of (po_list p) offset of
        Some rc \<Rightarrow> (Some rc, removeElement p offset)
      | None \<Rightarrow>
          let keys = rev (sort (poolKeys p)) in
          case find (\<lambda>k. k < offset) keys of
            None \<Rightarrow> (None, p)
          | Some k \<Rightarrow> (map_of (po_list p) k, removeElement p k))"

definition removeOldest :: "'r pool \<Rightarrow> 'r pool \<times> 'r list" where
  "removeOldest p =
     (if po_list p = [] then (p, [])
      else case last (po_list p) of (k, rc) \<Rightarrow> (removeElement p k, [rc]))"

text \<open>\<open>Put\<close>: a second reader at the same offset is neither kept nor closed.\<close>

definition poolPut :: "'r pool \<Rightarrow> int \<Rightarrow> 'r \<Rightarrow> bool \<times> 'r pool \<times> 'r list" where
  "poolPut p offset rc =
     (case map_of (po_list p) offset of
        Some _ \<Rightarrow> (False, p, [])
      | None \<Rightarrow>
          let p = p\<lparr>po_list := (offset, rc) # po_list p\<rparr> in
          if po_size p < length (po_list p)
          then case removeOldest p of (p, closed) \<Rightarrow> (True, p, closed)
          else (False, p, []))"

text \<open>\<open>Close\<close> removes from the back until nothing is left.\<close>

definition poolClose :: "'r pool \<Rightarrow> 'r pool \<times> 'r list" where
  "poolClose p = (p\<lparr>po_list := []\<rparr>, map snd (rev (po_list p)))"

section \<open>Both kinds of pool\<close>

datatype 'r pooler = NoopPool | Lru "'r pool"

fun pget :: "'r pooler \<Rightarrow> int \<Rightarrow> 'r option \<times> 'r pooler" where
  "pget NoopPool offset = (None, NoopPool)"
| "pget (Lru p) offset = (case poolGet p offset of (rc, p') \<Rightarrow> (rc, Lru p'))"

fun pput :: "'r pooler \<Rightarrow> int \<Rightarrow> 'r \<Rightarrow> bool \<times> 'r pooler \<times> 'r list" where
  "pput NoopPool offset rc = (False, NoopPool, [rc])"
| "pput (Lru p) offset rc = (case poolPut p offset rc of (b, p', closed) \<Rightarrow> (b, Lru p', closed))"

fun pclose :: "'r pooler \<Rightarrow> 'r pooler \<times> 'r list" where
  "pclose NoopPool = (NoopPool, [])"
| "pclose (Lru p) = (case poolClose p of (p', closed) \<Rightarrow> (Lru p', closed))"

section \<open>The contract\<close>

text \<open>
  \<open>stored\<close> is what a pool holds. A reader that is got out was held at an offset that is not
  beyond the one asked for, and is held no longer; what is put in is held, closed, or (a second
  one at the same offset) dropped; closing closes everything.
\<close>

locale pooler_contract =
  fixes get :: "'p \<Rightarrow> int \<Rightarrow> 'r option \<times> 'p"
    and put :: "'p \<Rightarrow> int \<Rightarrow> 'r \<Rightarrow> bool \<times> 'p \<times> 'r list"
    and close :: "'p \<Rightarrow> 'p \<times> 'r list"
    and stored :: "'p \<Rightarrow> (int \<times> 'r) multiset"
    and sound :: "'p \<Rightarrow> bool"
  assumes get_some: "sound p \<Longrightarrow> get p offset = (Some rc, p') \<Longrightarrow>
      sound p' \<and> (\<exists>k\<le>offset. (k, rc) \<in># stored p \<and> stored p' = stored p - {#(k, rc)#})"
    and get_none: "sound p \<Longrightarrow> get p offset = (None, p') \<Longrightarrow> p' = p"
    and put_stored: "sound p \<Longrightarrow> put p offset rc = (b, p', closed) \<Longrightarrow>
      sound p' \<and> stored p' \<subseteq># add_mset (offset, rc) (stored p)
      \<and> (offset \<notin> fst ` set_mset (stored p) \<longrightarrow>
           image_mset snd (stored p') + mset closed = add_mset rc (image_mset snd (stored p)))"
    and close_stored: "sound p \<Longrightarrow> close p = (p', closed) \<Longrightarrow>
      sound p' \<and> stored p' = {#} \<and> mset closed = image_mset snd (stored p)"
begin

text \<open>A property of all readers and their offsets survives every operation.\<close>

lemma get_all:
  assumes "sound p" and "get p offset = (Some rc, p')" and "\<forall>e\<in>#stored p. P (fst e) (snd e)"
  shows "sound p' \<and> (\<forall>e\<in>#stored p'. P (fst e) (snd e)) \<and> (\<exists>k\<le>offset. P k rc)"
proof -
  obtain k where "sound p'" "k \<le> offset" "(k, rc) \<in># stored p" "stored p' = stored p - {#(k, rc)#}"
    using get_some [OF assms(1,2)] by blast
  with assms(3) show ?thesis by (fastforce dest: in_diffD)
qed

lemma put_all:
  assumes "sound p" and "put p offset rc = (b, p', closed)" and "\<forall>e\<in>#stored p. P (fst e) (snd e)"
    and "P offset rc"
  shows "sound p' \<and> (\<forall>e\<in>#stored p'. P (fst e) (snd e))"
proof -
  have "sound p'" and sub: "stored p' \<subseteq># add_mset (offset, rc) (stored p)"
    using put_stored [OF assms(1,2)] by simp_all
  moreover have "P (fst e) (snd e)" if "e \<in># stored p'" for e
    using mset_subset_eqD [OF sub that] assms(3,4) by auto
  ultimately show ?thesis by blast
qed

end

section \<open>The pool keeps the contract\<close>

definition keysDistinct :: "'r pool \<Rightarrow> bool" where
  "keysDistinct p \<longleftrightarrow> distinct (map fst (po_list p))"

lemma filter_key_mset:
  assumes "distinct (map fst xs)" and "(k, v) \<in> set xs"
  shows "mset (filter (\<lambda>e. fst e \<noteq> k) xs) = mset xs - {#(k, v)#}"
  using assms
proof (induction xs)
  case (Cons x xs)
  show ?case
  proof (cases "fst x = k")
    case True
    with Cons.prems have "x = (k, v)" "k \<notin> fst ` set xs" by (auto simp: image_iff)
    moreover from this have "filter (\<lambda>e. fst e \<noteq> k) xs = xs" by (auto simp: filter_id_conv)
    ultimately show ?thesis by simp
  next
    case False
    with Cons have "(k, v) \<in># mset xs" "mset (filter (\<lambda>e. fst e \<noteq> k) xs) = mset xs - {#(k, v)#}" "x \<noteq> (k, v)" by auto
    with False show ?thesis by simp
  qed
qed simp

lemma removeElement_distinct: "keysDistinct p \<Longrightarrow> keysDistinct (removeElement p k)"
  by (simp add: keysDistinct_def removeElement_def distinct_map_filter)

lemma removeElement_mset:
  "keysDistinct p \<Longrightarrow> (k, v) \<in> set (po_list p) \<Longrightarrow>
   mset (po_list (removeElement p k)) = mset (po_list p) - {#(k, v)#}"
  by (simp add: keysDistinct_def removeElement_def filter_key_mset del: mset_filter)

text \<open>What \<open>Get\<close> finds: the held reader with the largest key up to the offset.\<close>

lemma find_descending:
  fixes ks :: "int list"
  assumes "sorted_wrt (\<ge>) ks" and "find (\<lambda>k. k < offset) ks = Some k"
  shows "k \<in> set ks \<and> k < offset \<and> (\<forall>k'\<in>set ks. k' < offset \<longrightarrow> k' \<le> k)"
  using assms by (induction ks) (auto split: if_splits)

lemma find_rev_sort:
  fixes ks :: "int list"
  assumes "find (\<lambda>k. k < offset) (rev (sort ks)) = Some k"
  shows "k \<in> set ks \<and> k < offset \<and> (\<forall>k'\<in>set ks. k' < offset \<longrightarrow> k' \<le> k)"
proof -
  have "sorted_wrt (\<ge>) (rev (sort ks))" by (simp add: sorted_wrt_rev)
  from find_descending [OF this assms] show ?thesis by simp
qed

lemma poolGet_closest:
  assumes "keysDistinct p" and "poolGet p offset = (Some rc, p')"
  shows "\<exists>k\<le>offset. (k, rc) \<in> set (po_list p) \<and> p' = removeElement p k
    \<and> (\<forall>k'\<in>fst ` set (po_list p). k' \<le> offset \<longrightarrow> k' \<le> k)"
proof (cases "map_of (po_list p) offset")
  case (Some a)
  with assms show ?thesis by (auto simp: poolGet_def sort_poolKeys dest: map_of_SomeD)
next
  case None
  then obtain k where k: "find (\<lambda>k. k < offset) (rev (sort (map fst (po_list p)))) = Some k"
      "map_of (po_list p) k = Some rc" "p' = removeElement p k"
    using assms(2) by (auto simp: poolGet_def sort_poolKeys split: option.splits)
  have "offset \<notin> fst ` set (po_list p)" using None by (simp add: map_of_eq_None_iff)
  with k find_rev_sort [OF k(1)] show ?thesis
    by (intro exI [of _ k]) (auto dest: map_of_SomeD, force)
qed

lemma poolGet_none:
  assumes "poolGet p offset = (None, p')"
  shows "p' = p \<and> (\<forall>k\<in>fst ` set (po_list p). offset < k)"
proof -
  have none: "map_of (po_list p) offset = None"
    using assms by (auto simp: poolGet_def sort_poolKeys split: option.splits)
  have "find (\<lambda>k. k < offset) (rev (sort (map fst (po_list p)))) = None"
  proof (rule ccontr)
    assume "find (\<lambda>k. k < offset) (rev (sort (map fst (po_list p)))) \<noteq> None"
    then obtain k where k: "find (\<lambda>k. k < offset) (rev (sort (map fst (po_list p)))) = Some k" by blast
    then have "k \<in> fst ` set (po_list p)" using find_rev_sort by fastforce
    then obtain v where "map_of (po_list p) k = Some v" by (metis map_of_eq_None_iff not_None_eq)
    with k none assms show False by (simp add: poolGet_def sort_poolKeys)
  qed
  moreover from this have "\<forall>k\<in>fst ` set (po_list p). offset \<le> k"
    by (auto simp: find_None_iff not_less)
  moreover have "\<forall>k\<in>fst ` set (po_list p). offset \<noteq> k"
    using none by (auto simp: map_of_eq_None_iff)
  ultimately show ?thesis using none assms by (auto simp: poolGet_def sort_poolKeys order.strict_iff_order)
qed

fun lruStored :: "'r pooler \<Rightarrow> (int \<times> 'r) multiset" where
  "lruStored NoopPool = {#}"
| "lruStored (Lru p) = mset (po_list p)"

fun lruSound :: "'r pooler \<Rightarrow> bool" where
  "lruSound NoopPool = True"
| "lruSound (Lru p) = keysDistinct p"

lemma removeOldest_mset:
  assumes "keysDistinct p" and "removeOldest p = (p', closed)"
  shows "keysDistinct p' \<and> (\<exists>es. mset (po_list p') + mset es = mset (po_list p) \<and> closed = map snd es)"
proof (cases "po_list p = []")
  case True
  then show ?thesis using assms by (auto simp: removeOldest_def intro!: exI [of _ "[]"])
next
  case False
  obtain k rc where l: "last (po_list p) = (k, rc)" by (cases "last (po_list p)")
  then have "(k, rc) \<in> set (po_list p)" using False by (metis last_in_set)
  with assms False l removeElement_mset [OF assms(1) this] removeElement_distinct [OF assms(1)]
  show ?thesis by (auto simp: removeOldest_def intro!: exI [of _ "[(k, rc)]"])
qed

lemma poolPut_stored:
  assumes ok: "keysDistinct p" and put: "poolPut p offset rc = (b, p', closed)"
  shows "keysDistinct p' \<and> mset (po_list p') \<subseteq># add_mset (offset, rc) (mset (po_list p))
    \<and> (offset \<notin> fst ` set (po_list p) \<longrightarrow>
         image_mset snd (mset (po_list p')) + mset closed = add_mset rc (image_mset snd (mset (po_list p))))"
proof (cases "map_of (po_list p) offset")
  case (Some a)
  then have "offset \<in> fst ` set (po_list p)" by (metis map_of_eq_None_iff option.distinct(1))
  with Some ok put show ?thesis by (simp add: poolPut_def)
next
  case None
  define q where "q = p\<lparr>po_list := (offset, rc) # po_list p\<rparr>"
  have q: "keysDistinct q" "mset (po_list q) = add_mset (offset, rc) (mset (po_list p))"
    using ok None by (simp_all add: q_def keysDistinct_def map_of_eq_None_iff)
  show ?thesis
  proof (cases "po_size q < length (po_list q)")
    case True
    then have "removeOldest q = (p', closed)"
      using put None by (auto simp: poolPut_def q_def Let_def split: prod.splits)
    from removeOldest_mset [OF q(1) this] obtain es where
      es: "keysDistinct p'" "mset (po_list p') + mset es = mset (po_list q)" "closed = map snd es" by blast
    have "image_mset snd (mset (po_list p')) + mset closed = image_mset snd (mset (po_list p') + mset es)"
      by (simp add: es(3))
    moreover have "mset (po_list p') \<subseteq># mset (po_list q)" by (metis es(2) mset_subset_eq_add_left)
    ultimately show ?thesis using es q by simp
  next
    case False
    then have "p' = q" "closed = []" using put None by (auto simp: poolPut_def q_def Let_def)
    with q show ?thesis by simp
  qed
qed

interpretation pool: pooler_contract pget pput pclose lruStored lruSound
proof
  fix p p' :: "'r pooler" and offset :: int and rc :: 'r
  assume ok: "lruSound p" and get: "pget p offset = (Some rc, p')"
  then obtain q q' where p: "p = Lru q" "p' = Lru q'" "poolGet q offset = (Some rc, q')" "keysDistinct q"
    by (cases p) (auto split: prod.splits)
  from poolGet_closest [OF p(4,3)] obtain k where
    k: "k \<le> offset" "(k, rc) \<in> set (po_list q)" "q' = removeElement q k" by blast
  with p removeElement_mset [OF p(4) k(2)] removeElement_distinct [OF p(4), of k]
  show "lruSound p' \<and> (\<exists>k\<le>offset. (k, rc) \<in># lruStored p \<and> lruStored p' = lruStored p - {#(k, rc)#})"
    by auto
next
  fix p p' :: "'r pooler" and offset
  assume "pget p offset = (None, p')"
  then show "p' = p"
    by (cases p) (auto split: prod.splits dest: poolGet_none)
next
  fix p p' :: "'r pooler" and offset rc b closed
  assume "lruSound p" and "pput p offset rc = (b, p', closed)"
  then show "lruSound p' \<and> lruStored p' \<subseteq># add_mset (offset, rc) (lruStored p)
      \<and> (offset \<notin> fst ` set_mset (lruStored p) \<longrightarrow>
           image_mset snd (lruStored p') + mset closed = add_mset rc (image_mset snd (lruStored p)))"
    by (cases p) (auto split: prod.splits dest: poolPut_stored)
next
  fix p p' :: "'r pooler" and closed
  assume "lruSound p" and "pclose p = (p', closed)"
  then show "lruSound p' \<and> lruStored p' = {#} \<and> mset closed = image_mset snd (lruStored p)"
    by (cases p) (auto simp: poolClose_def keysDistinct_def)
qed

section \<open>Runs\<close>

text \<open>
  A run of a pool for \<open>n\<close> processors, with what happened to the readers: those put in, those
  handed out again, those closed, and those that were dropped because the pool already had a
  reader at that offset.
\<close>

inductive poolRun :: "nat \<Rightarrow> 'r pool \<Rightarrow> 'r multiset \<Rightarrow> 'r multiset \<Rightarrow> 'r multiset \<Rightarrow> 'r multiset \<Rightarrow> bool"
  for n where
  start: "poolRun n (newPool n) {#} {#} {#} {#}"
| get: "poolRun n p given out closed dropped \<Longrightarrow> poolGet p offset = (Some rc, p') \<Longrightarrow>
    poolRun n p' given (add_mset rc out) closed dropped"
| miss: "poolRun n p given out closed dropped \<Longrightarrow> poolGet p offset = (None, p') \<Longrightarrow>
    poolRun n p' given out closed dropped"
| keep: "poolRun n p given out closed dropped \<Longrightarrow> offset \<notin> fst ` set (po_list p) \<Longrightarrow>
    poolPut p offset rc = (b, p', evicted) \<Longrightarrow>
    poolRun n p' (add_mset rc given) out (closed + mset evicted) dropped"
| drop: "poolRun n p given out closed dropped \<Longrightarrow> offset \<in> fst ` set (po_list p) \<Longrightarrow>
    poolPut p offset rc = (b, p', evicted) \<Longrightarrow>
    poolRun n p' (add_mset rc given) out (closed + mset evicted) (add_mset rc dropped)"
| close: "poolRun n p given out closed dropped \<Longrightarrow> poolClose p = (p', evicted) \<Longrightarrow>
    poolRun n p' given out (closed + mset evicted) dropped"

lemma poolGet_shape:
  "poolGet p offset = (x, p') \<Longrightarrow> po_size p' = po_size p \<and> length (po_list p') \<le> length (po_list p)"
  by (auto simp: poolGet_def sort_poolKeys removeElement_def split: option.splits)

lemma poolPut_shape:
  assumes "length (po_list p) \<le> po_size p" and "poolPut p offset rc = (b, p', closed)"
  shows "po_size p' = po_size p \<and> length (po_list p') \<le> po_size p"
proof -
  have "length (filter (\<lambda>e. fst e \<noteq> fst (last xs)) xs) < length xs" if "xs \<noteq> []" for xs :: "(int \<times> 'a) list"
    using that by (intro length_filter_less [of "last xs"]) simp_all
  from this [of "(offset, rc) # po_list p"] assms show ?thesis
    by (auto simp: poolPut_def removeOldest_def removeElement_def Let_def split: option.splits if_splits prod.splits)
qed

lemma poolPut_present:
  "offset \<in> fst ` set (po_list p) \<Longrightarrow> poolPut p offset rc = (False, p, [])"
  by (cases "map_of (po_list p) offset") (auto simp: poolPut_def map_of_eq_None_iff)

lemma poolRun_inv:
  "poolRun n p given out closed dropped \<Longrightarrow>
   keysDistinct p \<and> po_size p = n \<and> length (po_list p) \<le> n
   \<and> given = image_mset snd (mset (po_list p)) + out + closed + dropped"
proof (induction rule: poolRun.induct)
  case start
  show ?case by (simp add: newPool_def keysDistinct_def)
next
  case (get p given out closed dropped offset rc p')
  obtain k where "(k, rc) \<in> set (po_list p)" "p' = removeElement p k"
    using poolGet_closest [of p offset rc p'] get by blast
  moreover from this get have "mset (po_list p) = add_mset (k, rc) (mset (po_list p'))"
    by (simp add: removeElement_mset)
  ultimately show ?case using get poolGet_shape [OF get(2)] by (simp add: removeElement_distinct)
next
  case (miss p given out closed dropped offset p')
  then show ?case using poolGet_none [of p offset p'] by simp
next
  case (keep p given out closed dropped offset rc b p' evicted)
  then show ?case using poolPut_stored [of p offset rc b p' evicted] poolPut_shape [of p offset rc b p' evicted]
    by simp
next
  case (drop p given out closed dropped offset rc b p' evicted)
  then show ?case using poolPut_present [of offset p rc] by simp
next
  case (close p given out closed dropped p' evicted)
  then show ?case by (auto simp: poolClose_def keysDistinct_def)
qed

section \<open>Properties\<close>

text \<open>
C30: A pool never holds more readers than there are processors, never two at the same offset, and
loses track of none: in every run each reader that was put in is held, was handed out, was
closed, or was dropped by a \<open>Put\<close> at an offset that the pool already had, each exactly once.
\<close>

theorem pool_accounts_for_readers:
  assumes "poolRun n p given out closed dropped"
  shows "length (po_list p) \<le> n \<and> distinct (map fst (po_list p))
    \<and> given = mset (map snd (po_list p)) + out + closed + dropped"
  using poolRun_inv [OF assms] by (simp add: keysDistinct_def)

theorem pool_accounts_for_readers_witness:
  "\<exists>p. poolRun 1 p {#3, 7#} {#} {#7::int#} {#} \<and> po_list p = [(20, 3)]"
proof -
  have put: "poolPut (newPool 1) 10 (7::int) = (False, \<lparr>po_size = 1, po_list = [(10, 7)]\<rparr>, [])"
    by (simp add: poolPut_def newPool_def)
  have "poolRun 1 \<lparr>po_size = 1, po_list = [(10, 7)]\<rparr> {#7::int#} {#} {#} {#}"
    using poolRun.keep [OF poolRun.start _ put] by (simp add: newPool_def)
  from poolRun.keep [OF this, of 20 3 True "\<lparr>po_size = 1, po_list = [(20, 3)]\<rparr>" "[7]"]
  have run: "poolRun 1 \<lparr>po_size = 1, po_list = [(20, 3)]\<rparr> {#3, 7#} {#} {#7::int#} {#}"
    by (simp add: poolPut_def removeOldest_def removeElement_def)
  from pool_accounts_for_readers [OF run] run show ?thesis by auto
qed

text \<open>
C31: \<open>Get\<close> finds the best reader: in every state a pool can reach it hands out the held reader
with the greatest offset not beyond the one asked for, the exact one if there is one, and
nothing only if all held readers are beyond; every other reader stays.
\<close>

theorem pool_returns_closest:
  assumes "poolRun n p given out closed dropped" and "poolGet p offset = (x, p')"
  shows "case x of
      None \<Rightarrow> p' = p \<and> (\<forall>k\<in>fst ` set (po_list p). offset < k)
    | Some rc \<Rightarrow> \<exists>k\<le>offset. (k, rc) \<in> set (po_list p)
        \<and> (\<forall>k'\<in>fst ` set (po_list p). k' \<le> offset \<longrightarrow> k' \<le> k)
        \<and> po_list p' = filter (\<lambda>e. fst e \<noteq> k) (po_list p)"
proof (cases x)
  case None
  with assms(2) show ?thesis using poolGet_none [of p offset p'] by simp
next
  case (Some rc)
  have "keysDistinct p" using poolRun_inv [OF assms(1)] by simp
  from poolGet_closest [OF this, of offset rc p'] assms(2) Some
  show ?thesis by (auto simp: removeElement_def)
qed

theorem pool_returns_closest_witness:
  "\<exists>p p'. poolRun 2 p {#3, 7#} {#} {#} {#} \<and> poolGet p 15 = (Some (7::int), p')"
proof -
  have put: "poolPut (newPool 2) 10 (7::int) = (False, \<lparr>po_size = 2, po_list = [(10, 7)]\<rparr>, [])"
    by (simp add: poolPut_def newPool_def)
  have "poolRun 2 \<lparr>po_size = 2, po_list = [(10, 7)]\<rparr> {#7::int#} {#} {#} {#}"
    using poolRun.keep [OF poolRun.start _ put] by (simp add: newPool_def)
  from poolRun.keep [OF this, of 20 3 False "\<lparr>po_size = 2, po_list = [(20, 3), (10, 7)]\<rparr>" "[]"]
  have run: "poolRun 2 \<lparr>po_size = 2, po_list = [(20, 3), (10, 7)]\<rparr> {#3, 7::int#} {#} {#} {#}" (is "poolRun 2 ?p _ _ _ _")
    by (simp add: poolPut_def)
  obtain x p' where g: "poolGet ?p 15 = (x, p')" by (cases "poolGet ?p 15")
  have "x = Some 7"
    using pool_returns_closest [OF run g] by (cases x) auto
  with run g show ?thesis by blast
qed

end
