(* ===== verification/Paths.thy ===== *)
theory Paths
  imports Structs Unicode
begin

text \<open>
  Slash-separated names: \<open>path.Clean\<close> and \<open>path.Dir\<close> of the Go library, \<open>fs.ValidPath\<close>, and
  \<open>toValidName\<close> and \<open>split\<close> of \<open>reader.go\<close>. A name is read as the list of its components; the
  lemmas reduce the functions on byte strings to functions on component lists.
\<close>

section \<open>Components\<close>

definition dot :: byte where
  "dot = 0x2E"

definition backslash :: byte where
  "backslash = 0x5C"

fun splitSlash :: "gostring \<Rightarrow> gostring list" where
  "splitSlash [] = [[]]"
| "splitSlash (c # cs) =
     (if c = slash then [] # splitSlash cs
      else (case splitSlash cs of p # ps \<Rightarrow> (c # p) # ps | [] \<Rightarrow> [[c]]))"

fun joinSlash :: "gostring list \<Rightarrow> gostring" where
  "joinSlash [] = []"
| "joinSlash [p] = p"
| "joinSlash (p # q # ps) = p @ slash # joinSlash (q # ps)"

lemma splitSlash_ne [simp]: "splitSlash s \<noteq> []"
  by (induction s) (auto split: list.split)

lemma joinSlash_cons: "ps \<noteq> [] \<Longrightarrow> joinSlash (p # ps) = p @ slash # joinSlash ps"
  by (cases ps) simp_all

lemma join_split [simp]: "joinSlash (splitSlash s) = s"
proof (induction s)
  case (Cons c cs)
  obtain p ps where "splitSlash cs = p # ps" using splitSlash_ne [of cs] by (cases "splitSlash cs") auto
  with Cons show ?case by (cases ps) auto
qed simp

lemma splitSlash_plain: "slash \<notin> set p \<Longrightarrow> splitSlash p = [p]"
  by (induction p) auto

lemma splitSlash_append: "slash \<notin> set p \<Longrightarrow> splitSlash (p @ slash # s) = p # splitSlash s"
  by (induction p) auto

lemma split_join:
  "ps \<noteq> [] \<Longrightarrow> \<forall>p\<in>set ps. slash \<notin> set p \<Longrightarrow> splitSlash (joinSlash ps) = ps"
  by (induction ps rule: joinSlash.induct) (simp_all add: splitSlash_plain splitSlash_append)

lemma splitSlash_noslash: "p \<in> set (splitSlash s) \<Longrightarrow> slash \<notin> set p"
proof (induction s arbitrary: p)
  case (Cons c cs)
  obtain q ps where q: "splitSlash cs = q # ps" using splitSlash_ne [of cs] by (cases "splitSlash cs") auto
  with Cons show ?case by (auto split: if_splits)
qed simp

lemma joinSlash_append: "ps \<noteq> [] \<Longrightarrow> qs \<noteq> [] \<Longrightarrow> joinSlash (ps @ qs) = joinSlash ps @ slash # joinSlash qs"
  by (induction ps rule: joinSlash.induct) (simp_all add: joinSlash_cons)

section \<open>The path package\<close>

text \<open>\<open>path.Clean\<close>: empty and dot components go, a double dot takes the component before it.\<close>

fun cleanParts :: "bool \<Rightarrow> gostring list \<Rightarrow> gostring list \<Rightarrow> gostring list" where
  "cleanParts rooted acc [] = rev acc"
| "cleanParts rooted acc (c # cs) =
     (if c = [] \<or> c = [dot] then cleanParts rooted acc cs
      else if c = [dot, dot] then
        (case acc of
           [] \<Rightarrow> cleanParts rooted (if rooted then [] else [c]) cs
         | a # as \<Rightarrow> cleanParts rooted (if a = [dot, dot] then c # acc else as) cs)
      else cleanParts rooted (c # acc) cs)"

definition pathClean :: "gostring \<Rightarrow> gostring" where
  "pathClean s =
     (let rooted = (s \<noteq> [] \<and> hd s = slash);
          p = joinSlash (cleanParts rooted [] (splitSlash s))
      in if rooted then slash # p else if p = [] then [dot] else p)"

text \<open>\<open>path.Dir\<close>: what precedes the last slash, cleaned.\<close>

definition pathDir :: "gostring \<Rightarrow> gostring" where
  "pathDir s = pathClean (rev (dropWhile (\<lambda>c. c \<noteq> slash) (rev s)))"

text \<open>\<open>fs.ValidPath\<close>.\<close>

definition goodPart :: "gostring \<Rightarrow> bool" where
  "goodPart p \<longleftrightarrow> p \<noteq> [] \<and> p \<noteq> [dot] \<and> p \<noteq> [dot, dot]"

definition validPath :: "gostring \<Rightarrow> bool" where
  "validPath s \<longleftrightarrow>
     utf8Encode (runes s) = s \<and> (s = [dot] \<or> list_all goodPart (splitSlash s))"

section \<open>Names of entries\<close>

function stripDotDot :: "gostring \<Rightarrow> gostring" where
  "stripDotDot p = (if take 3 p = [dot, dot, slash] then stripDotDot (drop 3 p) else p)"
  by pat_completeness auto
termination
proof (relation "measure length", goal_cases)
  case (2 p)
  then have "p \<noteq> []" by auto
  then show ?case by simp
qed simp

declare stripDotDot.simps [simp del]

definition toValidName :: "gostring \<Rightarrow> gostring" where
  "toValidName name =
     (let name = map (\<lambda>c. if c = backslash then slash else c) name;
          p = pathClean name;
          p = (if p \<noteq> [] \<and> hd p = slash then tl p else p)
      in stripDotDot p)"

text \<open>\<open>split\<close>: the directory and the last element of a name.\<close>

definition splitName :: "gostring \<Rightarrow> gostring \<times> gostring" where
  "splitName name =
     (let name = (if name \<noteq> [] \<and> last name = slash then butlast name else name);
          elem = rev (takeWhile (\<lambda>c. c \<noteq> slash) (rev name))
      in if length elem = length name then ([dot], name)
         else (take (length name - length elem - 1) name, elem))"

section \<open>Clean names\<close>

text \<open>A relative clean path: double dots, then good components.\<close>

definition relClean :: "gostring list \<Rightarrow> bool" where
  "relClean ps \<longleftrightarrow> (\<exists>n gs. ps = replicate n [dot, dot] @ gs \<and> list_all goodPart gs)"

lemma cleanParts_rooted:
  assumes "list_all goodPart acc"
  shows "list_all goodPart (cleanParts True acc cs)"
  using assms
proof (induction True acc cs rule: cleanParts.induct)
  case (2 acc c cs)
  have "list_all goodPart as" "a \<noteq> [dot, dot]" if "acc = a # as" for a as
    using 2(5) that by (simp_all add: goodPart_def)
  with 2 show ?case by (auto simp: goodPart_def [of c] split: list.split)
qed simp

lemma cleanParts_rel:
  assumes "relClean (rev acc)"
  shows "relClean (cleanParts False acc cs)"
  using assms
proof (induction False acc cs rule: cleanParts.induct)
  case (2 acc c cs)
  obtain n gs where a: "rev acc = replicate n [dot, dot] @ gs" "list_all goodPart gs"
    using 2(5) by (auto simp: relClean_def)
  have push: "relClean (rev acc @ [c])" if "goodPart c"
    unfolding relClean_def a(1) using a(2) that by (intro exI [of _ n] exI [of _ "gs @ [c]"]) simp
  have dots: "relClean (rev as @ [a, c])" if "c = [dot, dot]" "acc = a # as" "a = [dot, dot]" for a as
  proof -
    have "gs = []"
    proof (rule ccontr)
      assume "gs \<noteq> []"
      then have "last (rev acc) = last gs" by (simp add: a(1))
      then have "goodPart a" using a(2) that(2) \<open>gs \<noteq> []\<close> by (simp add: list_all_iff)
      with that(3) show False by (simp add: goodPart_def)
    qed
    then have "rev as @ [a, c] = replicate (Suc n) [dot, dot]"
      using a(1) that by (simp add: replicate_append_same [symmetric])
    then show ?thesis unfolding relClean_def by (intro exI [of _ "Suc n"] exI [of _ "[]"]) simp
  qed
  have pop: "relClean (rev as)" if "acc = b # as" "b \<noteq> [dot, dot]" for b as
  proof -
    have "gs \<noteq> []"
    proof
      assume "gs = []"
      then have "rev acc = replicate n [dot, dot]" using a(1) by simp
      with that show False by (metis in_set_replicate list.set_intros(1) set_rev)
    qed
    then have "rev as = replicate n [dot, dot] @ butlast gs"
      using a(1) that(1) by (metis butlast_append butlast_snoc rev.simps(2))
    moreover have "list_all goodPart (butlast gs)" using a(2) by (auto simp: list_all_iff dest: in_set_butlastD)
    ultimately show ?thesis unfolding relClean_def by blast
  qed
  have one: "relClean [[dot, dot]]" unfolding relClean_def by (intro exI [of _ 1] exI [of _ "[]"]) simp
  consider "c = [] \<or> c = [dot]" | "c = [dot, dot]" | "goodPart c" by (auto simp: goodPart_def)
  then show ?case
  proof cases
    case 2
    with "2.hyps"(2,3) one dots pop show ?thesis by (cases acc) auto
  next
    case 3
    with "2.hyps"(4) push show ?thesis by (auto simp: goodPart_def)
  qed (use 2 in auto)
qed simp

lemma cleanParts_step:
  "c = [] \<or> c = [dot] \<Longrightarrow> cleanParts rooted acc (c # cs) = cleanParts rooted acc cs"
  "goodPart c \<Longrightarrow> cleanParts rooted acc (c # cs) = cleanParts rooted (c # acc) cs"
  "cleanParts rooted [] ([dot, dot] # cs) = cleanParts rooted (if rooted then [] else [[dot, dot]]) cs"
  "cleanParts rooted (a # as) ([dot, dot] # cs)
     = cleanParts rooted (if a = [dot, dot] then [dot, dot] # a # as else as) cs"
  by (auto simp: goodPart_def)

lemma cleanParts_parts: "set (cleanParts rooted acc cs) \<subseteq> set acc \<union> set cs"
proof (induction cs arbitrary: acc)
  case (Cons c cs)
  consider "c = [] \<or> c = [dot]" | "c = [dot, dot]" | "goodPart c" by (auto simp: goodPart_def)
  then show ?case
  proof cases
    case 1
    show ?thesis unfolding cleanParts_step(1) [OF 1] using Cons.IH [of acc] by auto
  next
    case 2
    show ?thesis
    proof (cases acc)
      case Nil
      show ?thesis unfolding Nil 2 cleanParts_step(3)
        using Cons.IH [of "if rooted then [] else [[dot, dot]]"] by (auto split: if_splits)
    next
      case (Cons a as)
      show ?thesis unfolding Cons 2 cleanParts_step(4)
        using Cons.IH [of "if a = [dot, dot] then [dot, dot] # a # as else as"] by (auto split: if_splits)
    qed
  next
    case 3
    show ?thesis unfolding cleanParts_step(2) [OF 3] using Cons.IH [of "c # acc"] by auto
  qed
qed simp

lemma goodParts_clean: "list_all goodPart cs \<Longrightarrow> cleanParts rooted acc cs = rev acc @ cs"
  by (induction cs arbitrary: acc) (auto simp: goodPart_def)

section \<open>Good paths\<close>

text \<open>The paths that \<open>toValidName\<close> makes: good components without slashes.\<close>

definition goodPath :: "gostring list \<Rightarrow> bool" where
  "goodPath ps \<longleftrightarrow> ps \<noteq> [] \<and> (\<forall>p\<in>set ps. goodPart p \<and> slash \<notin> set p)"

lemma goodPath_split [simp]: "goodPath ps \<Longrightarrow> splitSlash (joinSlash ps) = ps"
  by (rule split_join) (auto simp: goodPath_def)

lemma goodPath_inject: "goodPath ps \<Longrightarrow> goodPath qs \<Longrightarrow> joinSlash ps = joinSlash qs \<longleftrightarrow> ps = qs"
  by (metis goodPath_split)

lemma goodPath_butlast: "goodPath ps \<Longrightarrow> 1 < length ps \<Longrightarrow> goodPath (butlast ps)"
proof -
  assume "goodPath ps" and "1 < length ps"
  moreover from this(2) have "butlast ps \<noteq> []" by (cases ps) (auto split: if_splits)
  ultimately show ?thesis by (auto simp: goodPath_def dest: in_set_butlastD)
qed

lemma goodPath_hd:
  assumes "goodPath ps"
  shows "joinSlash ps \<noteq> [] \<and> hd (joinSlash ps) \<noteq> slash"
proof -
  obtain p qs where p: "ps = p # qs" "p \<noteq> []" "slash \<notin> set p"
    using assms by (cases ps) (auto simp: goodPath_def goodPart_def)
  then have "hd p \<noteq> slash" by (metis hd_in_set)
  with p show ?thesis by (cases qs) (simp_all add: joinSlash_cons)
qed

lemma goodPath_last:
  assumes "goodPath ps"
  shows "last (joinSlash ps) \<noteq> slash"
proof -
  obtain p qs where p: "ps = qs @ [p]" "p \<noteq> []" "slash \<notin> set p"
    using assms by (cases ps rule: rev_cases) (auto simp: goodPath_def goodPart_def)
  then have "last p \<noteq> slash" by (metis last_in_set)
  with p show ?thesis by (cases "qs = []") (simp_all add: joinSlash_append)
qed

lemma no_dotdot_prefix:
  assumes "goodPath ps"
  shows "take 3 (joinSlash ps) \<noteq> [dot, dot, slash]"
proof
  assume "take 3 (joinSlash ps) = [dot, dot, slash]"
  then have "joinSlash ps = [dot, dot] @ slash # drop 3 (joinSlash ps)"
    by (metis append_Cons append_Nil append_take_drop_id)
  then have "ps = [dot, dot] # splitSlash (drop 3 (joinSlash ps))"
    using splitSlash_append [of "[dot, dot]" "drop 3 (joinSlash ps)"] goodPath_split [OF assms]
    by (simp add: dot_def slash_def)
  then have "goodPart [dot, dot]" using assms unfolding goodPath_def by (metis list.set_intros(1))
  then show False by (simp add: goodPart_def)
qed

lemma stripDotDot_good: "goodPath ps \<Longrightarrow> stripDotDot (joinSlash ps) = joinSlash ps"
  using no_dotdot_prefix by (subst stripDotDot.simps) simp

lemma stripDotDot_rel:
  "gs = [] \<or> goodPath gs \<Longrightarrow>
   stripDotDot (joinSlash (replicate n [dot, dot] @ gs))
     = (if gs \<noteq> [] then joinSlash gs else if n = 0 then [] else [dot, dot])"
proof (induction n)
  case 0
  then show ?case by (auto simp: stripDotDot_good stripDotDot.simps [of "[]"])
next
  case (Suc n)
  let ?rest = "replicate n [dot, dot] @ gs"
  show ?case
  proof (cases "?rest = []")
    case True
    then show ?thesis by (simp add: stripDotDot.simps [of "[dot, dot]"])
  next
    case False
    then have "joinSlash (replicate (Suc n) [dot, dot] @ gs) = [dot, dot, slash] @ joinSlash ?rest"
      by (simp add: joinSlash_cons)
    then have "stripDotDot (joinSlash (replicate (Suc n) [dot, dot] @ gs)) = stripDotDot (joinSlash ?rest)"
      by (subst stripDotDot.simps) (simp add: numeral_3_eq_3)
    with Suc False show ?thesis by (cases "n = 0") auto
  qed
qed

text \<open>The result of \<open>toValidName\<close>: nothing, a dot, two dots, or a good path.\<close>

lemma toValidName_cases:
  "toValidName name = [] \<or> toValidName name = [dot] \<or> toValidName name = [dot, dot]
   \<or> (\<exists>ps. goodPath ps \<and> toValidName name = joinSlash ps)"
proof -
  define s where "s = map (\<lambda>c. if c = backslash then slash else c) name"
  define rooted where "rooted = (s \<noteq> [] \<and> hd s = slash)"
  define cs where "cs = cleanParts rooted [] (splitSlash s)"
  have noslash: "\<forall>p\<in>set cs. slash \<notin> set p"
    using cleanParts_parts [of rooted "[]" "splitSlash s"] splitSlash_noslash [of _ s] unfolding cs_def by auto
  have good: "goodPath gs" if "list_all goodPart gs" "set gs \<subseteq> set cs" "gs \<noteq> []" for gs
    using that noslash by (auto simp: goodPath_def list_all_iff)
  have clean: "pathClean s = (if rooted then slash # joinSlash cs else if joinSlash cs = [] then [dot] else joinSlash cs)"
    by (simp add: pathClean_def Let_def rooted_def cs_def)
  show ?thesis
  proof (cases rooted)
    case True
    then have "toValidName name = stripDotDot (joinSlash cs)"
      using clean by (simp add: toValidName_def s_def [symmetric])
    moreover have "list_all goodPart cs" using True by (simp add: cs_def cleanParts_rooted)
    then have "cs = [] \<or> goodPath cs" using good [of cs] by blast
    ultimately show ?thesis using stripDotDot_rel [of cs 0] by auto
  next
    case False
    have "relClean cs"
      using False cleanParts_rel [of "[]" "splitSlash s"] by (simp add: cs_def) (simp add: relClean_def)
    then obtain n gs where cs: "cs = replicate n [dot, dot] @ gs" "gs = [] \<or> goodPath gs"
      using good unfolding relClean_def by (metis Un_upper2 set_append)
    show ?thesis
    proof (cases "cs = []")
      case True
      then have "pathClean s = [dot]" using clean False by simp
      then have "toValidName name = [dot]"
        by (simp add: toValidName_def s_def [symmetric] stripDotDot.simps dot_def slash_def)
      then show ?thesis by simp
    next
      case ne: False
      have "joinSlash cs \<noteq> [] \<and> hd (joinSlash cs) \<noteq> slash"
      proof (cases n)
        case 0
        with cs ne goodPath_hd show ?thesis by auto
      next
        case (Suc m)
        then show ?thesis
          by (cases "replicate m [dot, dot] @ gs = []") (auto simp: cs(1) joinSlash_cons dot_def slash_def)
      qed
      then have "toValidName name = stripDotDot (joinSlash cs)"
        using clean False by (simp add: toValidName_def s_def [symmetric])
      with stripDotDot_rel [OF cs(2), of n] cs show ?thesis by (auto split: if_splits)
    qed
  qed
qed

section \<open>Directories of good paths\<close>

lemma takeWhile_rev_plain:
  assumes "slash \<notin> set p"
  shows "takeWhile (\<lambda>c. c \<noteq> slash) (rev (s @ slash # p)) = rev p"
    and "dropWhile (\<lambda>c. c \<noteq> slash) (rev (s @ slash # p)) = slash # rev s"
proof -
  have "rev (s @ slash # p) = rev p @ slash # rev s" by simp
  moreover have all: "\<And>c. c \<in> set (rev p) \<Longrightarrow> c \<noteq> slash" using assms by auto
  ultimately show "takeWhile (\<lambda>c. c \<noteq> slash) (rev (s @ slash # p)) = rev p"
    and "dropWhile (\<lambda>c. c \<noteq> slash) (rev (s @ slash # p)) = slash # rev s"
    by (simp_all only: takeWhile_append2 [OF all] dropWhile_append2 [OF all]) simp_all
qed

lemma splitName_good:
  assumes "goodPath ps"
  shows "splitName (joinSlash ps) = (if length ps = 1 then [dot] else joinSlash (butlast ps), last ps)"
proof -
  obtain qs p where ps: "ps = qs @ [p]" using assms by (cases ps rule: rev_cases) (auto simp: goodPath_def)
  have p: "p \<noteq> []" "slash \<notin> set p" using assms by (auto simp: ps goodPath_def goodPart_def)
  note lst = goodPath_last [OF assms]
  show ?thesis
  proof (cases "qs = []")
    case True
    have "takeWhile (\<lambda>c. c \<noteq> slash) (rev p) = rev p" using p(2) by (auto simp: takeWhile_eq_all_conv)
    note tw = this
    show ?thesis using lst by (simp add: splitName_def ps Let_def True tw)
  next
    case False
    with lst takeWhile_rev_plain(1) [OF p(2), of "joinSlash qs"] show ?thesis
      by (auto simp: splitName_def ps Let_def joinSlash_append)
  qed
qed

lemma pathDir_good:
  assumes "goodPath ps"
  shows "pathDir (joinSlash ps) = (if length ps = 1 then [dot] else joinSlash (butlast ps))"
proof -
  obtain qs p where ps: "ps = qs @ [p]" using assms by (cases ps rule: rev_cases) (auto simp: goodPath_def)
  have p: "slash \<notin> set p" using assms by (auto simp: ps goodPath_def)
  show ?thesis
  proof (cases "qs = []")
    case True
    have dw: "dropWhile (\<lambda>c. c \<noteq> slash) (rev p) = []" using p by auto
    have "pathDir (joinSlash ps) = pathClean []" by (simp add: pathDir_def ps True dw)
    with True show ?thesis by (simp add: ps pathClean_def)
  next
    case False
    then have g: "goodPath qs" using goodPath_butlast [OF assms] by (simp add: ps)
    have "splitSlash (joinSlash qs @ [slash]) = qs @ [[]]"
    proof -
      have "joinSlash qs @ [slash] = joinSlash (qs @ [[]])" using False by (simp add: joinSlash_append)
      moreover have "\<forall>p\<in>set (qs @ [[]]). slash \<notin> set p" using g by (auto simp: goodPath_def)
      ultimately show ?thesis using split_join [of "qs @ [[]]"] by simp
    qed
    moreover have "cleanParts False [] (qs @ [[]]) = qs"
    proof -
      have "cleanParts rooted acc (xs @ [[]]) = rev acc @ xs" if "list_all goodPart xs" for rooted acc xs
        using that by (induction xs arbitrary: acc) (auto simp: goodPart_def)
      from this [of qs False "[]"] g show ?thesis by (simp add: goodPath_def list_all_iff)
    qed
    moreover have "joinSlash qs @ [slash] \<noteq> []" "hd (joinSlash qs @ [slash]) \<noteq> slash" "joinSlash qs \<noteq> []"
      using goodPath_hd [OF g] by auto
    moreover have "rev (dropWhile (\<lambda>c. c \<noteq> slash) (rev (joinSlash ps))) = joinSlash qs @ [slash]"
      using takeWhile_rev_plain(2) [OF p, of "joinSlash qs"] False by (simp add: ps joinSlash_append)
    ultimately show ?thesis using False by (simp add: pathDir_def pathClean_def ps)
  qed
qed

section \<open>Safety of names\<close>

lemma pathClean_good: "goodPath ps \<Longrightarrow> pathClean (joinSlash ps) = joinSlash ps"
proof -
  assume g: "goodPath ps"
  then have "list_all goodPart ps" by (simp add: goodPath_def list_all_iff)
  then show ?thesis using g goodPath_hd [OF g] by (simp add: pathClean_def goodParts_clean)
qed

lemma validPath_good: "validPath name \<Longrightarrow> name \<noteq> [dot] \<Longrightarrow> \<exists>ps. goodPath ps \<and> name = joinSlash ps"
  using splitSlash_noslash [of _ name]
  by (intro exI [of _ "splitSlash name"]) (auto simp: validPath_def goodPath_def list_all_iff)

lemma toValidName_valid:
  assumes "validPath name" and "backslash \<notin> set name"
  shows "toValidName name = name"
proof -
  have "map (\<lambda>c. if c = backslash then slash else c) name = name" using assms(2) by (intro map_idI) auto
  then have t: "toValidName name = stripDotDot (let p = pathClean name in if p \<noteq> [] \<and> hd p = slash then tl p else p)"
    by (simp add: toValidName_def Let_def)
  show ?thesis
  proof (cases "name = [dot]")
    case True
    have "pathClean [dot] = [dot]" by (simp add: pathClean_def dot_def slash_def)
    with t True show ?thesis by (simp add: stripDotDot.simps dot_def slash_def)
  next
    case False
    then obtain ps where "goodPath ps" "name = joinSlash ps" using validPath_good [OF assms(1)] by blast
    then show ?thesis unfolding t by (simp add: pathClean_good goodPath_hd stripDotDot_good)
  qed
qed

text \<open>
  C25: Whatever name an archive gives a file, the file system shows it under a relative name without
  empty, dot or double-dot components, unless the whole name is empty, a dot or two dots (the one
  way a parent directory survives); a valid path without backslashes keeps its name.
\<close>

theorem entry_names_confined:
  "(toValidName name \<in> {[], [dot], [dot, dot]} \<or> list_all goodPart (splitSlash (toValidName name)))
   \<and> toValidName [dot, dot] = [dot, dot]
   \<and> (validPath name \<and> backslash \<notin> set name \<longrightarrow> toValidName name = name)"
proof (intro conjI impI)
  show "toValidName name \<in> {[], [dot], [dot, dot]} \<or> list_all goodPart (splitSlash (toValidName name))"
    using toValidName_cases [of name] by (auto simp: goodPath_def list_all_iff)
  show "toValidName [dot, dot] = [dot, dot]"
    by (simp add: toValidName_def pathClean_def stripDotDot.simps dot_def slash_def backslash_def)
qed (auto intro: toValidName_valid)

theorem entry_names_confined_witness:
  "validPath [0x61, slash, 0x62] \<and> toValidName [0x61, slash, 0x62] = [0x61, slash, 0x62]"
proof -
  have "validPath [0x61, slash, 0x62]" by code_simp
  then show ?thesis using entry_names_confined [of "[0x61, slash, 0x62]"] by (simp add: backslash_def slash_def)
qed

end
