(* ===== verification/File_System.thy ===== *)
theory File_System
  imports Paths "HOL-Library.List_Lexorder" "HOL-Library.Product_Lexorder" "HOL-Library.Monad_Syntax"
    "HOL-Library.Multiset"
begin

text \<open>
  The archive as a file system, \<open>reader.go\<close>: the sorted list of entries that \<open>initFileList\<close> builds
  from the files of an archive, with the directories that no file stands for, the look-up of a
  name, and reading a directory in pieces. Files of the archive are named by their index.
  The order in which Go iterates over a map is an argument.
\<close>

section \<open>The list of entries\<close>

record fileListEntry =
  le_name :: gostring
  le_file :: "nat option"
  le_isDir :: bool
  le_isDup :: bool

definition fileEntryLess :: "gostring \<Rightarrow> gostring \<Rightarrow> bool" where
  "fileEntryLess x y =
     (let (xdir, xelem) = splitName x; (ydir, yelem) = splitName y
      in xdir < ydir \<or> xdir = ydir \<and> xelem < yelem)"

lemma fileEntryLess_split: "fileEntryLess x y \<longleftrightarrow> splitName x < splitName y"
  by (cases "splitName x"; cases "splitName y") (auto simp: fileEntryLess_def less_prod_def')

text \<open>
  The loop \<open>for dir := path.Dir(name); dir != "."; dir = path.Dir(dir)\<close>. It does not end for a
  rooted name.
\<close>

partial_function (option) parentDirs :: "gostring \<Rightarrow> gostring list option" where
  "parentDirs dir =
     (if dir = [dot] then Some []
      else do { ds \<leftarrow> parentDirs (pathDir dir); Some (dir # ds) })"

declare parentDirs.simps [code]

record fileListState =
  ls_list :: "fileListEntry list"
  ls_files :: "gostring \<rightharpoonup> nat"
  ls_knownDirs :: "gostring \<rightharpoonup> nat"
  ls_dirs :: "gostring list"

definition setDup :: "fileListEntry list \<Rightarrow> nat \<Rightarrow> fileListEntry list" where
  "setDup es i = es[i := (es ! i)\<lparr>le_isDup := True\<rparr>]"

text \<open>One file of the archive: its index, its name and the state.\<close>

definition addFile :: "nat \<Rightarrow> gostring \<Rightarrow> fileListState \<Rightarrow> fileListState option" where
  "addFile n fileName st =
     (let isDir = (fileName \<noteq> [] \<and> last fileName = slash);
          name = toValidName fileName
      in
      if name = [] then Some st
      else case ls_files st name of
        Some k \<Rightarrow> Some (st\<lparr>ls_list := setDup (ls_list st) k\<rparr>)
      | None \<Rightarrow>
          case ls_knownDirs st name of
            Some k \<Rightarrow> Some (st\<lparr>ls_list := setDup (ls_list st) k\<rparr>)
          | None \<Rightarrow>
              do {
                ds \<leftarrow> parentDirs (pathDir name);
                let k = length (ls_list st);
                let st = st\<lparr>ls_dirs := fold List.insert ds (ls_dirs st),
                            ls_list := ls_list st @ [\<lparr>le_name = name, le_file = Some n,
                                                      le_isDir = isDir, le_isDup = False\<rparr>]\<rparr>;
                Some (if isDir then st\<lparr>ls_knownDirs := (ls_knownDirs st)(name \<mapsto> k)\<rparr>
                      else st\<lparr>ls_files := (ls_files st)(name \<mapsto> k)\<rparr>)
              })"

fun addFiles :: "nat \<Rightarrow> gostring list \<Rightarrow> fileListState \<Rightarrow> fileListState option" where
  "addFiles n [] st = Some st"
| "addFiles n (f # fs) st = do { st \<leftarrow> addFile n f st; addFiles (Suc n) fs st }"

text \<open>The second loop, over the directories in the order of the map.\<close>

definition addDir :: "fileListState \<Rightarrow> gostring \<Rightarrow> fileListEntry list \<Rightarrow> fileListEntry list" where
  "addDir st dir es =
     (case ls_knownDirs st dir of
        Some _ \<Rightarrow> es
      | None \<Rightarrow>
          case ls_files st dir of
            Some k \<Rightarrow> setDup es k
          | None \<Rightarrow> es @ [\<lparr>le_name = dir, le_file = None, le_isDir = True, le_isDup = False\<rparr>])"

definition emptyListState :: fileListState where
  "emptyListState = \<lparr>ls_list = [], ls_files = (\<lambda>_. None), ls_knownDirs = (\<lambda>_. None), ls_dirs = []\<rparr>"

definition initFileList :: "(gostring list \<Rightarrow> gostring list) \<Rightarrow> gostring list \<Rightarrow> fileListEntry list option" where
  "initFileList order names =
     do { st \<leftarrow> addFiles 0 names emptyListState;
          Some (sort_key (\<lambda>e. splitName (le_name e)) (fold (addDir st) (order (ls_dirs st)) (ls_list st))) }"

section \<open>Look-up and directories\<close>

text \<open>\<open>sort.Search\<close>: the binary search of the Go library.\<close>

function searchLoop :: "(nat \<Rightarrow> bool) \<Rightarrow> nat \<Rightarrow> nat \<Rightarrow> nat" where
  "searchLoop f i j =
     (if i < j then
        let h = (i + j) div 2
        in if \<not> f h then searchLoop f (h + 1) j else searchLoop f i h
      else i)"
  by pat_completeness auto
termination
  by (relation "measure (\<lambda>(f, i, j). j - i)") auto

declare searchLoop.simps [simp del]

definition sortSearch :: "nat \<Rightarrow> (nat \<Rightarrow> bool) \<Rightarrow> nat" where
  "sortSearch n f = searchLoop f 0 n"

datatype lookup = DotFile | Entry nat

definition openLookup :: "fileListEntry list \<Rightarrow> gostring \<Rightarrow> lookup option" where
  "openLookup files name =
     (if name = [dot] then Some DotFile
      else
        let (dir, elem) = splitName name;
            i = sortSearch (length files) (\<lambda>i.
                  let (idir, ielem) = splitName (le_name (files ! i))
                  in idir > dir \<or> idir = dir \<and> ielem \<ge> elem)
        in
        if i < length files then
          let fname = le_name (files ! i) in
          if fname = name
             \<or> length fname = length name + 1 \<and> fname ! length name = slash \<and> take (length name) fname = name
          then Some (Entry i) else None
        else None)"

definition openReadDir :: "fileListEntry list \<Rightarrow> gostring \<Rightarrow> fileListEntry list" where
  "openReadDir files dir =
     (let i = sortSearch (length files) (\<lambda>i. fst (splitName (le_name (files ! i))) \<ge> dir);
          j = sortSearch (length files) (\<lambda>j. fst (splitName (le_name (files ! j))) > dir)
      in take (j - i) (drop i files))"

record openDir =
  od_files :: "fileListEntry list"
  od_offset :: nat

datatype readDir_error = ReadDirEOF | ReadDirDuplicate

text \<open>\<open>ReadDir(count)\<close>; the entries stand for themselves, one that is a duplicate is an error.\<close>

definition readDir :: "openDir \<Rightarrow> int \<Rightarrow> (readDir_error + fileListEntry list) \<times> openDir" where
  "readDir d cnt =
     (let n = length (od_files d) - od_offset d;
          n = (if 0 < cnt \<and> cnt < int n then nat cnt else n)
      in
      if n = 0 then (if cnt \<le> 0 then Inr [] else Inl ReadDirEOF, d)
      else
        let list = take n (drop (od_offset d) (od_files d)) in
        if list_ex le_isDup list then (Inl ReadDirDuplicate, d)
        else (Inr list, d\<lparr>od_offset := od_offset d + n\<rparr>))"

section \<open>Binary search\<close>

lemma searchLoop_least:
  assumes mono: "\<And>a b. a \<le> b \<Longrightarrow> b < n \<Longrightarrow> f a \<Longrightarrow> f b"
    and "i \<le> j" and "j \<le> n" and "\<forall>a<i. \<not> f a" and "j < n \<longrightarrow> f j"
  shows "searchLoop f i j \<le> j \<and> (\<forall>a < searchLoop f i j. \<not> f a) \<and> (searchLoop f i j < n \<longrightarrow> f (searchLoop f i j))"
  using assms(2-)
proof (induction "j - i" arbitrary: i j rule: less_induct)
  case less
  show ?case
  proof (cases "i < j")
    case True
    define h where "h = (i + j) div 2"
    have h: "i \<le> h" "h < j" "h < n" using True less.prems(2) by (auto simp: h_def)
    show ?thesis
    proof (cases "f h")
      case True
      have "searchLoop f i j = searchLoop f i h"
        using \<open>i < j\<close> True by (subst searchLoop.simps) (simp add: h_def [symmetric])
      moreover have "h - i < j - i" using h by simp
      ultimately show ?thesis using less.hyps [of h i] less.prems h True by auto
    next
      case False
      then have "\<forall>a<h + 1. \<not> f a" using mono [of _ h] h(3) by (metis Suc_eq_plus1 less_Suc_eq_le)
      moreover have "searchLoop f i j = searchLoop f (h + 1) j"
        using \<open>i < j\<close> False by (subst searchLoop.simps) (simp add: h_def [symmetric])
      ultimately show ?thesis using less.hyps [of j "h + 1"] less.prems h by auto
    qed
  qed (use less.prems in \<open>subst (1 2 3 4) searchLoop.simps, auto\<close>)
qed

text \<open>On a sorted list the search for a key finds the first element that is not smaller.\<close>

lemma sortSearch_sorted:
  fixes key :: "'a \<Rightarrow> 'k::linorder"
  assumes sorted: "sorted (map key xs)" and up: "\<And>a b. a \<le> b \<Longrightarrow> g a \<Longrightarrow> g b"
  shows "sortSearch (length xs) (\<lambda>i. g (key (xs ! i))) = length (takeWhile (\<lambda>x. \<not> g (key x)) xs)"
proof -
  let ?f = "\<lambda>i. g (key (xs ! i))" and ?k = "length (takeWhile (\<lambda>x. \<not> g (key x)) xs)"
  let ?i = "sortSearch (length xs) ?f"
  have mono: "?f b" if "a \<le> b" "b < length xs" "?f a" for a b
    using that sorted up by (auto simp: sorted_iff_nth_mono)
  have s: "?i \<le> length xs" "\<forall>a<?i. \<not> ?f a" "?i < length xs \<longrightarrow> ?f ?i"
    using searchLoop_least [where f = ?f and n = "length xs" and i = 0 and j = "length xs", OF mono]
    by (auto simp: sortSearch_def)
  have "takeWhile (\<lambda>x. \<not> g (key x)) xs = take ?i xs"
    using s by (intro takeWhile_eq_take_P_nth) auto
  with s(1) show ?thesis by simp
qed

section \<open>Names of entries\<close>

definition entryName :: "gostring \<Rightarrow> bool" where
  "entryName n \<longleftrightarrow> n = [dot] \<or> n = [dot, dot] \<or> (\<exists>ps. goodPath ps \<and> n = joinSlash ps)"

lemma entryName_valid: "toValidName f \<noteq> [] \<Longrightarrow> entryName (toValidName f)"
  using toValidName_cases [of f] by (auto simp: entryName_def)

lemma joinSlash_not_dot: "goodPath ps \<Longrightarrow> joinSlash ps \<noteq> [dot] \<and> joinSlash ps \<noteq> [dot, dot] \<and> joinSlash ps \<noteq> []"
proof -
  assume g: "goodPath ps"
  have "ps = splitSlash (joinSlash ps)" using g by simp
  moreover have "splitSlash [dot] = [[dot]]" "splitSlash [dot, dot] = [[dot, dot]]" "splitSlash [] = [[]]"
    by (simp_all add: dot_def slash_def)
  moreover have "\<not> goodPath [[dot]]" "\<not> goodPath [[dot, dot]]" "\<not> goodPath [[]]"
    by (simp_all add: goodPath_def goodPart_def)
  ultimately show ?thesis using g by metis
qed

lemma splitName_dots: "splitName [dot] = ([dot], [dot])" "splitName [dot, dot] = ([dot], [dot, dot])"
  by (simp_all add: splitName_def dot_def slash_def Let_def)

lemma splitName_inject:
  assumes "entryName m" and "entryName n" and "splitName m = splitName n"
  shows "m = n"
proof -
  have shape: "splitName (joinSlash ps) = (d, e) \<Longrightarrow> goodPath ps \<Longrightarrow>
      goodPart e \<and> joinSlash ps = (if d = [dot] then e else d @ slash # e)" for ps d e
  proof -
    assume s: "splitName (joinSlash ps) = (d, e)" and g: "goodPath ps"
    obtain qs p where ps: "ps = qs @ [p]" using g by (cases ps rule: rev_cases) (auto simp: goodPath_def)
    have "goodPath qs" if "qs \<noteq> []" using g that by (auto simp: goodPath_def ps)
    then show ?thesis
      using s g splitName_good [OF g] joinSlash_not_dot [of qs]
      by (cases "qs = []") (auto simp: ps goodPath_def joinSlash_append)
  qed
  have "goodPart (snd (splitName n)) \<Longrightarrow> \<exists>ps. goodPath ps \<and> n = joinSlash ps" if "entryName n" for n
    using that by (auto simp: entryName_def splitName_dots goodPart_def)
  moreover have "\<not> goodPart (snd (splitName n)) \<Longrightarrow> n = snd (splitName n)" if "entryName n" for n
    using that shape by (auto simp: entryName_def splitName_dots) (metis prod.collapse)
  ultimately show ?thesis using assms shape by (metis prod.collapse)
qed

text \<open>The parents of a good path are its proper prefixes.\<close>

definition prefixNames :: "gostring list \<Rightarrow> gostring list" where
  "prefixNames ps = map (\<lambda>k. joinSlash (take k ps)) (rev [1..<length ps])"

lemma parentDirs_dot: "parentDirs [dot] = Some []"
  by (subst parentDirs.simps) simp

lemma parentDirs_good: "goodPath ps \<Longrightarrow> parentDirs (joinSlash ps) = Some (joinSlash ps # prefixNames ps)"
proof (induction ps rule: rev_induct)
  case Nil
  then show ?case by (simp add: goodPath_def)
next
  case (snoc p qs)
  have step: "parentDirs (joinSlash (qs @ [p]))
      = do { ds \<leftarrow> parentDirs (pathDir (joinSlash (qs @ [p]))); Some (joinSlash (qs @ [p]) # ds) }"
    using joinSlash_not_dot [OF snoc.prems] by (subst parentDirs.simps) simp
  show ?case
  proof (cases "qs = []")
    case True
    with step pathDir_good [OF snoc.prems] show ?thesis by (simp add: parentDirs_dot prefixNames_def)
  next
    case False
    then have g: "goodPath qs" using snoc.prems by (simp add: goodPath_def)
    have "prefixNames (qs @ [p]) = joinSlash qs # prefixNames qs"
      using False by (auto simp: prefixNames_def Suc_le_eq)
    with step pathDir_good [OF snoc.prems] snoc.IH [OF g] False show ?thesis by simp
  qed
qed

definition parentNames :: "gostring \<Rightarrow> gostring list" where
  "parentNames n = (if n = [dot] \<or> n = [dot, dot] then [] else prefixNames (splitSlash n))"

lemma parentDirs_names:
  assumes "entryName n"
  shows "parentDirs (pathDir n) = Some (parentNames n)"
proof -
  consider "n = [dot] \<or> n = [dot, dot]" | ps where "goodPath ps" "n = joinSlash ps"
    using assms by (auto simp: entryName_def)
  then show ?thesis
  proof cases
    case 1
    then have "pathDir n = [dot]" by (auto simp: pathDir_def pathClean_def dot_def slash_def)
    with 1 show ?thesis by (auto simp: parentDirs_dot parentNames_def)
  next
    case 2
    have names: "parentNames n = prefixNames ps"
      using 2 joinSlash_not_dot [of ps] by (simp add: parentNames_def)
    show ?thesis
    proof (cases "length ps = 1")
      case True
      with 2 pathDir_good [of ps] show ?thesis unfolding names by (simp add: parentDirs_dot prefixNames_def)
    next
      case False
      then have l: "1 < length ps" using 2 by (cases ps) (auto simp: goodPath_def)
      have "prefixNames ps = joinSlash (butlast ps) # prefixNames (butlast ps)"
      proof -
        obtain m where m: "length ps = Suc (Suc m)" using l by (metis One_nat_def Suc_lessE less_natE)
        then show ?thesis
          by (auto simp: prefixNames_def butlast_conv_take take_take min_def)
      qed
      with False 2 pathDir_good [of ps] parentDirs_good [OF goodPath_butlast [OF 2(1) l]] show ?thesis
        unfolding names by simp
    qed
  qed
qed

text \<open>Parents are directories of good paths, and closed under parents.\<close>

lemma parentNames_entry:
  assumes "entryName n" and "d \<in> set (parentNames n)"
  shows "entryName d \<and> set (parentNames d) \<subseteq> set (parentNames n)"
proof -
  obtain ps where ps: "goodPath ps" "n = joinSlash ps" "parentNames n = prefixNames ps"
    using assms joinSlash_not_dot by (auto simp: entryName_def parentNames_def split: if_splits)
  then obtain k where k: "1 \<le> k" "k < length ps" "d = joinSlash (take k ps)"
    using assms(2) by (auto simp: prefixNames_def)
  have g: "goodPath (take k ps)" using ps(1) k by (auto simp: goodPath_def dest: in_set_takeD)
  then have "parentNames d = prefixNames (take k ps)"
    using joinSlash_not_dot [OF g] by (simp add: k(3) parentNames_def)
  then have "set (parentNames d) \<subseteq> set (parentNames n)"
    using k by (auto simp: ps(3) prefixNames_def min_def)
  with g k show ?thesis by (auto simp: entryName_def)
qed

lemma splitName_parent:
  assumes "entryName n"
  shows "fst (splitName n) = [dot] \<or> fst (splitName n) \<in> set (parentNames n)"
proof -
  consider "n = [dot] \<or> n = [dot, dot]" | ps where "goodPath ps" "n = joinSlash ps"
    using assms by (auto simp: entryName_def)
  then show ?thesis
  proof cases
    case 2
    then have "parentNames n = prefixNames ps" using joinSlash_not_dot [of ps] by (simp add: parentNames_def)
    moreover have "joinSlash (butlast ps) \<in> set (prefixNames ps)" if "length ps \<noteq> 1"
    proof -
      have "1 \<le> length ps - 1" using that 2(1) by (cases ps) (auto simp: goodPath_def Suc_le_eq)
      then have "length ps - 1 \<in> set (rev [1..<length ps])" by simp
      then show ?thesis unfolding prefixNames_def butlast_conv_take by (simp only: set_map image_eqI)
    qed
    ultimately show ?thesis using 2 splitName_good [of ps] by auto
  qed (auto simp: splitName_dots)
qed

section \<open>Building the list\<close>

text \<open>Marking a duplicate changes nothing else.\<close>

definition entryCore :: "fileListEntry \<Rightarrow> gostring \<times> nat option \<times> bool" where
  "entryCore e = (le_name e, le_file e, le_isDir e)"

lemma setDup_core: "map entryCore (setDup es k) = map entryCore es"
  by (cases "k < length es") (simp_all add: setDup_def map_update entryCore_def list_update_beyond list_update_same_conv)

lemma setDup_names [simp]: "map le_name (setDup es k) = map le_name es" "length (setDup es k) = length es"
proof -
  have "map fst (map entryCore (setDup es k)) = map fst (map entryCore es)" by (simp only: setDup_core)
  then show "map le_name (setDup es k) = map le_name es" by (simp add: comp_def entryCore_def)
qed (simp add: setDup_def)

lemma setDup_nth:
  "j < length es \<Longrightarrow> setDup es k ! j = (if j = k then (es ! j)\<lparr>le_isDup := True\<rparr> else es ! j)"
  by (cases "k < length es") (auto simp: setDup_def nth_list_update list_update_beyond)

text \<open>
  The state after the first \<open>n\<close> of the names \<open>fs\<close>: entries are distinct and stand for files, the
  maps say where they are, every usable name has an entry, which is marked when another file
  has the same name.
\<close>

definition isDirName :: "gostring \<Rightarrow> bool" where
  "isDirName f \<longleftrightarrow> f \<noteq> [] \<and> last f = slash"

definition standsFor :: "gostring list \<Rightarrow> nat \<Rightarrow> fileListEntry \<Rightarrow> bool" where
  "standsFor fs n e \<longleftrightarrow>
     entryName (le_name e)
     \<and> (\<exists>j<n. le_file e = Some j \<and> le_name e = toValidName (fs ! j) \<and> le_isDir e = isDirName (fs ! j))
     \<and> (\<forall>j<n. toValidName (fs ! j) = le_name e \<and> le_file e \<noteq> Some j \<longrightarrow> le_isDup e)"

definition listOk :: "gostring list \<Rightarrow> nat \<Rightarrow> fileListState \<Rightarrow> bool" where
  "listOk fs n st \<longleftrightarrow>
     distinct (map le_name (ls_list st))
     \<and> (\<forall>k<length (ls_list st). standsFor fs n (ls_list st ! k))
     \<and> (\<forall>m k. ls_files st m = Some k \<longleftrightarrow>
          k < length (ls_list st) \<and> le_name (ls_list st ! k) = m \<and> \<not> le_isDir (ls_list st ! k))
     \<and> (\<forall>m k. ls_knownDirs st m = Some k \<longleftrightarrow>
          k < length (ls_list st) \<and> le_name (ls_list st ! k) = m \<and> le_isDir (ls_list st ! k))
     \<and> set (ls_dirs st) = (\<Union>m\<in>set (map le_name (ls_list st)). set (parentNames m))
     \<and> distinct (ls_dirs st)
     \<and> (\<forall>j<n. toValidName (fs ! j) \<noteq> [] \<longrightarrow> toValidName (fs ! j) \<in> set (map le_name (ls_list st)))"

lemma listOk_empty: "listOk fs 0 emptyListState"
  by (simp add: listOk_def emptyListState_def)

lemma fold_insert: "set (fold List.insert ds xs) = set ds \<union> set xs" "distinct xs \<Longrightarrow> distinct (fold List.insert ds xs)"
  by (induction ds arbitrary: xs) auto

text \<open>A name that is there already: its entry is marked.\<close>

lemma listOk_dup:
  assumes ok: "listOk fs n st" and k: "k < length (ls_list st)" "le_name (ls_list st ! k) = toValidName (fs ! n)"
    and ne: "toValidName (fs ! n) \<noteq> []"
  shows "listOk fs (Suc n) (st\<lparr>ls_list := setDup (ls_list st) k\<rparr>)"
proof -
  let ?es = "ls_list st"
  have d: "distinct (map le_name ?es)" using ok by (simp add: listOk_def)
  have one: "le_name (?es ! j) \<noteq> toValidName (fs ! n)" if "j < length ?es" "j \<noteq> k" for j
    using d k that by (metis distinct_conv_nth length_map nth_map)
  have s: "standsFor fs n (?es ! j)" if "j < length ?es" for j using ok that by (simp add: listOk_def)
  have "standsFor fs (Suc n) (setDup ?es k ! j)" if j: "j < length ?es" for j
  proof (cases "j = k")
    case True
    with s [OF j] j show ?thesis by (auto simp: setDup_nth standsFor_def less_Suc_eq)
  next
    case False
    with s [OF j] one [OF j False] j show ?thesis
      by (auto simp: setDup_nth standsFor_def less_Suc_eq)
  qed
  moreover have "le_name (setDup ?es k ! j) = le_name (?es ! j)" "le_isDir (setDup ?es k ! j) = le_isDir (?es ! j)"
    if "j < length ?es" for j using that by (simp_all add: setDup_nth)
  moreover have "toValidName (fs ! n) \<in> set (map le_name ?es)" using k by (metis length_map nth_map nth_mem)
  ultimately show ?thesis using ok by (auto simp: listOk_def less_Suc_eq)
qed

text \<open>A new name: a new entry at the end, and its parents.\<close>

lemma index_append:
  assumes index: "\<forall>a k. M a = Some k \<longleftrightarrow> k < length es \<and> le_name (es ! k) = a \<and> Q (es ! k)"
    and new: "M (le_name e) = None"
  shows "(if Q e then M(le_name e \<mapsto> length es) else M) a = Some k \<longleftrightarrow>
    k < length (es @ [e]) \<and> le_name ((es @ [e]) ! k) = a \<and> Q ((es @ [e]) ! k)"
proof (cases "k < length es")
  case True
  then have "M a = Some k \<longleftrightarrow> le_name (es ! k) = a \<and> Q (es ! k)" using index by simp
  with True new show ?thesis by (auto simp: nth_append)
next
  case False
  then have "M a \<noteq> Some k" using index by simp
  with False show ?thesis by (auto simp: nth_append less_Suc_eq)
qed

lemma listOk_new:
  assumes ok: "listOk fs n st" and new: "toValidName (fs ! n) \<notin> set (map le_name (ls_list st))"
    and ne: "toValidName (fs ! n) \<noteq> []"
    and st': "st' = (let m = toValidName (fs ! n);
        u = st\<lparr>ls_dirs := fold List.insert (parentNames m) (ls_dirs st),
               ls_list := ls_list st @ [\<lparr>le_name = m, le_file = Some n, le_isDir = isDirName (fs ! n), le_isDup = False\<rparr>]\<rparr>
      in if isDirName (fs ! n) then u\<lparr>ls_knownDirs := (ls_knownDirs st)(m \<mapsto> length (ls_list st))\<rparr>
         else u\<lparr>ls_files := (ls_files st)(m \<mapsto> length (ls_list st))\<rparr>)"
  shows "listOk fs (Suc n) st'"
proof -
  define m where "m = toValidName (fs ! n)"
  define e where "e = \<lparr>le_name = m, le_file = Some n, le_isDir = isDirName (fs ! n), le_isDup = False\<rparr>"
  let ?es = "ls_list st"
  have es': "ls_list st' = ?es @ [e]" "ls_dirs st' = fold List.insert (parentNames m) (ls_dirs st)"
    "ls_files st' = (if \<not> le_isDir e then (ls_files st)(le_name e \<mapsto> length ?es) else ls_files st)"
    "ls_knownDirs st' = (if le_isDir e then (ls_knownDirs st)(le_name e \<mapsto> length ?es) else ls_knownDirs st)"
    by (simp_all add: st' e_def m_def Let_def)
  have old: "toValidName (fs ! j) \<noteq> m" if "j < n" for j
    using ok new ne that unfolding listOk_def m_def by metis
  have "standsFor fs (Suc n) e"
    using entryName_valid [OF ne] old by (auto simp: standsFor_def e_def m_def less_Suc_eq)
  moreover have "standsFor fs (Suc n) (?es ! j)" if "j < length ?es" for j
  proof -
    have "le_name (?es ! j) \<noteq> m" using new that unfolding m_def by (metis length_map nth_map nth_mem)
    moreover have "standsFor fs n (?es ! j)" using ok that by (simp add: listOk_def)
    ultimately show ?thesis by (auto simp: standsFor_def less_Suc_eq m_def)
  qed
  ultimately have 1: "\<forall>k<length (ls_list st'). standsFor fs (Suc n) (ls_list st' ! k)"
    by (auto simp: es' nth_append less_Suc_eq)
  have index: "\<forall>a k. ls_files st a = Some k \<longleftrightarrow> k < length ?es \<and> le_name (?es ! k) = a \<and> \<not> le_isDir (?es ! k)"
    "\<forall>a k. ls_knownDirs st a = Some k \<longleftrightarrow> k < length ?es \<and> le_name (?es ! k) = a \<and> le_isDir (?es ! k)"
    using ok unfolding listOk_def by simp_all
  have absent: "le_name (?es ! k) \<noteq> m" if "k < length ?es" for k
    using new that unfolding m_def by (metis length_map nth_map nth_mem)
  have fm: "ls_files st m = None" "ls_knownDirs st m = None"
    using index absent by (meson not_Some_eq)+
  have 2: "\<forall>a k. ls_files st' a = Some k \<longleftrightarrow>
      k < length (ls_list st') \<and> le_name (ls_list st' ! k) = a \<and> \<not> le_isDir (ls_list st' ! k)"
    unfolding es' by (intro allI index_append [of "ls_files st" ?es "\<lambda>e. \<not> le_isDir e"] index) (simp add: fm e_def)
  have 3: "\<forall>a k. ls_knownDirs st' a = Some k \<longleftrightarrow>
      k < length (ls_list st') \<and> le_name (ls_list st' ! k) = a \<and> le_isDir (ls_list st' ! k)"
    unfolding es' by (intro allI index_append [of "ls_knownDirs st" ?es le_isDir] index) (simp add: fm e_def)
  have "m \<notin> set (map le_name ?es)" using new by (simp add: m_def)
  then have "distinct (map le_name (ls_list st'))" using ok by (simp add: es' listOk_def e_def)
  moreover have "set (ls_dirs st') = (\<Union>m\<in>set (map le_name (ls_list st')). set (parentNames m))" "distinct (ls_dirs st')"
    using ok by (auto simp: es' listOk_def e_def fold_insert)
  moreover have "\<forall>j<Suc n. toValidName (fs ! j) \<noteq> [] \<longrightarrow> toValidName (fs ! j) \<in> set (map le_name (ls_list st'))"
    using ok by (auto simp: es' listOk_def e_def m_def less_Suc_eq)
  ultimately show ?thesis using 1 2 3 unfolding listOk_def by blast
qed

lemma addFile_ok:
  assumes ok: "listOk fs n st"
  shows "\<exists>st'. addFile n (fs ! n) st = Some st' \<and> listOk fs (Suc n) st'"
proof -
  define m where "m = toValidName (fs ! n)"
  consider "m = []" | k where "m \<noteq> []" "ls_files st m = Some k"
    | k where "m \<noteq> []" "ls_files st m = None" "ls_knownDirs st m = Some k"
    | "m \<noteq> []" "ls_files st m = None" "ls_knownDirs st m = None" by fastforce
  then show ?thesis
  proof cases
    case 1
    have "standsFor fs (Suc n) e" if "standsFor fs n e" for e
    proof -
      have "le_name e \<noteq> []" using that joinSlash_not_dot by (auto simp: standsFor_def entryName_def)
      with that 1 show ?thesis by (auto simp: standsFor_def less_Suc_eq m_def)
    qed
    with ok have "listOk fs (Suc n) st" using 1 by (auto simp: listOk_def less_Suc_eq m_def)
    moreover have "addFile n (fs ! n) st = Some st" using 1 by (simp add: addFile_def m_def)
    ultimately show ?thesis by blast
  next
    case (2 k)
    then have "listOk fs (Suc n) (st\<lparr>ls_list := setDup (ls_list st) k\<rparr>)"
      using ok by (intro listOk_dup) (simp_all add: listOk_def m_def)
    with 2 show ?thesis by (simp add: addFile_def m_def [symmetric])
  next
    case (3 k)
    then have "listOk fs (Suc n) (st\<lparr>ls_list := setDup (ls_list st) k\<rparr>)"
      using ok by (intro listOk_dup) (simp_all add: listOk_def m_def)
    with 3 show ?thesis by (simp add: addFile_def m_def [symmetric])
  next
    case 4
    have new: "m \<notin> set (map le_name (ls_list st))"
    proof
      assume "m \<in> set (map le_name (ls_list st))"
      then obtain k where "k < length (ls_list st)" "le_name (ls_list st ! k) = m"
        by (auto simp: in_set_conv_nth)
      with ok 4(2,3) show False unfolding listOk_def by (metis option.distinct(1))
    qed
    have "parentDirs (pathDir m) = Some (parentNames m)"
      using parentDirs_names [OF entryName_valid] 4(1) by (simp add: m_def)
    with 4 show ?thesis
      using listOk_new [OF ok _ _ refl] new
      by (cases "isDirName (fs ! n)")
        (simp_all add: addFile_def m_def [symmetric] isDirName_def [symmetric] Let_def)
  qed
qed

lemma addFiles_ok:
  "listOk fs n st \<Longrightarrow> n \<le> length fs \<Longrightarrow>
   \<exists>st'. addFiles n (drop n fs) st = Some st' \<and> listOk fs (length fs) st'"
proof (induction "length fs - n" arbitrary: n st)
  case (Suc m)
  then have n: "n < length fs" by simp
  obtain st1 where st1: "addFile n (fs ! n) st = Some st1" "listOk fs (Suc n) st1"
    using addFile_ok [OF Suc.prems(1)] by blast
  have "drop n fs = fs ! n # drop (Suc n) fs" using n by (simp add: Cons_nth_drop_Suc)
  with Suc.hyps(1) [of "Suc n" st1] Suc.hyps(2) st1 n show ?case by simp
qed simp

text \<open>The second loop in closed form.\<close>

definition newDirEntry :: "gostring \<Rightarrow> fileListEntry" where
  "newDirEntry d = \<lparr>le_name = d, le_file = None, le_isDir = True, le_isDup = False\<rparr>"

definition markDirs :: "gostring list \<Rightarrow> fileListEntry \<Rightarrow> fileListEntry" where
  "markDirs ds e = (if \<not> le_isDir e \<and> le_name e \<in> set ds then e\<lparr>le_isDup := True\<rparr> else e)"

definition missingDirs :: "fileListState \<Rightarrow> gostring list \<Rightarrow> gostring list" where
  "missingDirs st ds = filter (\<lambda>d. d \<notin> set (map le_name (ls_list st))) ds"

lemma markDirs_name [simp]: "le_name (markDirs ds e) = le_name e" "le_file (markDirs ds e) = le_file e"
    "le_isDir (markDirs ds e) = le_isDir e"
  by (simp_all add: markDirs_def)

lemma addDirs_closed:
  assumes ok: "listOk fs n st"
  shows "fold (addDir st) ds (ls_list st) = map (markDirs ds) (ls_list st) @ map newDirEntry (missingDirs st ds)"
proof (induction ds rule: rev_induct)
  case Nil
  have "markDirs [] = (\<lambda>e. e)" by (simp add: markDirs_def fun_eq_iff)
  then show ?case by (simp add: missingDirs_def)
next
  case (snoc d ds)
  let ?es = "ls_list st" and ?new = "map newDirEntry (missingDirs st ds)"
  have index: "\<forall>a k. ls_files st a = Some k \<longleftrightarrow> k < length ?es \<and> le_name (?es ! k) = a \<and> \<not> le_isDir (?es ! k)"
    "\<forall>a k. ls_knownDirs st a = Some k \<longleftrightarrow> k < length ?es \<and> le_name (?es ! k) = a \<and> le_isDir (?es ! k)"
    and dist: "distinct (map le_name ?es)"
    using ok unfolding listOk_def by simp_all
  have one: "j = k" if "j < length ?es" "k < length ?es" "le_name (?es ! j) = le_name (?es ! k)" for j k
    using dist that by (metis distinct_conv_nth length_map nth_map)
  have "fold (addDir st) (ds @ [d]) ?es = addDir st d (map (markDirs ds) ?es @ ?new)"
    using snoc by simp
  also have "\<dots> = map (markDirs (ds @ [d])) ?es @ map newDirEntry (missingDirs st (ds @ [d]))"
  proof (cases "ls_knownDirs st d")
    case (Some k)
    then have k: "k < length ?es" "le_name (?es ! k) = d" "le_isDir (?es ! k)" using index by simp_all
    have "markDirs (ds @ [d]) (?es ! j) = markDirs ds (?es ! j)" if "j < length ?es" for j
      using one [OF that k(1)] k by (auto simp: markDirs_def)
    then have "map (markDirs (ds @ [d])) ?es = map (markDirs ds) ?es"
      by (intro nth_equalityI) simp_all
    moreover have "d \<in> set (map le_name ?es)" using k by (metis length_map nth_map nth_mem)
    ultimately show ?thesis using Some by (simp add: addDir_def missingDirs_def)
  next
    case none: None
    show ?thesis
    proof (cases "ls_files st d")
      case (Some k)
      then have k: "k < length ?es" "le_name (?es ! k) = d" "\<not> le_isDir (?es ! k)" using index by simp_all
      have "setDup (map (markDirs ds) ?es @ ?new) k = map (markDirs (ds @ [d])) ?es @ ?new"
      proof (rule nth_equalityI)
        fix j assume "j < length (setDup (map (markDirs ds) ?es @ ?new) k)"
        then have j: "j < length (map (markDirs ds) ?es @ ?new)" by simp
        show "setDup (map (markDirs ds) ?es @ ?new) k ! j = (map (markDirs (ds @ [d])) ?es @ ?new) ! j"
        proof (cases "j < length ?es")
          case True
          have "markDirs (ds @ [d]) (?es ! j) = (if j = k then (markDirs ds (?es ! j))\<lparr>le_isDup := True\<rparr> else markDirs ds (?es ! j))"
          proof (cases "j = k")
            case False
            with one [OF True k(1)] k(2) have "le_name (?es ! j) \<noteq> d" by (metis (lifting))
            with False show ?thesis by (simp add: markDirs_def)
          qed (simp add: markDirs_def k)
          with True show ?thesis by (simp add: setDup_nth [OF j] nth_append)
        next
          case False
          with k(1) have "j \<noteq> k" by auto
          with False show ?thesis by (simp add: setDup_nth [OF j] nth_append)
        qed
      qed simp
      moreover have "d \<in> set (map le_name ?es)" using k by (metis length_map nth_map nth_mem)
      ultimately show ?thesis using Some none by (simp add: addDir_def missingDirs_def)
    next
      case None
      have absent: "le_name (?es ! j) \<noteq> d" if "j < length ?es" for j
      proof
        assume "le_name (?es ! j) = d"
        with that index have "ls_files st d = Some j \<or> ls_knownDirs st d = Some j" by simp
        with none None show False by simp
      qed
      then have "d \<notin> set (map le_name ?es)" by (metis in_set_conv_nth length_map nth_map)
      moreover have "map (markDirs (ds @ [d])) ?es = map (markDirs ds) ?es"
        using absent by (intro nth_equalityI) (simp_all add: markDirs_def)
      ultimately show ?thesis using none None by (simp add: addDir_def missingDirs_def newDirEntry_def)
    qed
  qed
  finally show ?case .
qed

text \<open>The list before sorting: its names are distinct, whatever the order of the map.\<close>

definition allEntries :: "fileListState \<Rightarrow> gostring list \<Rightarrow> fileListEntry list" where
  "allEntries st ds = map (markDirs ds) (ls_list st) @ map newDirEntry (missingDirs st ds)"

lemma allEntries_names:
  assumes ok: "listOk fs n st" and ds: "mset ds = mset (ls_dirs st)"
  shows "distinct (map le_name (allEntries st ds))"
    and "set (map le_name (allEntries st ds)) = set (map le_name (ls_list st)) \<union> set (ls_dirs st)"
    and "\<forall>e\<in>set (allEntries st ds). entryName (le_name e)"
proof -
  have d: "distinct ds" "set ds = set (ls_dirs st)"
    using ok mset_eq_imp_distinct_iff [OF ds] mset_eq_setD [OF ds] unfolding listOk_def by simp_all
  have names: "map le_name (allEntries st ds) = map le_name (ls_list st) @ missingDirs st ds"
    by (simp add: allEntries_def comp_def newDirEntry_def)
  show "distinct (map le_name (allEntries st ds))"
    unfolding names using ok d by (auto simp: listOk_def missingDirs_def)
  show "set (map le_name (allEntries st ds)) = set (map le_name (ls_list st)) \<union> set (ls_dirs st)"
    unfolding names using d by (auto simp: missingDirs_def)
  have old: "entryName m" if m: "m \<in> set (map le_name (ls_list st))" for m
    using ok m by (auto simp: listOk_def standsFor_def in_set_conv_nth)
  moreover have "entryName m" if "m \<in> set (missingDirs st ds)" for m
  proof -
    have "m \<in> (\<Union>m\<in>set (map le_name (ls_list st)). set (parentNames m))"
      using that d ok by (simp add: missingDirs_def listOk_def)
    then show ?thesis using old parentNames_entry by blast
  qed
  ultimately show "\<forall>e\<in>set (allEntries st ds). entryName (le_name e)"
    by (metis Un_iff image_eqI list.set_map names set_append)
qed

lemma allEntries_set:
  assumes "set ds = set ds'"
  shows "set (allEntries st ds) = set (allEntries st ds')"
proof -
  have "markDirs ds = markDirs ds'" using assms by (simp add: markDirs_def fun_eq_iff)
  with assms show ?thesis by (auto simp: allEntries_def missingDirs_def)
qed

definition entryKey :: "fileListEntry \<Rightarrow> gostring \<times> gostring" where
  "entryKey e = splitName (le_name e)"

lemma entryKey_distinct:
  assumes "distinct (map le_name es)" and "\<forall>e\<in>set es. entryName (le_name e)"
  shows "distinct (map entryKey es)"
  using assms splitName_inject unfolding distinct_map inj_on_def entryKey_def by metis

text \<open>What \<open>initFileList\<close> returns.\<close>

lemma initFileList_form:
  assumes order: "\<And>ds. mset (order ds) = mset ds"
  shows "\<exists>st. listOk fs (length fs) st \<and> initFileList order fs = Some (sort_key entryKey (allEntries st (order (ls_dirs st))))"
proof -
  obtain st where st: "addFiles 0 fs emptyListState = Some st" "listOk fs (length fs) st"
    using addFiles_ok [OF listOk_empty, of fs] by auto
  then show ?thesis
    using addDirs_closed [OF st(2)] by (auto simp: initFileList_def allEntries_def entryKey_def [abs_def])
qed

lemma sort_entries:
  assumes "distinct (map le_name es)" and "\<forall>e\<in>set es. entryName (le_name e)"
  shows "sorted (map entryKey (sort_key entryKey es)) \<and> distinct (map entryKey (sort_key entryKey es))
    \<and> set (sort_key entryKey es) = set es"
proof -
  have "mset (map entryKey (sort_key entryKey es)) = mset (map entryKey es)" by simp
  then have "distinct (map entryKey (sort_key entryKey es)) = distinct (map entryKey es)"
    by (rule mset_eq_imp_distinct_iff)
  with entryKey_distinct [OF assms] show ?thesis by simp
qed

text \<open>A list of entries as the look-ups rely on it.\<close>

definition fileListOk :: "fileListEntry list \<Rightarrow> bool" where
  "fileListOk es \<longleftrightarrow>
     sorted (map entryKey es) \<and> distinct (map entryKey es) \<and> (\<forall>e\<in>set es. entryName (le_name e))"

lemma initFileList_ok:
  assumes order: "\<And>ds. mset (order ds) = mset ds" and es: "initFileList order fs = Some es"
  shows "fileListOk es"
proof -
  obtain st where st: "listOk fs (length fs) st" "es = sort_key entryKey (allEntries st (order (ls_dirs st)))"
    using initFileList_form [of order fs, OF order] es by auto
  note n = allEntries_names [OF st(1) order]
  from sort_entries [OF n(1,3)] n(3) show ?thesis by (auto simp: fileListOk_def st(2))
qed

section \<open>Look-up and listing\<close>

lemma entryName_last: "entryName n \<Longrightarrow> n \<noteq> m @ [slash]"
proof -
  assume "entryName n"
  then consider "n = [dot]" | "n = [dot, dot]" | ps where "goodPath ps" "n = joinSlash ps"
    by (auto simp: entryName_def)
  then have "last n \<noteq> slash"
  proof cases
    case 3
    then show ?thesis using goodPath_last by simp
  qed (simp_all add: dot_def slash_def)
  then show ?thesis by (metis last_snoc)
qed

lemma strict_prefix_keys:
  fixes ks :: "'k::linorder list"
  assumes "sorted ks" and "distinct ks" and "i < length ks"
  shows "length (takeWhile (\<lambda>k. k < ks ! i) ks) = i"
proof -
  have "sorted_wrt (<) ks" using assms by (simp add: strict_sorted_iff)
  then have "takeWhile (\<lambda>k. k < ks ! i) ks = take i ks"
    using assms(3) by (intro takeWhile_eq_take_P_nth) (auto simp: sorted_wrt_iff_nth_less)
  with assms(3) show ?thesis by simp
qed

lemma openLookup_iff:
  assumes ok: "fileListOk es" and name: "name \<noteq> [dot]"
  shows "openLookup es name = Some l \<longleftrightarrow> (\<exists>i<length es. l = Entry i \<and> le_name (es ! i) = name)"
proof -
  obtain dir elem where d: "splitName name = (dir, elem)" by (cases "splitName name")
  let ?k = "length (takeWhile (\<lambda>e. entryKey e < (dir, elem)) es)"
  have pred: "(case splitName (le_name (es ! i)) of (idir, ielem) \<Rightarrow> idir > dir \<or> idir = dir \<and> ielem \<ge> elem)
      \<longleftrightarrow> entryKey (es ! i) \<ge> (dir, elem)" for i
    by (cases "splitName (le_name (es ! i))") (auto simp: entryKey_def less_eq_prod_def less_le)
  have k: "sortSearch (length es) (\<lambda>i. entryKey (es ! i) \<ge> (dir, elem)) = ?k"
    using ok sortSearch_sorted [where xs = es and key = entryKey and g = "\<lambda>k. (dir, elem) \<le> k"]
    by (auto simp: fileListOk_def not_le)
  have noslash: "\<not> (length fname = length name + 1 \<and> fname ! length name = slash \<and> take (length name) fname = name)"
    if "entryName fname" for fname
  proof
    assume a: "length fname = length name + 1 \<and> fname ! length name = slash \<and> take (length name) fname = name"
    then have "fname = take (length name) fname @ [fname ! length name]"
      by (metis Suc_eq_plus1 lessI take_Suc_conv_app_nth take_all_iff le_refl)
    with a entryName_last [OF that, of name] show False by simp
  qed
  have match: "le_name (es ! ?k) = name \<or> length (le_name (es ! ?k)) = length name + 1
      \<and> le_name (es ! ?k) ! length name = slash \<and> take (length name) (le_name (es ! ?k)) = name
      \<longleftrightarrow> le_name (es ! ?k) = name" if "?k < length es"
    using ok noslash [of "le_name (es ! ?k)"] that by (auto simp: fileListOk_def)
  have lookup: "openLookup es name =
      (if ?k < length es \<and> le_name (es ! ?k) = name then Some (Entry ?k) else None)"
    unfolding openLookup_def Let_def d prod.case pred k using name match by (simp cong: if_cong)
  have "?k = i" if i: "i < length es" "le_name (es ! i) = name" for i
  proof -
    have "(dir, elem) = map entryKey es ! i" using i d by (simp add: entryKey_def)
    moreover have "length (takeWhile (\<lambda>k. k < map entryKey es ! i) (map entryKey es)) = i"
      using ok i(1) by (intro strict_prefix_keys) (simp_all add: fileListOk_def)
    ultimately show ?thesis by (simp add: takeWhile_map comp_def)
  qed
  with lookup show ?thesis by auto
qed

lemma range_filter:
  fixes f :: "'a \<Rightarrow> 'k::linorder"
  assumes "sorted (map f xs)"
  shows "take (length (takeWhile (\<lambda>x. f x \<le> d) xs) - length (takeWhile (\<lambda>x. f x < d) xs))
      (drop (length (takeWhile (\<lambda>x. f x < d) xs)) xs) = filter (\<lambda>x. f x = d) xs"
  using assms
proof (induction xs)
  case (Cons x xs)
  have none: "filter (\<lambda>x. f x = d) xs = []" if "d < f x"
    using Cons.prems that by (auto simp: filter_empty_conv)
  consider "f x < d" | "f x = d" | "d < f x" by fastforce
  then show ?case
  proof cases
    case 2
    have "takeWhile (\<lambda>x. f x < d) xs = []" using Cons.prems 2 by (cases xs) auto
    with Cons 2 show ?thesis by simp
  qed (use Cons none in \<open>auto simp: not_le\<close>)
qed simp

lemma openReadDir_filter:
  assumes ok: "fileListOk es"
  shows "openReadDir es dir = filter (\<lambda>e. fst (splitName (le_name e)) = dir) es"
proof -
  let ?f = "\<lambda>e. fst (splitName (le_name e))"
  have "sorted (map fst (map entryKey es))"
    using ok by (auto simp: fileListOk_def sorted_map less_eq_prod_def elim!: sorted_wrt_mono_rel [rotated])
  then have s: "sorted (map ?f es)" by (simp add: comp_def entryKey_def)
  have "sortSearch (length es) (\<lambda>i. ?f (es ! i) \<ge> dir) = length (takeWhile (\<lambda>e. \<not> dir \<le> ?f e) es)"
    using s by (intro sortSearch_sorted [where g = "\<lambda>k. dir \<le> k"]) auto
  moreover have "sortSearch (length es) (\<lambda>i. ?f (es ! i) > dir) = length (takeWhile (\<lambda>e. \<not> dir < ?f e) es)"
    using s by (intro sortSearch_sorted [where g = "\<lambda>k. dir < k"]) auto
  ultimately show ?thesis
    using range_filter [OF s, of dir] by (simp add: openReadDir_def not_le not_less)
qed

end
