(* ===== verification/File_Listing.thy ===== *)
theory File_Listing
  imports File_System
begin

text \<open>
  What the file system of an archive shows: the list of entries is complete, closed under parents
  and does not depend on the order of Go's map, a name opens the entry it names, and the pieces
  of \<open>ReadDir\<close> are the entries of the directory.
\<close>

section \<open>The list of entries\<close>

text \<open>The order of a map is any order of its keys.\<close>

abbreviation mapOrder :: "(gostring list \<Rightarrow> gostring list) \<Rightarrow> bool" where
  "mapOrder order \<equiv> \<forall>ds. mset (order ds) = mset ds"

text \<open>The names an archive shows: its files' names, made valid, and the directories above them.\<close>

definition shownNames :: "gostring list \<Rightarrow> gostring set" where
  "shownNames fs = (let ns = {m \<in> toValidName ` set fs. m \<noteq> []} in ns \<union> (\<Union>m\<in>ns. set (parentNames m)))"

lemma listOk_names:
  assumes "listOk fs (length fs) st"
  shows "set (map le_name (ls_list st)) = {m \<in> toValidName ` set fs. m \<noteq> []}"
proof (intro set_eqI iffI)
  fix m assume "m \<in> set (map le_name (ls_list st))"
  then obtain k where k: "k < length (ls_list st)" "le_name (ls_list st ! k) = m"
    by (metis in_set_conv_nth length_map nth_map)
  then have s: "standsFor fs (length fs) (ls_list st ! k)" using assms by (simp add: listOk_def)
  then have "m \<noteq> []" using joinSlash_not_dot k(2) by (auto simp: standsFor_def entryName_def)
  with s k(2) show "m \<in> {m \<in> toValidName ` set fs. m \<noteq> []}" by (auto simp: standsFor_def)
next
  fix m assume "m \<in> {m \<in> toValidName ` set fs. m \<noteq> []}"
  then obtain j where "j < length fs" "m = toValidName (fs ! j)" "m \<noteq> []" by (auto simp: in_set_conv_nth)
  with assms show "m \<in> set (map le_name (ls_list st))" by (simp add: listOk_def)
qed

text \<open>An entry stands for the file it names, or for no file; it is marked when it is not the only one.\<close>

definition entryOf :: "gostring list \<Rightarrow> fileListEntry \<Rightarrow> bool" where
  "entryOf fs e =
     (case le_file e of
        Some j \<Rightarrow> j < length fs \<and> toValidName (fs ! j) = le_name e \<and> le_isDir e = isDirName (fs ! j)
          \<and> (\<not> le_isDup e \<longrightarrow> (\<forall>i<length fs. toValidName (fs ! i) = le_name e \<longrightarrow> i = j))
      | None \<Rightarrow> le_isDir e \<and> \<not> le_isDup e \<and> (\<forall>i<length fs. toValidName (fs ! i) \<noteq> le_name e))"

lemma allEntries_entryOf:
  assumes ok: "listOk fs (length fs) st" and e: "e \<in> set (allEntries st ds)"
    and ds: "\<forall>d\<in>set ds. entryName d"
  shows "entryOf fs e"
proof -
  consider e0 where "e0 \<in> set (ls_list st)" "e = markDirs ds e0" | d where "d \<in> set (missingDirs st ds)" "e = newDirEntry d"
    using e by (auto simp: allEntries_def)
  then show ?thesis
  proof cases
    case 1
    then have s: "standsFor fs (length fs) e0" using ok by (auto simp: listOk_def in_set_conv_nth)
    have "le_isDup e0 \<Longrightarrow> le_isDup e" by (simp add: 1 markDirs_def)
    then have dup: "\<not> le_isDup e \<Longrightarrow> \<not> le_isDup e0" by blast
    have core: "le_name e = le_name e0" "le_file e = le_file e0" "le_isDir e = le_isDir e0" by (simp_all add: 1)
    from s obtain j where j: "j < length fs" "le_file e0 = Some j" "le_name e0 = toValidName (fs ! j)"
      "le_isDir e0 = isDirName (fs ! j)" unfolding standsFor_def by blast
    have "i = j" if "\<not> le_isDup e" "i < length fs" "toValidName (fs ! i) = le_name e0" for i
      using s dup [OF that(1)] that(2,3) j(2) unfolding standsFor_def by (metis option.inject)
    with j show ?thesis by (simp add: entryOf_def core)
  next
    case 2
    then have d: "d \<notin> set (map le_name (ls_list st))" "entryName d" using ds by (auto simp: missingDirs_def)
    have "d \<noteq> []" using d(2) joinSlash_not_dot unfolding entryName_def by (metis list.distinct(1))
    with d(1)
    have "\<forall>i<length fs. toValidName (fs ! i) \<noteq> d" using ok by (auto simp: listOk_def)
    with 2 show ?thesis by (simp add: entryOf_def newDirEntry_def)
  qed
qed

lemma shown_closed:
  assumes "m \<in> shownNames fs"
  shows "fst (splitName m) = [dot] \<or> fst (splitName m) \<in> shownNames fs"
proof -
  let ?ns = "{m \<in> toValidName ` set fs. m \<noteq> []}"
  have n: "entryName a" if "a \<in> ?ns" for a using that entryName_valid by auto
  consider "m \<in> ?ns" | a where "a \<in> ?ns" "m \<in> set (parentNames a)" using assms by (auto simp: shownNames_def Let_def)
  then show ?thesis
  proof cases
    case 1
    with splitName_parent [OF n [OF 1]] show ?thesis by (auto simp: shownNames_def Let_def)
  next
    case 2
    then have m: "entryName m" "set (parentNames m) \<subseteq> set (parentNames a)"
      using parentNames_entry [OF n] by blast+
    with splitName_parent [OF m(1)] 2 show ?thesis by (auto simp: shownNames_def Let_def)
  qed
qed

lemma initFileList_state:
  obtains st where "listOk fs (length fs) st"
    and "\<And>order. mapOrder order \<Longrightarrow>
      initFileList order fs = Some (sort_key entryKey (allEntries st (order (ls_dirs st))))"
proof -
  obtain st where st: "addFiles 0 fs emptyListState = Some st" "listOk fs (length fs) st"
    using addFiles_ok [OF listOk_empty, of fs] by auto
  have "initFileList order fs = Some (sort_key entryKey (allEntries st (order (ls_dirs st))))" for order
    using addDirs_closed [OF st(2)] st(1) by (simp add: initFileList_def allEntries_def entryKey_def [abs_def])
  with that st(2) show ?thesis by blast
qed

lemma initFileList_props:
  assumes "mapOrder order"
  obtains es where "initFileList order fs = Some es" and "fileListOk es"
    and "le_name ` set es = shownNames fs" and "\<forall>e\<in>set es. entryOf fs e"
proof -
  obtain st where st: "listOk fs (length fs) st"
    "initFileList order fs = Some (sort_key entryKey (allEntries st (order (ls_dirs st))))"
    using initFileList_state [of fs] assms by blast
  let ?ds = "order (ls_dirs st)"
  have m: "mset ?ds = mset (ls_dirs st)" using assms by simp
  have names: "le_name ` set (allEntries st ?ds) = shownNames fs"
    using allEntries_names(2) [OF st(1) m] listOk_names [OF st(1)] st(1)
    by (simp add: listOk_def shownNames_def Let_def)
  have "entryName d" if "d \<in> set ?ds" for d
  proof -
    have "d \<in> le_name ` set (allEntries st ?ds)"
      using allEntries_names(2) [OF st(1) m] mset_eq_setD [OF m] that by auto
    then show ?thesis using allEntries_names(3) [OF st(1) m] by auto
  qed
  then have "\<forall>e\<in>set (allEntries st ?ds). entryOf fs e" using allEntries_entryOf [OF st(1)] by blast
  with that [OF st(2)] names initFileList_ok [of order fs, OF _ st(2)] assms show ?thesis by simp
qed

text \<open>
  C21: The list of entries is built for every archive, sorted by directory and element without
  two entries of one name; it shows the valid names of the files and all directories above
  them; each entry stands for a file of its name (the only one, unless it is marked as a
  duplicate) or is a directory that no file names, and its directory is listed too.
\<close>

theorem file_list_complete:
  assumes "mapOrder order"
  shows "\<exists>es. initFileList order fs = Some es
    \<and> sorted_wrt (\<lambda>x y. fileEntryLess (le_name x) (le_name y)) es \<and> distinct (map le_name es)
    \<and> le_name ` set es = shownNames fs
    \<and> (\<forall>e\<in>set es. entryOf fs e \<and> (fst (splitName (le_name e)) = [dot] \<or> fst (splitName (le_name e)) \<in> le_name ` set es))"
proof -
  obtain es where es: "initFileList order fs = Some es" "fileListOk es"
    "le_name ` set es = shownNames fs" "\<forall>e\<in>set es. entryOf fs e"
    using initFileList_props [OF assms] by blast
  have "sorted_wrt (<) (map entryKey es)" using es(2) by (simp add: fileListOk_def strict_sorted_iff)
  then have "sorted_wrt (\<lambda>x y. fileEntryLess (le_name x) (le_name y)) es"
    by (simp add: sorted_wrt_map fileEntryLess_split entryKey_def)
  moreover have "map entryKey es = map splitName (map le_name es)" by (simp add: entryKey_def)
  then have "distinct (map le_name es)" using es(2) by (metis distinct_map fileListOk_def)
  ultimately show ?thesis using es shown_closed by (metis (no_types, lifting) image_eqI)
qed

text \<open>C22: The list of entries does not depend on the order in which Go ranges over the directories.\<close>

theorem file_list_order_free:
  assumes "mapOrder order" and "mapOrder order'"
  shows "initFileList order fs = initFileList order' fs"
proof -
  obtain st where st: "listOk fs (length fs) st"
    "initFileList ord fs = Some (sort_key entryKey (allEntries st (ord (ls_dirs st))))" if "mapOrder ord" for ord
    using initFileList_state [of fs] by blast
  let ?es = "allEntries st (order (ls_dirs st))" and ?es' = "allEntries st (order' (ls_dirs st))"
  have m: "mset (order (ls_dirs st)) = mset (ls_dirs st)" "mset (order' (ls_dirs st)) = mset (ls_dirs st)"
    using assms by simp_all
  have s: "set ?es = set ?es'" using m by (intro allEntries_set) (metis mset_eq_setD)
  note n = allEntries_names [OF st(1) [OF assms(1)] m(1)] and n' = allEntries_names [OF st(1) [OF assms(1)] m(2)]
  have "inj_on entryKey (set ?es)" using entryKey_distinct [OF n(1,3)] by (simp add: distinct_map)
  then have "sort_key entryKey ?es = sort_key entryKey ?es'"
    using sort_entries [OF n(1,3)] sort_entries [OF n'(1,3)] s
    by (intro map_sorted_distinct_set_unique [of entryKey]) simp_all
  then show ?thesis using st(2) [OF assms(1)] st(2) [OF assms(2)] by simp
qed

text \<open>An archive with a file in a directory that is no entry, and a second file of the same name.\<close>

definition twoNames :: "gostring list" where
  "twoNames = [[0x61, slash, 0x62], [0x63], [0x2F, 0x63]]"

theorem file_list_complete_witness:
  "mapOrder rev \<and> (\<exists>es. initFileList rev twoNames = Some es \<and> distinct (map le_name es)
     \<and> le_name ` set es = shownNames twoNames)"
  using file_list_complete [of rev twoNames] by auto

theorem file_list_order_free_witness:
  "initFileList rev twoNames = initFileList (\<lambda>ds. ds) twoNames"
  using file_list_order_free [of rev "\<lambda>ds. ds" twoNames] by simp

section \<open>Looking up a name\<close>

text \<open>
  C23: A name other than the root opens the entry of exactly that name, and no other name opens
  anything: \<open>openLookup\<close>'s binary search decides whether the archive shows the name.
\<close>

theorem open_finds_shown_names:
  assumes "mapOrder order" and "initFileList order fs = Some es" and "name \<noteq> [dot]"
  shows "(\<forall>l. openLookup es name = Some l \<longleftrightarrow> (\<exists>i<length es. l = Entry i \<and> le_name (es ! i) = name))
    \<and> (openLookup es name = None \<longleftrightarrow> name \<notin> shownNames fs)"
proof -
  have es: "fileListOk es" "le_name ` set es = shownNames fs"
    using initFileList_props [OF assms(1), of fs] assms(2) by auto
  have l: "openLookup es name = Some l \<longleftrightarrow> (\<exists>i<length es. l = Entry i \<and> le_name (es ! i) = name)" for l
    by (rule openLookup_iff [OF es(1) assms(3)])
  have "openLookup es name = None \<longleftrightarrow> (\<forall>i<length es. le_name (es ! i) \<noteq> name)"
    using l by (metis not_None_eq)
  also have "\<dots> \<longleftrightarrow> name \<notin> shownNames fs" unfolding es(2) [symmetric] by (metis image_iff in_set_conv_nth)
  finally show ?thesis using l by blast
qed

theorem open_finds_shown_names_witness:
  "\<exists>es. initFileList rev twoNames = Some es \<and> (openLookup es [0x63] = None \<longleftrightarrow> [0x63] \<notin> shownNames twoNames)"
proof -
  obtain es where "initFileList rev twoNames = Some es" by (rule initFileList_props [of rev twoNames]) simp_all
  then show ?thesis using open_finds_shown_names [of rev twoNames es "[0x63]"] by (auto simp: dot_def)
qed

section \<open>Reading a directory\<close>

text \<open>A sequence of calls of \<open>ReadDir\<close>: the entries delivered, or the error.\<close>

fun readDirs :: "openDir \<Rightarrow> int list \<Rightarrow> (readDir_error + fileListEntry list) \<times> openDir" where
  "readDirs d [] = (Inr [], d)"
| "readDirs d (n # ns) =
     (case readDir d n of
        (Inl e, d) \<Rightarrow> (Inl e, d)
      | (Inr es, d) \<Rightarrow> (case readDirs d ns of (Inl e, d) \<Rightarrow> (Inl e, d) | (Inr fs, d) \<Rightarrow> (Inr (es @ fs), d)))"

lemma readDir_piece:
  assumes "\<not> list_ex le_isDup (od_files d)" and "readDir d n = (Inr es, d')"
  shows "od_files d' = od_files d \<and> drop (od_offset d) (od_files d) = es @ drop (od_offset d') (od_files d)"
proof -
  let ?n = "length (od_files d) - od_offset d"
  let ?k = "if 0 < n \<and> n < int ?n then nat n else ?n"
  let ?l = "take ?k (drop (od_offset d) (od_files d))"
  have "\<not> list_ex le_isDup ?l" using assms(1) by (auto simp: list_ex_iff dest: in_set_takeD in_set_dropD)
  with assms(2) have "?k = 0 \<and> es = [] \<and> d' = d \<or> es = ?l \<and> d' = d\<lparr>od_offset := od_offset d + ?k\<rparr>"
    by (auto simp: readDir_def Let_def split: if_splits)
  then show ?thesis
  proof
    assume "es = ?l \<and> d' = d\<lparr>od_offset := od_offset d + ?k\<rparr>"
    then show ?thesis by (metis (no_types, lifting) append_take_drop_id drop_drop add.commute openDir.select_convs openDir.surjective openDir.update_convs(2))
  qed simp
qed

lemma readDirs_pieces:
  "\<not> list_ex le_isDup (od_files d) \<Longrightarrow> readDirs d ns = (Inr es, d') \<Longrightarrow>
   od_files d' = od_files d \<and> drop (od_offset d) (od_files d) = es @ drop (od_offset d') (od_files d)"
proof (induction ns arbitrary: d es)
  case (Cons n ns)
  obtain xs d1 ys where r: "readDir d n = (Inr xs, d1)" "readDirs d1 ns = (Inr ys, d')" "es = xs @ ys"
    using Cons.prems(2) by (auto split: prod.splits sum.splits)
  note p = readDir_piece [OF Cons.prems(1) r(1)]
  then have "\<not> list_ex le_isDup (od_files d1)" using Cons.prems(1) by simp
  from Cons.IH [OF this r(2)] p show ?case by (simp add: r(3))
qed simp

lemma not_dup_part:
  "\<not> list_ex P xs \<Longrightarrow> \<not> list_ex P (drop i xs)" "\<not> list_ex P xs \<Longrightarrow> \<not> list_ex P (take k (drop i xs))"
  by (auto simp: list_ex_iff dest: in_set_takeD in_set_dropD)

lemma readDir_rest:
  assumes "\<not> list_ex le_isDup (od_files d)" and "n \<le> 0"
  shows "fst (readDir d n) = Inr (drop (od_offset d) (od_files d))"
  using assms by (simp add: readDir_def Let_def not_dup_part)

lemma readDir_eof:
  assumes "\<not> list_ex le_isDup (od_files d)" and "0 < n"
  shows "fst (readDir d n) = Inl ReadDirEOF \<longleftrightarrow> drop (od_offset d) (od_files d) = []"
  using assms by (auto simp: readDir_def Let_def not_dup_part)

text \<open>
  C24: Reading an opened directory: the pieces that any calls of \<open>ReadDir\<close> return, followed by
  what one call without a limit returns, are the entries of that directory in order, provided no
  entry is a duplicate; a call with a limit reports the end exactly when none is left.
\<close>

theorem directory_reads_entries:
  assumes "mapOrder order" and "initFileList order fs = Some es"
    and "\<not> list_ex le_isDup (openReadDir es dir)"
    and "readDirs \<lparr>od_files = openReadDir es dir, od_offset = 0\<rparr> ns = (Inr xs, d)" and "n \<le> 0" and "0 < m"
  shows "\<exists>ys. fst (readDir d n) = Inr ys \<and> xs @ ys = filter (\<lambda>e. fst (splitName (le_name e)) = dir) es
    \<and> (fst (readDir d m) = Inl ReadDirEOF \<longleftrightarrow> ys = [])"
proof -
  have ok: "fileListOk es" using initFileList_props [OF assms(1), of fs] assms(2) by auto
  have d: "od_files d = openReadDir es dir" "openReadDir es dir = xs @ drop (od_offset d) (openReadDir es dir)"
    using readDirs_pieces [OF _ assms(4)] assms(3) by simp_all
  have dup: "\<not> list_ex le_isDup (od_files d)" using assms(3) d(1) by simp
  show ?thesis
    using readDir_rest [OF dup assms(5)] readDir_eof [OF dup assms(6)] d
      openReadDir_filter [OF ok, of dir] by auto
qed

lemma twoNames_read:
  "readDirs \<lparr>od_files = openReadDir (the (initFileList rev twoNames)) [0x61], od_offset = 0\<rparr> [1]
     = (Inr [\<lparr>le_name = [0x61, slash, 0x62], le_file = Some 0, le_isDir = False, le_isDup = False\<rparr>],
        \<lparr>od_files = openReadDir (the (initFileList rev twoNames)) [0x61], od_offset = 1\<rparr>)"
  by code_simp

lemma twoNames_not_dup: "\<not> list_ex le_isDup (openReadDir (the (initFileList rev twoNames)) [0x61])"
  by code_simp

theorem directory_reads_entries_witness:
  "\<exists>es ys. initFileList rev twoNames = Some es
     \<and> [\<lparr>le_name = [0x61, slash, 0x62], le_file = Some 0, le_isDir = False, le_isDup = False\<rparr>] @ ys
         = filter (\<lambda>e. fst (splitName (le_name e)) = [0x61]) es"
proof -
  obtain es where es: "initFileList rev twoNames = Some es" by (rule initFileList_props [of rev twoNames]) simp_all
  then have e: "the (initFileList rev twoNames) = es" by simp
  show ?thesis
    using directory_reads_entries [OF _ es twoNames_not_dup [unfolded e] twoNames_read [unfolded e], of 0 1] es by auto
qed

text \<open>
  An archive with an entry named by a dot and a slash: the root directory lists that entry as a
  directory with the name of the root itself, so a walk of the tree never ends.
\<close>

lemma dot_entry_lists_itself:
  assumes "mapOrder order" and "initFileList order fs = Some es" and "[dot, slash] \<in> set fs"
  shows "\<exists>e\<in>set (openReadDir es [dot]). le_name e = [dot] \<and> snd (splitName (le_name e)) = [dot]
    \<and> openLookup es [dot] = Some DotFile"
proof -
  have es: "fileListOk es" "le_name ` set es = shownNames fs"
    using initFileList_props [OF assms(1), of fs] assms(2) by auto
  have "toValidName [dot, slash] = [dot]"
    by (simp add: toValidName_def pathClean_def stripDotDot.simps dot_def slash_def backslash_def)
  then have "[dot] \<in> shownNames fs" using assms(3) by (force simp: shownNames_def Let_def)
  then obtain e where "e \<in> set es" "le_name e = [dot]" using es(2) by (metis imageE)
  then show ?thesis
    unfolding openReadDir_filter [OF es(1)] by (auto simp: splitName_dots openLookup_def)
qed

end
