(* ===== verification/File_Reader.thy ===== *)
theory File_Reader
  imports Folder_Reader Pool File_Listing
begin

text \<open>
  Opening, reading and closing the files of an archive, the first half of \<open>reader.go\<close>: a file is a
  range of its folder's content; a folder reader that is left in the middle goes to the pool of
  the folder, from which the next file that lies behind it takes it. Files are named by their
  index. Concurrent clients are interleaved at the level of whole calls. Making a folder reader
  can write to the coder properties of the archive (theory \<open>Folder_Reader\<close>), so that the archive
  is returned updated.
\<close>

section \<open>State\<close>

record sz_file =
  f_FileHeader :: fileHeader
  f_folder :: nat
  f_offset :: int

text \<open>\<open>z_src\<close> is the section of the archive between the headers, \<open>z.r\<close> from \<open>z.start\<close> to \<open>z.end\<close>.\<close>

record archive =
  z_src :: "byte list"
  z_si :: "streamsInfo option"
  z_p :: gostring
  z_File :: "sz_file list"
  z_pool :: "folderReadCloser pooler list"

record fileReader =
  rd_rc :: "folderReadCloser option"
  rd_f :: nat
  rd_n :: int

text \<open>An empty file has a reader of its own.\<close>

datatype opened = NopReader | FileReader fileReader

section \<open>Operations\<close>

definition readError :: "bool \<Rightarrow> sz_error \<Rightarrow> sz_error" where
  "readError enc e = (if e = Panic then Panic else ReadError enc e)"

definition archiveFolderReader ::
    "registry \<Rightarrow> archive \<Rightarrow> nat \<Rightarrow> ((sz_error \<times> bool) + (folderReadCloser \<times> u32)) \<times> archive" where
  "archiveFolderReader reg z folder =
     (case z_si z of
        None \<Rightarrow> (Inl (Panic, False), z)
      | Some si \<Rightarrow>
          let (r, si) = folderReader reg (z_src z) si folder (z_p z) in (r, z\<lparr>z_si := Some si\<rparr>))"

definition fileOpen :: "registry \<Rightarrow> archive \<Rightarrow> nat \<Rightarrow> opened result \<times> archive" where
  "fileOpen reg z i =
     (let f = z_File z ! i; fh = f_FileHeader f in
      if fh_isEmptyStream fh \<or> fh_isEmptyFile fh then (Inr NopReader, z)
      else if length (z_pool z) \<le> f_folder f then (Inl Panic, z)
      else
        let (found, p) = pget (z_pool z ! f_folder f) (f_offset f);
            z = z\<lparr>z_pool := (z_pool z)[f_folder f := p]\<rparr>;
            (rc, z) =
              (case found of
                 Some rc \<Rightarrow> (Inr rc, z)
               | None \<Rightarrow>
                   (case archiveFolderReader reg z (f_folder f) of
                      (Inl (e, enc), z) \<Rightarrow> (Inl (readError enc e), z)
                    | (Inr (rc, crc), z) \<Rightarrow> (Inr rc, z)))
        in
        case rc of
          Inl e \<Rightarrow> (Inl e, z)
        | Inr rc \<Rightarrow>
            case frcSeek rc (f_offset f) SeekStart of
              (Inl e, rc) \<Rightarrow> (Inl (readError (fc_hasEncryption rc) e), z)
            | (Inr _, rc) \<Rightarrow>
                (Inr (FileReader \<lparr>rd_rc = Some rc, rd_f = i, rd_n = sint (fh_UncompressedSize fh)\<rparr>), z))"

text \<open>
  \<open>Read\<close> with a buffer of \<open>m\<close> bytes, for which the decoders have \<open>g\<close> bytes ready. A closed
  reader that was not at its end is a nil pointer.
\<close>

definition fileReaderRead :: "nat \<Rightarrow> fileReader \<Rightarrow> nat \<Rightarrow> byte list \<times> sz_error option \<times> fileReader" where
  "fileReaderRead g fr m =
     (if m = 0 then ([], None, fr)
      else if rd_n fr \<le> 0 then ([], Some EOF, fr)
      else
        let m = (if rd_n fr < int m then nat (rd_n fr) else m) in
        case rd_rc fr of
          None \<Rightarrow> ([], Some Panic, fr)
        | Some rc \<Rightarrow>
            let (bs, err, rc) = frcRead g rc m;
                fr = fr\<lparr>rd_rc := Some rc, rd_n := rd_n fr - int (length bs)\<rparr>
            in (bs,
                (case err of
                   None \<Rightarrow> None
                 | Some e \<Rightarrow>
                     if e = EOF then
                       if rd_n fr \<le> 0 then Some EOF
                       else Some (readError (fc_hasEncryption rc) UnexpectedEOF)
                     else Some (readError (fc_hasEncryption rc) e)),
                fr))"

text \<open>Also returned: the folder readers that were closed.\<close>

definition fileReaderClose ::
    "archive \<Rightarrow> fileReader \<Rightarrow> sz_error option \<times> fileReader \<times> archive \<times> folderReadCloser list" where
  "fileReaderClose z fr =
     (case rd_rc fr of
        None \<Rightarrow> (None, fr, z, [])
      | Some rc \<Rightarrow>
          case frcSeek rc 0 SeekCurrent of
            (Inl e, rc) \<Rightarrow> (Some e, fr\<lparr>rd_rc := Some rc\<rparr>, z, [])
          | (Inr offset, rc) \<Rightarrow>
              if offset = fc_size rc then (None, fr\<lparr>rd_rc := None\<rparr>, z, [rc])
              else
                let k = f_folder (z_File z ! rd_f fr);
                    (b, p, closed) = pput (z_pool z ! k) offset rc
                in (None, fr\<lparr>rd_rc := None\<rparr>, z\<lparr>z_pool := (z_pool z)[k := p]\<rparr>, closed))"

definition ReleasePool :: "archive \<Rightarrow> archive" where
  "ReleasePool z = z\<lparr>z_pool := map (\<lambda>p. fst (pclose p)) (z_pool z)\<rparr>"

text \<open>
  \<open>Reader.Open\<close>, for the entry list of the archive. The conversion of the opened file to an
  \<open>fs.File\<close> panics for the reader of an empty file.
\<close>

datatype open_error = ErrInvalid | ErrNotExist | OpenFailed sz_error
datatype fsFile = DirFile openDir | RegularFile fileReader

definition readerOpen ::
    "registry \<Rightarrow> fileListEntry list \<Rightarrow> archive \<Rightarrow> gostring \<Rightarrow> (open_error + fsFile) \<times> archive" where
  "readerOpen reg files z name =
     (if \<not> validPath name then (Inl ErrInvalid, z)
      else
        case openLookup files name of
          None \<Rightarrow> (Inl ErrNotExist, z)
        | Some DotFile \<Rightarrow> (Inr (DirFile \<lparr>od_files = openReadDir files name, od_offset = 0\<rparr>), z)
        | Some (Entry i) \<Rightarrow>
            if le_isDir (files ! i)
            then (Inr (DirFile \<lparr>od_files = openReadDir files name, od_offset = 0\<rparr>), z)
            else
              case le_file (files ! i) of
                None \<Rightarrow> (Inl (OpenFailed Panic), z)
              | Some n \<Rightarrow>
                  case fileOpen reg z n of
                    (Inl e, z) \<Rightarrow> (Inl (OpenFailed e), z)
                  | (Inr NopReader, z) \<Rightarrow> (Inl (OpenFailed Panic), z)
                  | (Inr (FileReader fr), z) \<Rightarrow> (Inr (RegularFile fr), z))"

section \<open>The contents of the folders\<close>

text \<open>
  Folder \<open>k\<close> of the archive is sound when its reader can be made, for a content of the size that
  the header says, and every file of the folder lies within it.
\<close>

definition fileWithin :: "byte list \<Rightarrow> sz_file \<Rightarrow> bool" where
  "fileWithin bs f \<longleftrightarrow>
     0 \<le> f_offset f \<and> 0 \<le> sint (fh_UncompressedSize (f_FileHeader f))
     \<and> f_offset f + sint (fh_UncompressedSize (f_FileHeader f)) \<le> int (length bs)"

definition folderContent :: "registry \<Rightarrow> archive \<Rightarrow> nat \<Rightarrow> byte list \<Rightarrow> bool" where
  "folderContent reg z k bs \<longleftrightarrow>
     (\<exists>enc crc e. fst (archiveFolderReader reg z k) = Inr (newFolderReadCloser (bs, e) (int (length bs)) enc, crc))
     \<and> int (length bs) < 2 ^ 63
     \<and> (\<forall>f\<in>set (z_File z). f_folder f = k \<and> \<not> fh_isEmptyStream (f_FileHeader f) \<and> \<not> fh_isEmptyFile (f_FileHeader f)
          \<longrightarrow> fileWithin bs f)"

text \<open>The slice of the folder that is the file.\<close>

definition fileSlice :: "byte list \<Rightarrow> sz_file \<Rightarrow> byte list" where
  "fileSlice bs f =
     take (nat (sint (fh_UncompressedSize (f_FileHeader f)))) (drop (nat (f_offset f)) bs)"

section \<open>Pools and handles\<close>

text \<open>A folder reader at a position of the content \<open>bs\<close>.\<close>

definition readerAt :: "byte list \<Rightarrow> int \<Rightarrow> folderReadCloser \<Rightarrow> bool" where
  "readerAt bs off rc \<longleftrightarrow>
     (\<exists>e. tracks (bs, e) rc) \<and> off = int (fc_count rc) \<and> fc_size rc = int (length bs)"

definition poolsOk :: "(nat \<Rightarrow> byte list) \<Rightarrow> archive \<Rightarrow> bool" where
  "poolsOk C z \<longleftrightarrow>
     (\<forall>k<length (z_pool z). lruSound (z_pool z ! k)
        \<and> (\<forall>e\<in>#lruStored (z_pool z ! k). readerAt (C k) (fst e) (snd e)))"

definition contentsOk :: "registry \<Rightarrow> (nat \<Rightarrow> byte list) \<Rightarrow> archive \<Rightarrow> bool" where
  "contentsOk reg C z \<longleftrightarrow>
     (\<forall>k<length (z_pool z). folderContent reg z k (C k))
     \<and> (\<forall>f\<in>set (z_File z). \<not> fh_isEmptyStream (f_FileHeader f) \<and> \<not> fh_isEmptyFile (f_FileHeader f)
          \<longrightarrow> f_folder f < length (z_pool z))"

abbreviation hasContent :: "sz_file \<Rightarrow> bool" where
  "hasContent f \<equiv> \<not> fh_isEmptyStream (f_FileHeader f) \<and> \<not> fh_isEmptyFile (f_FileHeader f)"

abbreviation fileSize :: "sz_file \<Rightarrow> int" where
  "fileSize f \<equiv> sint (fh_UncompressedSize (f_FileHeader f))"

text \<open>An open file: its folder reader is where the bytes still to be read begin.\<close>

definition handleOk :: "(nat \<Rightarrow> byte list) \<Rightarrow> archive \<Rightarrow> fileReader \<Rightarrow> bool" where
  "handleOk C z fr \<longleftrightarrow>
     rd_f fr < length (z_File z) \<and> hasContent (z_File z ! rd_f fr)
     \<and> 0 \<le> rd_n fr \<and> rd_n fr \<le> fileSize (z_File z ! rd_f fr)
     \<and> (\<forall>rc. rd_rc fr = Some rc \<longrightarrow>
          readerAt (C (f_folder (z_File z ! rd_f fr)))
            (f_offset (z_File z ! rd_f fr) + fileSize (z_File z ! rd_f fr) - rd_n fr) rc)"

text \<open>
  What does not change while files are read, and what does not change when making a folder reader
  leaves the properties of the coders alone. It does so for decoders that need no password
  (\<open>folder_keeps_plain\<close>), and for the AES decoder when the key is cached or the password does not fit
  behind the salt (\<open>aes_keepsProperties\<close> of theory \<open>Archive_Bytes\<close>).
\<close>

definition sameArchive :: "archive \<Rightarrow> archive \<Rightarrow> bool" where
  "sameArchive z z' \<longleftrightarrow>
     z_src z' = z_src z \<and> z_p z' = z_p z \<and> z_File z' = z_File z \<and> length (z_pool z') = length (z_pool z)"

definition keepsProperties :: "registry \<Rightarrow> archive \<Rightarrow> bool" where
  "keepsProperties reg z \<longleftrightarrow>
     (\<forall>k<length (z_pool z). z_si (snd (archiveFolderReader reg z k)) = z_si z)"

lemma sameArchive_refl [simp]: "sameArchive z z"
  by (simp add: sameArchive_def)

lemma archiveFolderReader_same:
  assumes "sameArchive z z'" and "z_si z' = z_si z"
  shows "fst (archiveFolderReader reg z' k) = fst (archiveFolderReader reg z k)"
    and "z_si (snd (archiveFolderReader reg z' k)) = z_si (snd (archiveFolderReader reg z k))"
  using assms by (simp_all add: sameArchive_def archiveFolderReader_def split_beta Let_def split: option.split)

lemma archiveFolderReader_pools:
  "z_pool (snd (archiveFolderReader reg z k)) = z_pool z" "sameArchive z (snd (archiveFolderReader reg z k))"
  by (simp_all add: archiveFolderReader_def sameArchive_def split_beta Let_def split: option.split)

lemma contentsOk_same: "sameArchive z z' \<Longrightarrow> z_si z' = z_si z \<Longrightarrow> contentsOk reg C z \<Longrightarrow> contentsOk reg C z'"
  using archiveFolderReader_same(1) [where z = z and z' = z' and reg = reg] by (simp add: sameArchive_def contentsOk_def folderContent_def)

lemma keepsProperties_same: "sameArchive z z' \<Longrightarrow> z_si z' = z_si z \<Longrightarrow> keepsProperties reg z \<Longrightarrow> keepsProperties reg z'"
  using archiveFolderReader_same(2) [where z = z and z' = z' and reg = reg] by (simp add: sameArchive_def keepsProperties_def)

lemma handleOk_same: "sameArchive z z' \<Longrightarrow> handleOk C z fr \<Longrightarrow> handleOk C z' fr"
  by (simp add: sameArchive_def handleOk_def)

lemma poolsOk_same: "z_pool z' = z_pool z \<Longrightarrow> poolsOk C z' = poolsOk C z"
  by (simp add: poolsOk_def)

lemma folder_keeps_plain:
  assumes "\<And>method dcomp p n readers s. reg method = Some dcomp \<Longrightarrow> dcomp p n readers = Inr s \<Longrightarrow> \<exists>t. s = PlainStream t"
  shows "keepsProperties reg z"
proof -
  have "snd (folderReader reg src si k password) = si" for src si k password
    by (rule folderReader_keeps) (rule coderReader_plain, use assms in blast)
  then show ?thesis by (simp add: keepsProperties_def archiveFolderReader_def split_beta Let_def split: option.split)
qed

lemma poolsOk_update:
  assumes "poolsOk C z" and "k < length (z_pool z)" and "lruSound p"
    and "\<forall>e\<in>#lruStored p. readerAt (C k) (fst e) (snd e)"
  shows "poolsOk C (z\<lparr>z_pool := (z_pool z)[k := p]\<rparr>) \<and> sameArchive z (z\<lparr>z_pool := (z_pool z)[k := p]\<rparr>)"
  using assms by (auto simp: poolsOk_def sameArchive_def nth_list_update)

text \<open>The reader that \<open>Open\<close> starts from, pooled or new, is at or before the file.\<close>

lemma found_reader:
  assumes pools: "poolsOk C z" and k: "k < length (z_pool z)" and get: "pget (z_pool z ! k) off = (found, p)"
    and off: "0 \<le> off"
    and new: "fst (archiveFolderReader reg z k) = Inr (newFolderReadCloser (C k, e) (int (length (C k))) enc, crc)"
  shows "\<exists>rc pos z'. (case found of Some rc \<Rightarrow> (Inr rc, z\<lparr>z_pool := (z_pool z)[k := p]\<rparr>)
          | None \<Rightarrow> (case archiveFolderReader reg (z\<lparr>z_pool := (z_pool z)[k := p]\<rparr>) k of
                      (Inl (e, enc), z) \<Rightarrow> (Inl (readError enc e), z) | (Inr (rc, crc), z) \<Rightarrow> (Inr rc, z))) = (Inr rc, z')
        \<and> readerAt (C k) pos rc \<and> pos \<le> off \<and> poolsOk C z' \<and> sameArchive z z'
        \<and> (keepsProperties reg z \<longrightarrow> z_si z' = z_si z)"
proof (cases found)
  case None
  let ?z = "z\<lparr>z_pool := (z_pool z)[k := p]\<rparr>"
  have "p = z_pool z ! k"
    using pool.get_none [of "z_pool z ! k" off p] get None pools k by (simp add: poolsOk_def)
  then have z: "?z = z" by simp
  have "readerAt (C k) 0 (newFolderReadCloser (C k, e) (int (length (C k))) enc)"
    unfolding readerAt_def using tracks_new
    by (intro conjI exI [of _ e]) (simp_all add: newFolderReadCloser_def)
  moreover obtain z' where "archiveFolderReader reg z k = (Inr (newFolderReadCloser (C k, e) (int (length (C k))) enc, crc), z')"
    using new by (cases "archiveFolderReader reg z k") simp
  moreover from this have "poolsOk C z'" "sameArchive z z'" "keepsProperties reg z \<longrightarrow> z_si z' = z_si z"
    using archiveFolderReader_pools [where reg = reg and z = z and k = k] pools poolsOk_same [of z' z C] k by (auto simp: keepsProperties_def)
  ultimately show ?thesis using off unfolding z by (auto simp: None)
next
  case (Some rc)
  have "lruSound (z_pool z ! k)" "\<forall>e\<in>#lruStored (z_pool z ! k). readerAt (C k) (fst e) (snd e)"
    using pools k by (simp_all add: poolsOk_def)
  from pool.get_all [OF this(1) get [unfolded Some] this(2)] show ?thesis
    using poolsOk_update [OF pools k] by (auto simp: Some)
qed

lemma fileOpen_ok:
  assumes pools: "poolsOk C z" and ok: "contentsOk reg C z" and i: "i < length (z_File z)"
    and ne: "hasContent (z_File z ! i)"
  shows "\<exists>fr z'. fileOpen reg z i = (Inr (FileReader fr), z') \<and> poolsOk C z' \<and> sameArchive z z'
    \<and> handleOk C z' fr \<and> rd_f fr = i \<and> rd_n fr = fileSize (z_File z ! i) \<and> rd_rc fr \<noteq> None
    \<and> (keepsProperties reg z \<longrightarrow> z_si z' = z_si z)"
proof -
  define f where "f = z_File z ! i"
  define k where "k = f_folder f"
  have f: "f \<in> set (z_File z)" "hasContent f" using i ne by (simp_all add: f_def)
  then have k: "k < length (z_pool z)" using ok by (auto simp: contentsOk_def k_def)
  then have content: "folderContent reg z k (C k)" using ok by (simp add: contentsOk_def)
  then obtain e enc crc where new:
    "fst (archiveFolderReader reg z k) = Inr (newFolderReadCloser (C k, e) (int (length (C k))) enc, crc)"
    unfolding folderContent_def by blast
  have within: "fileWithin (C k) f" using content f unfolding folderContent_def k_def by blast
  obtain found p where get: "pget (z_pool z ! k) (f_offset f) = (found, p)" by (cases "pget (z_pool z ! k) (f_offset f)")
  from found_reader [OF pools k get _ new] within
  obtain rc pos z' where rc: "(case found of Some rc \<Rightarrow> (Inr rc, z\<lparr>z_pool := (z_pool z)[k := p]\<rparr>)
          | None \<Rightarrow> (case archiveFolderReader reg (z\<lparr>z_pool := (z_pool z)[k := p]\<rparr>) k of
                      (Inl (e, enc), z) \<Rightarrow> (Inl (readError enc e), z) | (Inr (rc, crc), z) \<Rightarrow> (Inr rc, z))) = (Inr rc, z')"
      "readerAt (C k) pos rc" "pos \<le> f_offset f"
    and z: "poolsOk C z'" "sameArchive z z'" "keepsProperties reg z \<longrightarrow> z_si z' = z_si z"
    by (auto simp: fileWithin_def)
  from rc(2) obtain e' where t: "tracks (C k, e') rc" "pos = int (fc_count rc)" "fc_size rc = int (length (C k))"
    by (auto simp: readerAt_def)
  define off where "off = nat (f_offset f)"
  have off: "f_offset f = int off" "fc_count rc \<le> off" "off \<le> length (C k)" "int off \<le> fc_size rc"
    using within rc(3) t(2,3) by (auto simp: off_def fileWithin_def)
  note seek = frcSeek_forward [OF t(1) off(2), simplified, OF off(3,4)]
  let ?rc = "advance rc (off - fc_count rc)"
  let ?fr = "\<lparr>rd_rc = Some ?rc, rd_f = i, rd_n = fileSize f\<rparr>"
  have "readerAt (C k) (f_offset f) ?rc"
    using advance_tracks(1) [OF t(1)] seek(2) off(1) t(3) by (auto simp: readerAt_def)
  then have "handleOk C z' ?fr"
    using i f within z(2) by (simp add: handleOk_def sameArchive_def f_def [symmetric] k_def [symmetric] fileWithin_def)
  moreover have "fileOpen reg z i = (Inr (FileReader ?fr), z')"
    using f(2) k rc(1) seek(1)
    unfolding k_def using get [unfolded off(1) k_def]
    by (simp add: fileOpen_def f_def [symmetric] off(1) Let_def not_le [symmetric])
  ultimately show ?thesis using z by (auto simp: f_def)
qed

text \<open>For reading it only matters that the files lie within the contents.\<close>

definition filesWithin :: "(nat \<Rightarrow> byte list) \<Rightarrow> archive \<Rightarrow> bool" where
  "filesWithin C z \<longleftrightarrow> (\<forall>f\<in>set (z_File z). hasContent f \<longrightarrow> fileWithin (C (f_folder f)) f)"

lemma contentsOk_within: "contentsOk reg C z \<Longrightarrow> filesWithin C z"
  unfolding filesWithin_def contentsOk_def folderContent_def by blast

lemma filesWithin_same: "sameArchive z z' \<Longrightarrow> filesWithin C z \<Longrightarrow> filesWithin C z'"
  by (simp add: filesWithin_def sameArchive_def)

lemma fileRead_ok:
  assumes ok: "handleOk C z fr" and contents: "filesWithin C z" and m: "0 < m" and rc: "rd_rc fr = Some rc"
  defines "f \<equiv> z_File z ! rd_f fr"
  shows "\<exists>q fr'. fileReaderRead g fr m = (take q (drop (nat (fileSize f - rd_n fr)) (fileSlice (C (f_folder f)) f)),
        if rd_n fr = 0 then Some EOF else None, fr')
      \<and> q \<le> m \<and> int q \<le> rd_n fr \<and> (0 < rd_n fr \<longrightarrow> 0 < q)
      \<and> handleOk C z fr' \<and> rd_f fr' = rd_f fr \<and> rd_n fr' = rd_n fr - int q"
proof -
  define bs where "bs = C (f_folder f)"
  have f: "f \<in> set (z_File z)" "hasContent f" using ok by (simp_all add: handleOk_def f_def)
  then have within: "fileWithin bs f" using contents by (simp add: filesWithin_def bs_def)
  have n: "0 \<le> rd_n fr" "rd_n fr \<le> fileSize f" and at: "readerAt bs (f_offset f + fileSize f - rd_n fr) rc"
    using ok rc by (simp_all add: handleOk_def f_def bs_def)
  then obtain e where t: "tracks (bs, e) rc" "int (fc_count rc) = f_offset f + fileSize f - rd_n fr"
    "fc_size rc = int (length bs)" by (auto simp: readerAt_def)
  show ?thesis
  proof (cases "rd_n fr = 0")
    case True
    with m ok show ?thesis by (intro exI [of _ 0] exI [of _ fr]) (simp add: fileReaderRead_def)
  next
    case False
    with n have pos: "0 < rd_n fr" by simp
    define m' where "m' = (if rd_n fr < int m then nat (rd_n fr) else m)"
    have m': "0 < m'" "int m' \<le> rd_n fr" "m' \<le> m" using m pos by (auto simp: m'_def)
    have before: "fc_count rc < length bs" using t(2) within pos by (simp add: fileWithin_def)
    obtain q where q: "frcRead g rc m' = (take q (drop (fc_count rc) bs), None, advance rc q)" "q \<le> m'" "0 < q"
      "tracks (bs, e) (advance rc q)"
      using frcRead_tracks [OF t(1) m'(1), of g] before by auto
    have "fc_count rc + q \<le> length bs"
      using q(2) m'(2) t(2) within by (simp add: fileWithin_def)
    then have len: "length (take q (drop (fc_count rc) bs)) = q"
      and count: "fc_count (advance rc q) = fc_count rc + q"
      using advance_tracks(2) [OF t(1)] by simp_all
    let ?fr = "fr\<lparr>rd_rc := Some (advance rc q), rd_n := rd_n fr - int q\<rparr>"
    have "fileReaderRead g fr m = (take q (drop (fc_count rc) bs), None, ?fr)"
      using m pos rc q(1) len by (simp add: fileReaderRead_def m'_def [symmetric] Let_def)
    moreover have "take q (drop (fc_count rc) bs) = take q (drop (nat (fileSize f - rd_n fr)) (fileSlice bs f))"
    proof -
      have "int (fc_count rc) = int (nat (fileSize f - rd_n fr) + nat (f_offset f))"
        using t(2) n within by (simp add: fileWithin_def)
      then have "fc_count rc = nat (fileSize f - rd_n fr) + nat (f_offset f)" by (simp only: of_nat_eq_iff)
      moreover have "q \<le> nat (fileSize f) - nat (fileSize f - rd_n fr)" using q(2) m'(2) n by linarith
      ultimately show ?thesis by (simp add: fileSlice_def drop_take min_absorb1)
    qed
    moreover have "readerAt bs (f_offset f + fileSize f - rd_n ?fr) (advance rc q)"
      using q(4) count t by (auto simp: readerAt_def)
    then have "handleOk C z ?fr" using ok q(2) m'(2) by (simp add: handleOk_def f_def bs_def)
    ultimately show ?thesis using q m' False unfolding bs_def by (intro exI [of _ q] exI [of _ ?fr]) auto
  qed
qed

lemma fileClose_ok:
  assumes ok: "handleOk C z fr" and pools: "poolsOk C z" and contents: "contentsOk reg C z"
    and close: "fileReaderClose z fr = (e, fr', z', closed)"
  shows "e = None \<and> fr' = fr\<lparr>rd_rc := None\<rparr> \<and> poolsOk C z' \<and> sameArchive z z' \<and> handleOk C z' fr'
    \<and> z_si z' = z_si z"
proof (cases "rd_rc fr")
  case None
  with ok pools close show ?thesis by (auto simp: fileReaderClose_def)
next
  case (Some rc)
  define f where "f = z_File z ! rd_f fr"
  have f: "f \<in> set (z_File z)" "hasContent f" using ok by (simp_all add: handleOk_def f_def)
  then have k: "f_folder f < length (z_pool z)" using contents by (auto simp: contentsOk_def)
  then have content: "folderContent reg z (f_folder f) (C (f_folder f))" using contents by (simp add: contentsOk_def)
  have at: "readerAt (C (f_folder f)) (int (fc_count rc)) rc" and size: "int (fc_count rc) \<le> fc_size rc"
    using ok Some by (auto simp: handleOk_def readerAt_def tracks_def f_def)
  have seek: "frcSeek rc 0 SeekCurrent = (Inr (int (fc_count rc)), rc)"
    using size at content by (intro frcSeek_current) (auto simp: readerAt_def folderContent_def)
  have ok': "handleOk C z (fr\<lparr>rd_rc := None\<rparr>)" using ok by (simp add: handleOk_def)
  show ?thesis
  proof (cases "int (fc_count rc) = fc_size rc")
    case True
    with close seek Some pools ok' show ?thesis by (auto simp: fileReaderClose_def)
  next
    case False
    obtain b p c where put: "pput (z_pool z ! f_folder f) (int (fc_count rc)) rc = (b, p, c)"
      by (cases "pput (z_pool z ! f_folder f) (int (fc_count rc)) rc")
    have sound: "lruSound (z_pool z ! f_folder f)"
      "\<forall>e\<in>#lruStored (z_pool z ! f_folder f). readerAt (C (f_folder f)) (fst e) (snd e)"
      using pools k by (simp_all add: poolsOk_def)
    from pool.put_all [OF sound(1) put sound(2) at]
    have "poolsOk C (z\<lparr>z_pool := (z_pool z)[f_folder f := p]\<rparr>)" "sameArchive z (z\<lparr>z_pool := (z_pool z)[f_folder f := p]\<rparr>)"
      using poolsOk_update [OF pools k] by auto
    moreover have "e = None" "fr' = fr\<lparr>rd_rc := None\<rparr>" "z' = z\<lparr>z_pool := (z_pool z)[f_folder f := p]\<rparr>"
      using close seek Some False put by (auto simp: fileReaderClose_def Let_def f_def [symmetric])
    moreover from this have "z_si z' = z_si z" by simp
    ultimately show ?thesis using handleOk_same ok' by blast
  qed
qed

lemma ReleasePool_ok: "poolsOk C z \<Longrightarrow> poolsOk C (ReleasePool z) \<and> sameArchive z (ReleasePool z) \<and> z_si (ReleasePool z) = z_si z"
proof -
  assume ok: "poolsOk C z"
  have "lruSound (fst (pclose p)) \<and> lruStored (fst (pclose p)) = {#}" if "lruSound p" for p :: "folderReadCloser pooler"
    using pool.close_stored [OF that, of "fst (pclose p)" "snd (pclose p)"] by simp
  with ok show ?thesis by (auto simp: poolsOk_def ReleasePool_def sameArchive_def)
qed

section \<open>Runs\<close>

text \<open>
  Clients of an archive: they open files, read through any of the readers they got, close them in
  any order and release the pools, all interleaved. With each reader goes what it delivered. The
  decoders may have a state of their own, as the cache of keys that all archives share: every
  opening finds them in one of the states \<open>regs\<close>.
\<close>

inductive fileRun :: "registry set \<Rightarrow> archive \<Rightarrow> archive \<Rightarrow> (fileReader \<times> byte list) list \<Rightarrow> bool"
  for regs z0 where
  start: "fileRun regs z0 z0 []"
| opened: "fileRun regs z0 z hs \<Longrightarrow> reg \<in> regs \<Longrightarrow> i < length (z_File z) \<Longrightarrow> fileOpen reg z i = (Inr (FileReader fr), z') \<Longrightarrow>
    fileRun regs z0 z' (hs @ [(fr, [])])"
| reading: "fileRun regs z0 z hs \<Longrightarrow> h < length hs \<Longrightarrow> fileReaderRead g (fst (hs ! h)) m = (bs, err, fr) \<Longrightarrow>
    fileRun regs z0 z (hs[h := (fr, snd (hs ! h) @ bs)])"
| closing: "fileRun regs z0 z hs \<Longrightarrow> h < length hs \<Longrightarrow> fileReaderClose z (fst (hs ! h)) = (err, fr, z', closed) \<Longrightarrow>
    fileRun regs z0 z' (hs[h := (fr, snd (hs ! h))])"
| release: "fileRun regs z0 z hs \<Longrightarrow> fileRun regs z0 (ReleasePool z) hs"

text \<open>A reader has delivered the part of its file that it is past.\<close>

definition sliceOf :: "(nat \<Rightarrow> byte list) \<Rightarrow> archive \<Rightarrow> nat \<Rightarrow> byte list" where
  "sliceOf C z i = fileSlice (C (f_folder (z_File z ! i))) (z_File z ! i)"

definition delivered :: "(nat \<Rightarrow> byte list) \<Rightarrow> archive \<Rightarrow> fileReader \<times> byte list \<Rightarrow> bool" where
  "delivered C z h \<longleftrightarrow>
     handleOk C z (fst h)
     \<and> snd h = take (nat (fileSize (z_File z ! rd_f (fst h)) - rd_n (fst h))) (sliceOf C z (rd_f (fst h)))"

definition runInv :: "registry set \<Rightarrow> (nat \<Rightarrow> byte list) \<Rightarrow> archive \<Rightarrow> archive \<Rightarrow> (fileReader \<times> byte list) list \<Rightarrow> bool" where
  "runInv regs C z0 z hs \<longleftrightarrow>
     sameArchive z0 z \<and> (\<forall>reg\<in>regs. contentsOk reg C z \<and> keepsProperties reg z) \<and> poolsOk C z
     \<and> (\<forall>h\<in>set hs. delivered C z h)"

lemma delivered_same: "sameArchive z z' \<Longrightarrow> delivered C z h \<Longrightarrow> delivered C z' h"
  using handleOk_same by (auto simp: delivered_def sliceOf_def sameArchive_def)

lemma sameArchive_trans: "sameArchive a b \<Longrightarrow> sameArchive b c \<Longrightarrow> sameArchive a c"
  by (simp add: sameArchive_def)

lemma length_sliceOf:
  assumes "filesWithin C z" and "i < length (z_File z)" and "hasContent (z_File z ! i)"
  shows "length (sliceOf C z i) = nat (fileSize (z_File z ! i))"
proof -
  let ?f = "z_File z ! i"
  have "?f \<in> set (z_File z)" using assms(2) by simp
  then have "fileWithin (C (f_folder ?f)) ?f"
    using assms(1,3) by (simp add: filesWithin_def)
  then have "nat (fileSize ?f) \<le> length (C (f_folder ?f)) - nat (f_offset ?f)" unfolding fileWithin_def by linarith
  then show ?thesis by (simp add: sliceOf_def fileSlice_def)
qed

lemma take_length_take: "bs = take k xs \<Longrightarrow> take (length bs) xs = bs"
  by (metis append_eq_conv_conj append_take_drop_id)

lemma delivered_read:
  assumes d: "delivered C z (fr, bs)" and ok: "filesWithin C z" and m: "0 < m" and rc: "rd_rc fr = Some rc"
  shows "\<exists>q fr'. fileReaderRead g fr m = (take q (drop (length bs) (sliceOf C z (rd_f fr))),
        if length bs = length (sliceOf C z (rd_f fr)) then Some EOF else None, fr')
      \<and> q \<le> m \<and> (length bs < length (sliceOf C z (rd_f fr)) \<longrightarrow> 0 < q) \<and> rd_f fr' = rd_f fr
      \<and> delivered C z (fr', bs @ take q (drop (length bs) (sliceOf C z (rd_f fr))))"
proof -
  let ?f = "z_File z ! rd_f fr" and ?s = "sliceOf C z (rd_f fr)"
  have h: "handleOk C z fr" and bs: "bs = take (nat (fileSize ?f - rd_n fr)) ?s" using d by (simp_all add: delivered_def)
  then have n: "0 \<le> rd_n fr" "rd_n fr \<le> fileSize ?f" by (simp_all add: handleOk_def)
  have len: "length ?s = nat (fileSize ?f)" using h by (intro length_sliceOf [OF ok]) (simp_all add: handleOk_def)
  have lbs: "length bs = nat (fileSize ?f - rd_n fr)" using n by (simp add: bs len)
  from fileRead_ok [OF h ok m rc, of g] obtain q fr' where
    q: "fileReaderRead g fr m = (take q (drop (length bs) ?s), if rd_n fr = 0 then Some EOF else None, fr')"
      "q \<le> m" "int q \<le> rd_n fr" "0 < rd_n fr \<longrightarrow> 0 < q" "handleOk C z fr'" "rd_f fr' = rd_f fr" "rd_n fr' = rd_n fr - int q"
    unfolding lbs sliceOf_def by blast
  have "length bs = length ?s \<longleftrightarrow> rd_n fr = 0" "length bs < length ?s \<longleftrightarrow> 0 < rd_n fr"
    using n by (auto simp: lbs len)
  moreover have "nat (fileSize ?f - rd_n fr') = length bs + q" using n q(3,7) by (simp add: lbs)
  then have "delivered C z (fr', bs @ take q (drop (length bs) ?s))"
    using q(5,6) take_length_take [OF bs] by (simp add: delivered_def take_add)
  ultimately show ?thesis using q by auto
qed

lemma fileRun_regs: "fileRun regs z0 z hs \<Longrightarrow> hs \<noteq> [] \<Longrightarrow> regs \<noteq> {}"
  by (induction rule: fileRun.induct) auto

lemma runInv_step:
  assumes "fileRun regs z0 z hs" and "\<forall>reg\<in>regs. contentsOk reg C z0 \<and> keepsProperties reg z0" and "poolsOk C z0"
  shows "runInv regs C z0 z hs"
  using assms
proof (induction rule: fileRun.induct)
  case start
  then show ?case by (simp add: runInv_def)
next
  case (opened z hs reg i fr z')
  then have inv: "runInv regs C z0 z hs" by simp
  have ne: "hasContent (z_File z ! i)" using opened.hyps(4) by (auto simp: fileOpen_def Let_def split: if_splits)
  from inv fileOpen_ok [of C z reg i] opened.hyps(2,3,4) ne
  have o: "poolsOk C z'" "sameArchive z z'" "handleOk C z' fr" "rd_f fr = i" "rd_n fr = fileSize (z_File z ! i)"
      "z_si z' = z_si z"
    by (auto simp: runInv_def)
  then have "delivered C z' (fr, [])" by (simp add: delivered_def sameArchive_def)
  moreover have "\<forall>h\<in>set hs. delivered C z' h" using inv delivered_same [OF o(2)] by (simp add: runInv_def)
  moreover have "sameArchive z0 z'" "\<forall>reg\<in>regs. contentsOk reg C z' \<and> keepsProperties reg z'"
    using inv sameArchive_trans [OF _ o(2)] contentsOk_same [OF o(2,6)] keepsProperties_same [OF o(2,6)]
    by (simp_all add: runInv_def)
  ultimately show ?case using o(1) by (simp add: runInv_def)
next
  case (reading z hs h g m bs err fr)
  then have inv: "runInv regs C z0 z hs" by simp
  obtain fr0 bs0 where h: "hs ! h = (fr0, bs0)" by (cases "hs ! h")
  then have d: "delivered C z (fr0, bs0)" using inv reading.hyps(2) by (metis nth_mem runInv_def)
  have "delivered C z (fr, bs0 @ bs)"
  proof (cases "m = 0 \<or> rd_rc fr0 = None")
    case True
    then have "bs = [] \<and> fr = fr0" using reading.hyps(3) h by (auto simp: fileReaderRead_def Let_def split: if_splits)
    with d show ?thesis by simp
  next
    case False
    then obtain rc where rc: "rd_rc fr0 = Some rc" "0 < m" by auto
    obtain reg where "reg \<in> regs" using fileRun_regs [OF reading.hyps(1)] reading.hyps(2) by fastforce
    then have "contentsOk reg C z" using inv by (simp add: runInv_def)
    from delivered_read [OF d contentsOk_within [OF this] rc(2,1), of g] reading.hyps(3) h show ?thesis by auto
  qed
  moreover have "set (hs[h := (fr, bs0 @ bs)]) \<subseteq> insert (fr, bs0 @ bs) (set hs)" by (rule set_update_subset_insert)
  ultimately show ?case using inv h by (auto simp: runInv_def)
next
  case (closing z hs h err fr z' closed)
  then have inv: "runInv regs C z0 z hs" by simp
  obtain fr0 bs0 where h: "hs ! h = (fr0, bs0)" by (cases "hs ! h")
  then have d: "delivered C z (fr0, bs0)" using inv closing.hyps(2) by (metis nth_mem runInv_def)
  obtain reg where "reg \<in> regs" using fileRun_regs [OF closing.hyps(1)] closing.hyps(2) by fastforce
  then have "contentsOk reg C z" using inv by (simp add: runInv_def)
  with d have c: "fr = fr0\<lparr>rd_rc := None\<rparr>" "poolsOk C z'" "sameArchive z z'" "handleOk C z' fr" "z_si z' = z_si z"
    using fileClose_ok [of C z fr0 reg err fr z' closed] closing.hyps(3) inv h by (auto simp: delivered_def runInv_def)
  have "delivered C z' (fr0, bs0)" using delivered_same [OF c(3) d] .
  then have "delivered C z' (fr, bs0)" using c(1,4) by (simp add: delivered_def)
  moreover have "set (hs[h := (fr, bs0)]) \<subseteq> insert (fr, bs0) (set hs)" by (rule set_update_subset_insert)
  moreover have "\<forall>h\<in>set hs. delivered C z' h" using inv delivered_same [OF c(3)] by (simp add: runInv_def)
  moreover have "sameArchive z0 z'" "\<forall>reg\<in>regs. contentsOk reg C z' \<and> keepsProperties reg z'"
    using inv sameArchive_trans [OF _ c(3)] contentsOk_same [OF c(3,5)] keepsProperties_same [OF c(3,5)]
    by (simp_all add: runInv_def)
  ultimately show ?case using c(2) h by (auto simp: runInv_def)
next
  case (release z hs)
  then have "runInv regs C z0 z hs" by simp
  with ReleasePool_ok [of C z] delivered_same [of z "ReleasePool z"] contentsOk_same [of z "ReleasePool z"]
    keepsProperties_same [of z "ReleasePool z"] sameArchive_trans [of z0 z "ReleasePool z"]
  show ?case by (simp add: runInv_def)
qed

lemma fresh_pools:
  assumes "\<forall>p\<in>set (z_pool z). p = NoopPool \<or> (\<exists>n. p = Lru (newPool n))"
  shows "poolsOk C z"
  unfolding poolsOk_def
proof (intro allI impI)
  fix k assume "k < length (z_pool z)"
  then have "z_pool z ! k \<in> set (z_pool z)" by simp
  with assms show "lruSound (z_pool z ! k) \<and> (\<forall>e\<in>#lruStored (z_pool z ! k). readerAt (C k) (fst e) (snd e))"
    by (auto simp: newPool_def keysDistinct_def)
qed

text \<open>
  C4: Every reader of a file delivers that file, whatever else happens: in an archive whose folders
  decode to their contents, and whose coders keep their properties when a folder reader is made,
  after any interleaving of opening, reading, closing and releasing,
  what a reader has delivered is a prefix of its file, the next read of it returns bytes that
  follow, and the end is reported exactly after the last one; opening a file and closing a
  reader never fail. Readers taken from the pool do not change that, nor does a state of the
  decoders such as the key cache, as long as the two conditions hold in each of its states.
  The condition on the properties is met by folders that are not encrypted, and by encrypted
  ones when the key is in the cache or the password does not fit into the array behind the salt. For
  a short password that is not in the cache it is not met (theory \<open>Aes_RoundTrip\<close>): after the
  first reader of such a folder the archive has lost the initialisation vector, and nothing is
  said about the next reader.
\<close>

theorem files_read_their_content:
  assumes "\<forall>reg\<in>regs. contentsOk reg C z0 \<and> keepsProperties reg z0"
    and "\<forall>p\<in>set (z_pool z0). p = NoopPool \<or> (\<exists>n. p = Lru (newPool n))"
    and "fileRun regs z0 z hs"
  shows "(\<forall>(fr, bs)\<in>set hs. let s = sliceOf C z0 (rd_f fr) in
      bs = take (length bs) s
      \<and> (\<forall>g m. rd_rc fr \<noteq> None \<and> 0 < m \<longrightarrow>
           (\<exists>q fr'. fileReaderRead g fr m = (take q (drop (length bs) s), if length bs = length s then Some EOF else None, fr')
              \<and> q \<le> m \<and> (length bs < length s \<longrightarrow> 0 < q)))
      \<and> fst (fileReaderClose z fr) = None)
    \<and> (\<forall>reg\<in>regs. \<forall>i<length (z_File z0). hasContent (z_File z0 ! i) \<longrightarrow>
         (\<exists>fr z'. fileOpen reg z i = (Inr (FileReader fr), z')))"
proof -
  from runInv_step [OF assms(3,1) fresh_pools [OF assms(2)]] have inv: "runInv regs C z0 z hs" .
  then have ok: "\<And>reg. reg \<in> regs \<Longrightarrow> contentsOk reg C z" "poolsOk C z" and same: "sameArchive z0 z"
    by (simp_all add: runInv_def)
  have slice: "sliceOf C z0 = sliceOf C z" using same by (simp add: sliceOf_def fun_eq_iff sameArchive_def)
  have "let s = sliceOf C z0 (rd_f fr) in
      bs = take (length bs) s
      \<and> (\<forall>g m. rd_rc fr \<noteq> None \<and> 0 < m \<longrightarrow>
           (\<exists>q fr'. fileReaderRead g fr m = (take q (drop (length bs) s), if length bs = length s then Some EOF else None, fr')
              \<and> q \<le> m \<and> (length bs < length s \<longrightarrow> 0 < q)))
      \<and> fst (fileReaderClose z fr) = None" if h: "(fr, bs) \<in> set hs" for fr bs
  proof -
    have "hs \<noteq> []" using h by auto
    then obtain reg where "reg \<in> regs" using fileRun_regs [OF assms(3)] by auto
    note okr = ok(1) [OF this]
    have d: "delivered C z (fr, bs)" using inv h by (auto simp: runInv_def)
    then have "bs = take (length bs) (sliceOf C z (rd_f fr))" by (simp add: delivered_def min_def take_all_iff)
    moreover have "\<exists>q fr'. fileReaderRead g fr m = (take q (drop (length bs) (sliceOf C z (rd_f fr))),
          if length bs = length (sliceOf C z (rd_f fr)) then Some EOF else None, fr')
        \<and> q \<le> m \<and> (length bs < length (sliceOf C z (rd_f fr)) \<longrightarrow> 0 < q)" if "rd_rc fr \<noteq> None" "0 < m" for g m
      using delivered_read [OF d contentsOk_within [OF okr] that(2), of _ g] that(1) by blast
    moreover have "fst (fileReaderClose z fr) = None"
    proof -
      obtain e fr' z' c where c: "fileReaderClose z fr = (e, fr', z', c)" by (cases "fileReaderClose z fr")
      from fileClose_ok [OF _ ok(2) okr c] d show ?thesis by (simp add: delivered_def c)
    qed
    ultimately show ?thesis unfolding slice Let_def by blast
  qed
  moreover have "\<exists>fr z'. fileOpen reg z i = (Inr (FileReader fr), z')"
    if "reg \<in> regs" "i < length (z_File z0)" "hasContent (z_File z0 ! i)" for reg i
    using fileOpen_ok [OF ok(2) ok(1) [OF that(1)], of i] that(2,3) same unfolding sameArchive_def by metis
  ultimately show ?thesis by blast
qed

text \<open>An archive of two files of one byte each in the folder \<open>copyFolder\<close>, and an empty file.\<close>

definition twoFilesArchive :: archive where
  "twoFilesArchive =
     \<lparr>z_src = [9, 1, 2, 3, 9], z_si = Some copyStreams, z_p = [],
      z_File =
        [\<lparr>f_FileHeader = zeroFileHeader\<lparr>fh_Name := [0x61], fh_UncompressedSize := 1\<rparr>, f_folder = 0, f_offset = 0\<rparr>,
         \<lparr>f_FileHeader = zeroFileHeader\<lparr>fh_Name := [0x62], fh_UncompressedSize := 1\<rparr>, f_folder = 0, f_offset = 1\<rparr>,
         \<lparr>f_FileHeader = zeroFileHeader\<lparr>fh_Name := [0x63], fh_isEmptyStream := True, fh_isEmptyFile := True\<rparr>,
          f_folder = 0, f_offset = 0\<rparr>],
      z_pool = [Lru (newPool 2)]\<rparr>"

lemma twoFiles_contents: "contentsOk (registerAll noDecoders) (\<lambda>k. [1, 2]) twoFilesArchive"
proof -
  have "fst (archiveFolderReader (registerAll noDecoders) twoFilesArchive 0)
      = Inr (newFolderReadCloser ([1, 2], EOF) 2 False, 7)" by code_simp
  moreover have "length (z_pool twoFilesArchive) = 1"
    "\<forall>f\<in>set (z_File twoFilesArchive). f_folder f = 0 \<and> (hasContent f \<longrightarrow> fileWithin [1, 2] f)"
    by (simp_all add: twoFilesArchive_def zeroFileHeader_def fileWithin_def)
  ultimately show ?thesis by (auto simp: contentsOk_def folderContent_def)
qed

lemma twoFiles_names: "map (\<lambda>f. fh_Name (f_FileHeader f)) (z_File twoFilesArchive) = [[0x61], [0x62], [0x63]]"
  by (simp add: twoFilesArchive_def)

lemma registerAll_cases:
  assumes "registerAll impl i = Some dcomp"
  shows "dcomp = newCopyReader \<or> (\<exists>d. dcomp = impl d)"
  using assms by (auto simp: registerAll_def RegisterDecompressor_def split: if_splits)

lemma noDecoders_keep: "keepsProperties (registerAll noDecoders) z"
proof (rule folder_keeps_plain)
  fix i dcomp p n readers s
  assume "registerAll noDecoders i = Some dcomp" and "dcomp p n readers = Inr s"
  with registerAll_cases [of noDecoders i dcomp] show "\<exists>t. s = PlainStream t"
    by (auto simp: noDecoders_def newCopyReader_def split: list.splits)
qed

text \<open>A reader of the second file, which is one byte long.\<close>

theorem files_read_their_content_witness:
  "\<exists>fr z' fr'. fileOpen (registerAll noDecoders) twoFilesArchive 1 = (Inr (FileReader fr), z')
     \<and> fileReaderRead 0 fr 5 = ([2], None, fr')"
proof -
  let ?reg = "registerAll noDecoders" and ?C = "\<lambda>k. [1, 2] :: byte list"
  have ok: "\<forall>reg\<in>{?reg}. contentsOk reg ?C twoFilesArchive \<and> keepsProperties reg twoFilesArchive"
    using twoFiles_contents noDecoders_keep by simp
  have pools: "\<forall>p\<in>set (z_pool twoFilesArchive). p = NoopPool \<or> (\<exists>n. p = Lru (newPool n))"
    by (auto simp: twoFilesArchive_def)
  have second: "1 < length (z_File twoFilesArchive)" "hasContent (z_File twoFilesArchive ! 1)"
    by (simp_all add: twoFilesArchive_def zeroFileHeader_def)
  have "poolsOk ?C twoFilesArchive" by (simp add: poolsOk_def twoFilesArchive_def newPool_def keysDistinct_def)
  from fileOpen_ok [OF this twoFiles_contents, of 1] obtain fr z' where
    o: "fileOpen ?reg twoFilesArchive 1 = (Inr (FileReader fr), z')" "rd_f fr = 1" "rd_rc fr \<noteq> None"
    using second by blast
  have "fileRun {?reg} twoFilesArchive z' [(fr, [])]"
    using fileRun.opened [OF fileRun.start _ second(1) o(1), of "{?reg}"] by simp
  from files_read_their_content [OF ok pools this, THEN conjunct1] o(2)
  have "\<forall>g m. rd_rc fr \<noteq> None \<and> 0 < m \<longrightarrow>
      (\<exists>q fr'. fileReaderRead g fr m = (take q (drop 0 (sliceOf ?C twoFilesArchive 1)),
          if 0 = length (sliceOf ?C twoFilesArchive 1) then Some EOF else None, fr')
        \<and> q \<le> m \<and> (0 < length (sliceOf ?C twoFilesArchive 1) \<longrightarrow> 0 < q))"
    by (simp only: list.set ball_simps prod.case Let_def list.size) blast
  from this [rule_format, of 5 0] o(3) obtain q fr' where
    q: "fileReaderRead 0 fr 5 = (take q (sliceOf ?C twoFilesArchive 1),
        if 0 = length (sliceOf ?C twoFilesArchive 1) then Some EOF else None, fr')"
      "0 < length (sliceOf ?C twoFilesArchive 1) \<longrightarrow> 0 < q" by auto
  have "sliceOf ?C twoFilesArchive 1 = [2]" by code_simp
  with q have "fileReaderRead 0 fr 5 = ([2], None, fr')" by (cases q) simp_all
  with o(1) show ?thesis by blast
qed

section \<open>Opening by name\<close>

lemma fileOpen_empty: "\<not> hasContent (z_File z ! i) \<Longrightarrow> fileOpen reg z i = (Inr NopReader, z)"
  by (auto simp: fileOpen_def Let_def)



end
