(* ===== verification/Archive_Open.thy ===== *)
theory Archive_Open
  imports File_Reader Files_Read Writer_Close
begin

unbundle bit_operations_syntax

text \<open>
  Opening an archive: the search for the signature, and \<open>Reader.init\<close>, which checks the start
  header, reads the header, plain or encoded, and lays the files out over the folders
  (\<open>reader.go\<close>). The source is its bytes; \<open>ReadAt\<close> reports the end when it returns less than asked.
  The decoder of an encoded header fills every buffer it is given, and an error of it shows as the
  end of the header.
\<close>

section \<open>The signature\<close>

definition bytesIndex :: "byte list \<Rightarrow> byte list \<Rightarrow> nat option" where
  "bytesIndex s pat = find (\<lambda>i. take (length pat) (drop i s) = pat) [0..<Suc (length s)]"

definition chunkSize :: nat where
  "chunkSize = 4096"

definition searchLimit :: nat where
  "searchLimit = 1048576"

lemma bytesIndex_Some: "bytesIndex s pat = Some i \<Longrightarrow> i \<le> length s \<and> take (length pat) (drop i s) = pat"
  by (auto simp: bytesIndex_def find_Some_iff simp del: upt_Suc)

text \<open>
  The inner loop: the offsets so far and whether to return at once, which is the case when the
  first of them is zero. Slicing behind the end of the chunk is a panic.
\<close>

function chunkLoop :: "nat \<Rightarrow> byte list \<Rightarrow> byte list \<Rightarrow> nat \<Rightarrow> nat list \<Rightarrow> (bool \<times> nat list) result" where
  "chunkLoop offset chunk search i offsets =
     (if length chunk < i then Inl Panic
      else
        case bytesIndex (drop i chunk) search of
          None \<Rightarrow> Inr (False, offsets)
        | Some k \<Rightarrow>
            let offsets = offsets @ [offset + i + k] in
            if hd offsets = 0 then Inr (True, offsets)
            else chunkLoop offset chunk search (i + k + 1) offsets)"
  by pat_completeness auto
termination
  by (relation "measure (\<lambda>(offset, chunk, search, i, offsets). Suc (length chunk) - i)") auto

declare chunkLoop.simps [simp del]

function signatureLoop :: "byte list \<Rightarrow> byte list \<Rightarrow> nat \<Rightarrow> nat list \<Rightarrow> nat list result" where
  "signatureLoop r search offset offsets =
     (if offset < searchLimit then
        let chunk = take (chunkSize + length search) (drop offset r) in
        rbind (chunkLoop offset chunk search 0 offsets) (\<lambda>(found, offsets).
        if found then Inr offsets
        else if length chunk < chunkSize + length search then Inr offsets
        else signatureLoop r search (offset + chunkSize) offsets)
      else Inr offsets)"
  by pat_completeness auto
termination
  by (relation "measure (\<lambda>(r, search, offset, offsets). searchLimit - offset)")
    (auto simp: chunkSize_def)

declare signatureLoop.simps [simp del]

definition findSignature :: "byte list \<Rightarrow> byte list \<Rightarrow> nat list result" where
  "findSignature r search = signatureLoop r search 0 []"

section \<open>The start header\<close>

text \<open>\<open>binary.Read\<close> of a structure of \<open>n\<close> bytes.\<close>

definition binaryRead :: "nat \<Rightarrow> byte list \<Rightarrow> (byte list \<times> byte list) result" where
  "binaryRead n s =
     (if n \<le> length s then Inr (take n s, drop n s) else if s = [] then Inl EOF else Inl UnexpectedEOF)"

definition readStartHeader :: "byte list \<Rightarrow> startHeader" where
  "readStartHeader bs =
     \<lparr>sh_Offset = le64 (take 8 bs), sh_Size = le64 (take 8 (drop 8 bs)), sh_CRC = le32 (take 4 (drop 16 bs))\<rparr>"

text \<open>The loop over the candidates: the first whose start header has the right checksum.\<close>

fun candidates :: "byte list \<Rightarrow> int \<Rightarrow> nat list \<Rightarrow> (nat \<times> startHeader) result" where
  "candidates r sz [] = Inl ErrChecksum"
| "candidates r sz (off # offs) =
     rbind (binaryRead 12 (sectionBytes r (int off) (sz - int off))) (\<lambda>(sh, s).
     rbind (binaryRead 20 s) (\<lambda>(start, s).
     if CRC32Equal (sumBytes (checksumIEEE start)) (le32 (take 4 (drop 8 sh)))
     then Inr (off, readStartHeader start)
     else candidates r sz offs))"

section \<open>The files\<close>

text \<open>A directory's name ends with a slash.\<close>

definition dirName :: "fileHeader \<Rightarrow> fileHeader" where
  "dirName fh =
     (if modeIsDir (Mode fh) \<and> \<not> (fh_Name fh \<noteq> [] \<and> last (fh_Name fh) = slash)
      then fh\<lparr>fh_Name := fh_Name fh @ [slash]\<rparr> else fh)"

fun initFiles :: "streamsInfo option \<Rightarrow> nat \<Rightarrow> int \<Rightarrow> nat \<Rightarrow> fileHeader list \<Rightarrow> sz_file list result" where
  "initFiles si folder offset j [] = Inr []"
| "initFiles si folder offset j (fh # fhs) =
     (if \<not> fh_isEmptyStream fh \<and> \<not> fh_isEmptyFile fh then
        rbind (deref si) (\<lambda>s.
        rbind (FileFolderAndSize s j) (\<lambda>(fo, _, _).
        let offset = (if fo \<noteq> folder then 0 else offset) in
        rbind (initFiles si fo (int64 (offset + sint (fh_UncompressedSize fh))) (Suc j) fhs) (\<lambda>fs.
        Inr (\<lparr>f_FileHeader = (dirName fh)\<lparr>fh_Stream := fo\<rparr>, f_folder = fo, f_offset = offset\<rparr> # fs))))
      else
        rbind (initFiles si folder offset j fhs) (\<lambda>fs.
        Inr (\<lparr>f_FileHeader = dirName fh, f_folder = 0, f_offset = 0\<rparr> # fs)))"

definition filesPerStream :: "sz_file list \<Rightarrow> nat \<Rightarrow> nat" where
  "filesPerStream fs k = length (filter (\<lambda>f. hasContent f \<and> f_folder f = k) fs)"

definition initPools :: "nat \<Rightarrow> streamsInfo option \<Rightarrow> sz_file list \<Rightarrow> folderReadCloser pooler list" where
  "initPools numCPU si fs =
     map (\<lambda>i. if 1 < filesPerStream fs i then Lru (newPool numCPU) else NoopPool) [0..<Folders si]"

section \<open>Init\<close>

record reader_env =
  re_registry :: registry
  re_ext :: externals
  re_numCPU :: nat

text \<open>
  The header of an encoded header's streams, with the check of its digest. The tables of the encoded
  header are not used again, so what happens to their properties does not matter.
\<close>

definition decodeHeader :: "reader_env \<Rightarrow> byte list \<Rightarrow> streamsInfo \<Rightarrow> gostring \<Rightarrow> header result" where
  "decodeHeader en src si password =
     (if Folders (Some si) \<noteq> 1 then Inl ErrOneHeaderStream
      else
        case fst (folderReader (re_registry en) src si 0 password) of
          Inl (e, enc) \<Rightarrow> Inl (readError enc e)
        | Inr (fr, crc) \<Rightarrow>
            let bs = fst (fc_rest fr) in
            case readEncodedHeader (re_ext en) (newBytesReader bs) of
              Inl e \<Rightarrow> Inl (readError (fc_hasEncryption fr) e)
            | Inr (h, r) \<Rightarrow>
                let fr = advance fr (length bs - length (content r)) in
                if crc \<noteq> 0 \<and> \<not> CRC32Equal (sumBytes (Checksum fr)) crc then Inl ErrChecksum
                else Inr h)"

definition readMetadata ::
    "reader_env \<Rightarrow> byte list \<Rightarrow> reader \<Rightarrow> ((header + streamsInfo) \<times> reader) result" where
  "readMetadata en src br =
     pbind readByte (\<lambda>id.
       if id = idHeader then pbind (readHeader (re_ext en)) (\<lambda>h. preturn (Inl h))
       else if id = idEncodedHeader then pbind readStreamsInfo (\<lambda>si. preturn (Inr si))
       else pfail ErrUnexpectedID) br"

definition readerInit :: "reader_env \<Rightarrow> byte list \<Rightarrow> int \<Rightarrow> gostring \<Rightarrow> archive result" where
  "readerInit en r sz password =
     rbind (findSignature r signature) (\<lambda>offsets.
     if offsets = [] then Inl ErrFormat
     else
     rbind (candidates r sz offsets) (\<lambda>(off, start).
     let streams = 32 + int off;
         metadataAt = int64 (sint (sh_Offset start) + streams)
     in
     if metadataAt < int off then Inl ErrOffset
     else
       let src = sectionBytes r streams (metadataAt - streams);
           metadata = sectionBytes r metadataAt (sint (sh_Size start))
       in
       rbind (readMetadata en src (newBufReader metadata)) (\<lambda>(md, br).
       if content br \<noteq> [] then Inl ErrTooMuch
       else if \<not> CRC32Equal (sumBytes (checksumIEEE metadata)) (sh_CRC start) then Inl ErrChecksum
       else
         rbind (case md of Inl h \<Rightarrow> Inr h | Inr si \<Rightarrow> decodeHeader en src si password) (\<lambda>h.
         rbind (case hd_filesInfo h of
                  None \<Rightarrow> Inr []
                | Some fi \<Rightarrow> initFiles (hd_streamsInfo h) 0 0 0 (fi_file fi)) (\<lambda>fs.
         Inr \<lparr>z_src = src, z_si = hd_streamsInfo h, z_p = password, z_File = fs,
              z_pool = initPools (re_numCPU en) (hd_streamsInfo h) fs\<rparr>)))))"

definition NewReaderWithPassword :: "reader_env \<Rightarrow> byte list \<Rightarrow> int \<Rightarrow> gostring \<Rightarrow> archive result" where
  "NewReaderWithPassword en r sz password =
     (if sz < 0 then Inl ErrNegativeSize else readerInit en r sz password)"

definition NewReader :: "reader_env \<Rightarrow> byte list \<Rightarrow> int \<Rightarrow> archive result" where
  "NewReader en r sz = NewReaderWithPassword en r sz []"

section \<open>The search finds all signatures\<close>

definition occurs :: "byte list \<Rightarrow> byte list \<Rightarrow> nat \<Rightarrow> bool" where
  "occurs s pat i \<longleftrightarrow> take (length pat) (drop i s) = pat"

lemma occurs_length: "occurs s pat i \<Longrightarrow> pat \<noteq> [] \<Longrightarrow> i + length pat \<le> length s"
proof -
  assume o: "occurs s pat i" and ne: "pat \<noteq> []"
  then have "length (take (length pat) (drop i s)) = length pat" by (simp add: occurs_def)
  with ne show ?thesis by (cases "i \<le> length s") auto
qed

lemma bytesIndex_None:
  assumes "bytesIndex (drop i s) pat = None" and "i \<le> length s"
  shows "filter (occurs s pat) [i..<length s] = []"
proof -
  have "\<not> occurs s pat k" if "k \<in> {i..<length s}" for k
  proof
    assume "occurs s pat k"
    then have "take (length pat) (drop (k - i) (drop i s)) = pat" using that by (simp add: occurs_def)
    moreover have "k - i \<in> set [0..<Suc (length (drop i s))]" using that by auto
    ultimately show False
      using assms(1) unfolding bytesIndex_def find_None_iff by blast
  qed
  then show ?thesis by (simp add: filter_empty_conv)
qed

lemma bytesIndex_next:
  assumes "bytesIndex (drop i s) pat = Some k" and "i \<le> length s" and "pat \<noteq> []"
  shows "filter (occurs s pat) [i..<length s] = (i + k) # filter (occurs s pat) [Suc (i + k)..<length s]"
proof -
  obtain m where m: "m < Suc (length (drop i s))" "take (length pat) (drop ([0..<Suc (length (drop i s))] ! m) (drop i s)) = pat"
    "k = [0..<Suc (length (drop i s))] ! m"
    "\<forall>j<m. take (length pat) (drop ([0..<Suc (length (drop i s))] ! j) (drop i s)) \<noteq> pat"
    using assms(1) unfolding bytesIndex_def find_Some_iff by auto
  have nth: "[0..<Suc (length (drop i s))] ! j = j" if "j \<le> m" for j using m(1) that by (simp del: upt_Suc)
  have occ: "occurs s pat (i + k)" using m(2,3) by (simp add: occurs_def add.commute del: upt_Suc)
  have before: "\<not> occurs s pat j" if "i \<le> j" "j < i + k" for j
  proof -
    have "j - i < m" using that nth [of m] m(3) by simp
    then have "take (length pat) (drop (j - i) (drop i s)) \<noteq> pat" using m(4) nth by (metis less_imp_le)
    with that(1) show ?thesis by (simp add: occurs_def)
  qed
  have "i + k < length s" using occurs_length [OF occ assms(3)] assms(3) by (cases pat) auto
  then have "[i..<length s] = [i..<i + k] @ (i + k) # [Suc (i + k)..<length s]"
    using upt_add_eq_append [of i "i + k" "length s - (i + k)"] by (simp add: upt_conv_Cons)
  moreover have "filter (occurs s pat) [i..<i + k] = []" using before by (simp add: filter_empty_conv)
  ultimately show ?thesis using occ by simp
qed

lemma chunkLoop_all:
  assumes "pat \<noteq> []" and "i \<le> length chunk" and "os = [] \<or> hd os \<noteq> 0"
    and "offset \<noteq> 0 \<or> i \<noteq> 0 \<or> \<not> occurs chunk pat 0"
  shows "chunkLoop offset chunk pat i os
    = Inr (False, os @ map (\<lambda>k. offset + k) (filter (occurs chunk pat) [i..<length chunk]))"
  using assms
proof (induction offset chunk pat i os rule: chunkLoop.induct)
  case (1 offset chunk pat i os)
  show ?case
  proof (cases "bytesIndex (drop i chunk) pat")
    case None
    with 1(3) show ?thesis by (simp add: chunkLoop.simps [of offset chunk pat i] bytesIndex_None)
  next
    case (Some k)
    note next_occ = bytesIndex_next [OF Some 1(3,2)]
    then have "i + k \<in> set (filter (occurs chunk pat) [i..<length chunk])" by simp
    then have k: "occurs chunk pat (i + k)" "i + k < length chunk" by auto
    have hd: "hd (os @ [offset + i + k]) \<noteq> 0" using 1(4,5) k(1) by (cases os; cases i) auto
    have "chunkLoop offset chunk pat i os = chunkLoop offset chunk pat (i + k + 1) (os @ [offset + i + k])"
      using 1(3) Some hd by (simp add: chunkLoop.simps [of offset chunk pat i] Let_def)
    moreover have "chunkLoop offset chunk pat (i + k + 1) (os @ [offset + i + k])
        = Inr (False, (os @ [offset + i + k]) @ map (\<lambda>k. offset + k) (filter (occurs chunk pat) [i + k + 1..<length chunk]))"
      using 1(2,3) Some hd k by (intro "1.IH") simp_all
    ultimately show ?thesis using next_occ by (simp add: add.assoc)
  qed
qed

lemma occurs_chunk:
  assumes "pat \<noteq> []" and "k < length (take (n + length pat) (drop off r))"
  shows "occurs (take (n + length pat) (drop off r)) pat k \<longleftrightarrow> k \<le> n \<and> occurs r pat (off + k)"
proof (cases "k \<le> n")
  case True
  then have "take (length pat) (drop k (take (n + length pat) (drop off r))) = take (length pat) (drop (off + k) r)"
    by (simp add: drop_take min_def add.commute)
  with True show ?thesis by (simp add: occurs_def)
next
  case False
  have "\<not> occurs (take (n + length pat) (drop off r)) pat k"
    using occurs_length [OF _ assms(1)] False by fastforce
  with False show ?thesis by simp
qed

text \<open>What one chunk adds.\<close>

lemma chunk_occurrences:
  fixes r pat off
  defines "chunk \<equiv> take (chunkSize + length pat) (drop off r)"
  assumes ne: "pat \<noteq> []"
  shows "set (map (\<lambda>k. off + k) (filter (occurs chunk pat) [0..<length chunk]))
      = {p. occurs r pat p \<and> off \<le> p \<and> p \<le> off + chunkSize}"
    and "sorted (map (\<lambda>k. off + k) (filter (occurs chunk pat) [0..<length chunk]))"
proof -
  show "set (map (\<lambda>k. off + k) (filter (occurs chunk pat) [0..<length chunk]))
      = {p. occurs r pat p \<and> off \<le> p \<and> p \<le> off + chunkSize}"
  proof (intro set_eqI iffI)
    fix p assume "p \<in> set (map (\<lambda>k. off + k) (filter (occurs chunk pat) [0..<length chunk]))"
    then obtain k where "p = off + k" "k < length chunk" "occurs chunk pat k" by auto
    then show "p \<in> {p. occurs r pat p \<and> off \<le> p \<and> p \<le> off + chunkSize}"
      using occurs_chunk [OF ne, of k chunkSize off r] by (simp add: chunk_def)
  next
    fix p assume p: "p \<in> {p. occurs r pat p \<and> off \<le> p \<and> p \<le> off + chunkSize}"
    then have l: "p + length pat \<le> length r" using occurs_length ne by blast
    define k where "k = p - off"
    have k: "p = off + k" "k \<le> chunkSize" "k < length chunk"
      using p l ne by (auto simp: k_def chunk_def) (cases pat; simp)+
    then have "occurs chunk pat k" using p occurs_chunk [OF ne, of k chunkSize off r] by (simp add: chunk_def)
    with k show "p \<in> set (map (\<lambda>k. off + k) (filter (occurs chunk pat) [0..<length chunk]))" by auto
  qed
  have "sorted (filter (occurs chunk pat) [0..<length chunk])" by (simp add: sorted_wrt_filter)
  then show "sorted (map (\<lambda>k. off + k) (filter (occurs chunk pat) [0..<length chunk]))"
    by (simp add: sorted_map)
qed

lemma signatureLoop_all:
  assumes "pat \<noteq> []" and "\<not> occurs r pat 0" and "chunkSize dvd off" and "off \<le> searchLimit"
    and "sorted os" and "set os = {p. occurs r pat p \<and> p \<le> off}"
  shows "\<exists>os'. signatureLoop r pat off os = Inr os' \<and> sorted os'
    \<and> set os' = {p. occurs r pat p \<and> p \<le> searchLimit}"
  using assms
proof (induction "searchLimit - off" arbitrary: off os rule: less_induct)
  case less
  show ?case
  proof (cases "off < searchLimit")
    case False
    then have "off = searchLimit" using less.prems(4) by simp
    with less.prems show ?thesis by (simp add: signatureLoop.simps [of r pat searchLimit])
  next
    case True
    define chunk where "chunk = take (chunkSize + length pat) (drop off r)"
    define new where "new = map (\<lambda>k. off + k) (filter (occurs chunk pat) [0..<length chunk])"
    have off: "off + chunkSize \<le> searchLimit"
    proof -
      obtain q where "off = chunkSize * q" using less.prems(3) by blast
      with True show ?thesis by (simp add: chunkSize_def searchLimit_def)
    qed
    have os: "os = [] \<or> hd os \<noteq> 0"
    proof (cases os)
      case (Cons a as)
      then have "a \<in> {p. occurs r pat p \<and> p \<le> off}" unfolding less.prems(6) [symmetric] by simp
      then have "a \<noteq> 0" using less.prems(2) by (metis (mono_tags) mem_Collect_eq)
      with Cons show ?thesis by simp
    qed simp
    have zero: "off \<noteq> 0 \<or> 0 \<noteq> (0::nat) \<or> \<not> occurs chunk pat 0"
    proof (cases "off = 0")
      case True
      then have "\<not> occurs chunk pat 0" using less.prems(2) by (simp add: occurs_def chunk_def min_def)
      then show ?thesis by simp
    qed simp
    have c: "chunkLoop off chunk pat 0 os = Inr (False, os @ new)"
      using chunkLoop_all [OF less.prems(1) _ os zero] by (simp add: new_def)
    have new: "set new = {p. occurs r pat p \<and> off \<le> p \<and> p \<le> off + chunkSize}" "sorted new"
      using chunk_occurrences [OF less.prems(1), of off r] by (simp_all add: new_def chunk_def)
    have srt: "sorted (os @ new)" using less.prems(5,6) new by (auto simp: sorted_append)
    have all: "set (os @ new) = {p. occurs r pat p \<and> p \<le> off + chunkSize}" using less.prems(6) new(1) by auto
    show ?thesis
    proof (cases "length chunk < chunkSize + length pat")
      case True
      have "p \<le> off + chunkSize" if "occurs r pat p" for p
        using occurs_length [OF that less.prems(1)] True by (auto simp: chunk_def min_def split: if_splits)
      then have "set (os @ new) = {p. occurs r pat p \<and> p \<le> searchLimit}" using all off by force
      with srt True c \<open>off < searchLimit\<close> show ?thesis
        by (simp add: signatureLoop.simps [of r pat off] chunk_def [symmetric] Let_def)
    next
      case False
      have "signatureLoop r pat off os = signatureLoop r pat (off + chunkSize) (os @ new)"
        using False c \<open>off < searchLimit\<close>
        by (subst signatureLoop.simps) (simp add: chunk_def [symmetric] Let_def)
      moreover have "\<exists>os'. signatureLoop r pat (off + chunkSize) (os @ new) = Inr os' \<and> sorted os'
          \<and> set os' = {p. occurs r pat p \<and> p \<le> searchLimit}"
        using less.prems(1-3) off srt all \<open>off < searchLimit\<close>
        by (intro less.hyps) (simp_all add: chunkSize_def)
      ultimately show ?thesis by simp
    qed
  qed
qed

lemma findSignature_first:
  assumes "occurs r pat 0" and "pat \<noteq> []"
  shows "findSignature r pat = Inr [0]"
proof -
  define chunk where "chunk = take (chunkSize + length pat) r"
  have "occurs chunk pat 0" using assms(1) by (simp add: occurs_def chunk_def min_def)
  then have "bytesIndex chunk pat = Some 0"
    by (simp add: bytesIndex_def occurs_def upt_rec)
  then have "chunkLoop 0 chunk pat 0 [] = Inr (True, [0])" by (simp add: chunkLoop.simps [of 0 chunk pat 0])
  then show ?thesis
    by (simp add: findSignature_def signatureLoop.simps [of r pat 0] chunk_def [symmetric] searchLimit_def)
qed

text \<open>
  C34: The search for the signature always ends: an archive that begins with the signature has that
  one candidate; otherwise the candidates are, in order, exactly the places within the first
  megabyte where the signature occurs, across the borders of the chunks as well.
\<close>

theorem signatures_are_found:
  assumes "pat \<noteq> []"
  shows "if occurs r pat 0 then findSignature r pat = Inr [0]
    else \<exists>os. findSignature r pat = Inr os \<and> sorted os \<and> set os = {p. occurs r pat p \<and> p \<le> searchLimit}"
proof (cases "occurs r pat 0")
  case True
  then show ?thesis using findSignature_first assms by simp
next
  case False
  then have "set [] = {p. occurs r pat p \<and> p \<le> 0}" by auto
  with signatureLoop_all [OF assms False, of 0 "[]"] False show ?thesis by (simp add: findSignature_def)
qed

theorem signatures_are_found_witness:
  "\<exists>os. findSignature (1 # signature) signature = Inr os \<and> set os = {p. occurs (1 # signature) signature p \<and> p \<le> searchLimit}"
proof -
  have "signature \<noteq> []" "\<not> occurs (1 # signature) signature 0" by (simp_all add: signature_def occurs_def)
  with signatures_are_found [of signature "1 # signature"] show ?thesis by auto
qed

end
