(* ===== verification/Archive_Layout.thy ===== *)
theory Archive_Layout
  imports Archive_Open Streams_Lookup
begin

text \<open>
  The files of an opened archive: \<open>Reader.init\<close> gives each file with content its folder and its
  offset there, which is the size of the files before it in that folder, so that the files of a
  folder lie one after the other.
\<close>

section \<open>Folders in order\<close>

abbreviation hasStream :: "fileHeader \<Rightarrow> bool" where
  "hasStream fh \<equiv> \<not> fh_isEmptyStream fh \<and> \<not> fh_isEmptyFile fh"

text \<open>The folder of the \<open>k\<close>-th file with content.\<close>

definition folderAt :: "streamsInfo \<Rightarrow> nat \<Rightarrow> nat" where
  "folderAt s k = fst (fileEntry s k)"

lemma sorted_folderOfFiles: "sorted (folderOfFiles i ns)"
proof (induction i ns rule: folderOfFiles.induct)
  case (2 i n ns)
  have "\<forall>j\<in>set (folderOfFiles (Suc i) ns). Suc i \<le> j"
    using folderOfFiles_bounds [of _ ns "Suc i"] by (auto simp: in_set_conv_nth)
  with 2 show ?case by (auto simp: sorted_append)
qed simp

lemma folderAt_eq:
  "okLookup s \<Longrightarrow> \<exists>ss. si_subStreamsInfo s = Some ss \<and> folderAt s k = folderOfFiles 0 (map unat (ss_streams ss)) ! k"
  by (auto simp: okLookup_def folderAt_def fileEntry_def Let_def split: option.splits)

lemma folderAt_mono:
  assumes "okLookup s" and "j \<le> k" and "k < fileCount s"
  shows "folderAt s j \<le> folderAt s k"
proof -
  obtain ss where ss: "si_subStreamsInfo s = Some ss"
    using assms(1) by (auto simp: okLookup_def split: option.splits)
  have "folderAt s m = folderOfFiles 0 (map unat (ss_streams ss)) ! m" for m
    using folderAt_eq [OF assms(1), of m] ss by auto
  then show ?thesis
    using sorted_nth_mono [OF sorted_folderOfFiles assms(2)] assms(3) by (simp add: fileCount_def ss)
qed

section \<open>Layout\<close>

text \<open>What the files of \<open>fhs\<close>, the first with content being number \<open>j\<close>, take up in folder \<open>fo\<close>.\<close>

fun sizesIn :: "streamsInfo \<Rightarrow> nat \<Rightarrow> nat \<Rightarrow> fileHeader list \<Rightarrow> nat" where
  "sizesIn s fo j [] = 0"
| "sizesIn s fo j (fh # fhs) =
     (if hasStream fh
      then (if folderAt s j = fo then unat (fh_UncompressedSize fh) else 0) + sizesIn s fo (Suc j) fhs
      else sizesIn s fo j fhs)"

definition streamsOf :: "fileHeader list \<Rightarrow> nat" where
  "streamsOf fhs = length (filter (\<lambda>fh. hasStream fh) fhs)"

lemma streamsOf_append: "streamsOf (xs @ ys) = streamsOf xs + streamsOf ys"
  by (simp add: streamsOf_def)

text \<open>The file that \<open>init\<close> makes of a header, after \<open>k\<close> files with content and \<open>off\<close> bytes.\<close>

definition placed :: "streamsInfo \<Rightarrow> nat \<Rightarrow> nat \<Rightarrow> fileHeader \<Rightarrow> sz_file" where
  "placed s k off fh =
     (if hasStream fh
      then \<lparr>f_FileHeader = (dirName fh)\<lparr>fh_Stream := folderAt s k\<rparr>, f_folder = folderAt s k, f_offset = int off\<rparr>
      else \<lparr>f_FileHeader = dirName fh, f_folder = 0, f_offset = 0\<rparr>)"

definition totalSize :: "fileHeader list \<Rightarrow> nat" where
  "totalSize fhs = sum_list (map (\<lambda>fh. unat (fh_UncompressedSize fh)) (filter (\<lambda>fh. hasStream fh) fhs))"

lemma sizesIn_total: "sizesIn s fo j fhs \<le> totalSize fhs"
  by (induction s fo j fhs rule: sizesIn.induct) (auto simp: totalSize_def)

lemma initFiles_layout:
  assumes ok: "okLookup s" and "j + streamsOf fhs \<le> fileCount s" and "off + totalSize fhs < 2 ^ 63"
    and "\<forall>k. j \<le> k \<and> k < fileCount s \<longrightarrow> folder \<le> folderAt s k"
  shows "\<exists>fs. initFiles (Some s) folder (int off) j fhs = Inr fs \<and> length fs = length fhs
    \<and> (\<forall>i<length fhs. let k = j + streamsOf (take i fhs); fo = folderAt s k in
         fs ! i = placed s k ((if fo = folder then off else 0) + sizesIn s fo j (take i fhs)) (fhs ! i))"
  using assms(2-)
proof (induction fhs arbitrary: folder off j)
  case Nil
  then show ?case by simp
next
  case (Cons fh fhs)
  show ?case
  proof (cases "hasStream fh")
    case False
    then have "j + streamsOf fhs \<le> fileCount s" "off + totalSize fhs < 2 ^ 63"
      using Cons.prems(1,2) by (auto simp: streamsOf_def totalSize_def)
    from Cons.IH [OF this Cons.prems(3)] obtain fs where fs: "initFiles (Some s) folder (int off) j fhs = Inr fs"
      "length fs = length fhs" "\<forall>i<length fhs. let k = j + streamsOf (take i fhs); fo = folderAt s k in
         fs ! i = placed s k ((if fo = folder then off else 0) + sizesIn s fo j (take i fhs)) (fhs ! i)" by blast
    let ?f = "\<lparr>f_FileHeader = dirName fh, f_folder = 0, f_offset = 0\<rparr>"
    have "(?f # fs) ! i = placed s k ((if fo = folder then off else 0) + sizesIn s fo j (take i (fh # fhs))) ((fh # fhs) ! i)"
      if i: "i < length (fh # fhs)" and k: "k = j + streamsOf (take i (fh # fhs))" and fo: "fo = folderAt s k" for i k fo
    proof (cases i)
      case 0
      with False show ?thesis by (auto simp: placed_def)
    next
      case (Suc m)
      have "streamsOf (take i (fh # fhs)) = streamsOf (take m fhs)" using False Suc by (auto simp: streamsOf_def)
      with fs(3) i k fo Suc False show ?thesis by (auto simp: Let_def)
    qed
    moreover have "initFiles (Some s) folder (int off) j (fh # fhs) = Inr (?f # fs)" using False fs(1) by auto
    ultimately show ?thesis using fs(2) by (intro exI [of _ "?f # fs"]) (simp add: Let_def)
  next
    case True
    define fo where "fo = folderAt s j"
    define off1 where "off1 = (if fo = folder then off else 0)"
    define sz where "sz = unat (fh_UncompressedSize fh)"
    have cnt: "Suc j + streamsOf fhs \<le> fileCount s" and tot: "off + sz + totalSize fhs < 2 ^ 63"
      using Cons.prems(1,2) True by (simp_all add: streamsOf_def totalSize_def sz_def)
    have j: "j < fileCount s" using cnt by simp
    have entry: "FileFolderAndSize s j = Inr (fileEntry s j)" using ok j by (rule FileFolderAndSize_entry)
    have sint: "sint (fh_UncompressedSize fh) = int sz" unfolding sz_def using tot by (intro sint_small) (simp add: sz_def)
    have small: "off1 + sz + totalSize fhs < 2 ^ 63" using tot by (simp add: off1_def)
    have next_off: "int64 (int off1 + sint (fh_UncompressedSize fh)) = int (off1 + sz)"
      using small sint by (subst int64_small) simp_all
    have "\<forall>k. Suc j \<le> k \<and> k < fileCount s \<longrightarrow> fo \<le> folderAt s k"
      using folderAt_mono [OF ok, of j] by (simp add: fo_def)
    from Cons.IH [OF cnt small this] obtain fs where fs: "initFiles (Some s) fo (int (off1 + sz)) (Suc j) fhs = Inr fs"
      "length fs = length fhs" "\<forall>i<length fhs. let k = Suc j + streamsOf (take i fhs); fo' = folderAt s k in
         fs ! i = placed s k ((if fo' = fo then off1 + sz else 0) + sizesIn s fo' (Suc j) (take i fhs)) (fhs ! i)" by blast
    let ?f = "\<lparr>f_FileHeader = (dirName fh)\<lparr>fh_Stream := fo\<rparr>, f_folder = fo, f_offset = int off1\<rparr>"
    obtain a b where e: "fileEntry s j = (fo, a, b)" by (cases "fileEntry s j") (simp add: fo_def folderAt_def)
    have init: "initFiles (Some s) folder (int off) j (fh # fhs) = Inr (?f # fs)"
    proof -
      have "(if fo \<noteq> folder then 0 else int off) = int off1" by (simp add: off1_def)
      then show ?thesis using True entry e fs(1) next_off by (simp add: Let_def)
    qed
    have "(?f # fs) ! i = placed s k ((if fo' = folder then off else 0) + sizesIn s fo' j (take i (fh # fhs))) ((fh # fhs) ! i)"
      if i: "i < length (fh # fhs)" and k: "k = j + streamsOf (take i (fh # fhs))" and fo': "fo' = folderAt s k" for i k fo'
    proof (cases i)
      case 0
      with True k fo' show ?thesis by (simp add: placed_def fo_def off1_def streamsOf_def)
    next
      case (Suc m)
      have k': "k = Suc j + streamsOf (take m fhs)" using True Suc k by (simp add: streamsOf_def)
      show ?thesis
      proof (cases "hasStream (fhs ! m)")
        case False
        with fs(3) i Suc k' fo' show ?thesis by (auto simp: Let_def placed_def)
      next
        case has: True
        have m: "m < length fhs" using i Suc by simp
        have "streamsOf fhs = streamsOf (take m fhs) + streamsOf (fhs ! m # drop (Suc m) fhs)"
          unfolding streamsOf_append [symmetric] id_take_nth_drop [OF m, symmetric] ..
        then have "streamsOf (take m fhs) < streamsOf fhs" using has by (simp add: streamsOf_def)
        then have k_lt: "k < fileCount s" using cnt k' by simp
        then have "fo \<le> fo'" using folderAt_mono [OF ok, of j k] k' by (simp add: fo_def fo')
        moreover have "folder \<le> fo" using Cons.prems(3) j by (simp add: fo_def)
        ultimately have "(if fo' = fo then off1 + sz else 0) =
            (if fo' = folder then off else 0) + (if fo = fo' then sz else 0)"
          unfolding off1_def by (cases "fo' = fo"; cases "fo = folder") simp_all
        moreover have "(?f # fs) ! i = placed s k ((if fo' = fo then off1 + sz else 0) + sizesIn s fo' (Suc j) (take m fhs)) (fhs ! m)"
          using fs(3) m Suc k' fo' by (simp add: Let_def)
        ultimately show ?thesis using True Suc by (simp add: fo_def sz_def add.assoc)
      qed
    qed
    with init fs(2) show ?thesis by (intro exI [of _ "?f # fs"]) (simp add: Let_def)
  qed
qed

text \<open>
  The layout of an opened archive: for tables that are consistent, every header becomes one
  file; one with content is in the folder of its substream, at the offset that is the size of
  all files before it in that folder, so the files of a folder tile it from its start.
\<close>

lemma files_tile_their_folders:
  assumes "okLookup s" and "streamsOf fhs \<le> fileCount s" and "totalSize fhs < 2 ^ 63"
  shows "\<exists>fs. initFiles (Some s) 0 0 0 fhs = Inr fs \<and> length fs = length fhs
    \<and> (\<forall>i<length fhs. let k = streamsOf (take i fhs) in
         fs ! i = placed s k (sizesIn s (folderAt s k) 0 (take i fhs)) (fhs ! i))"
proof -
  have "(if fo = 0 then 0 else 0) + x = x" for fo x :: nat by simp
  then show ?thesis
    using initFiles_layout [of s 0 fhs 0 0] assms by (simp add: Let_def)
qed

end
