(* ===== verification/Util_Reader.thy ===== *)
theory Util_Reader
  imports Io_Reader Folder_Reader
begin

text \<open>
  The reader types of \<open>internal/util/reader.go\<close>: the byte reader that is put around a plain reader,
  and the buffered section reader in which the packed streams reach the decoders. The locale
  \<open>byte_reader\<close> extends the contract of \<open>io.Reader\<close> by \<open>ReadByte\<close>; a reader that keeps it
  may be read in any mixture of the two.
\<close>

section \<open>Readers that deliver single bytes\<close>

locale byte_reader = io_reader rd rest valid eof
  for rd :: "'r \<Rightarrow> nat \<Rightarrow> 'b list \<times> 'e option \<times> 'r" and rest :: "'r \<Rightarrow> 'b list"
    and valid :: "'r \<Rightarrow> bool" and eof :: 'e +
  fixes rdByte :: "'r \<Rightarrow> ('e + 'b) \<times> 'r"
  assumes readByte_rest: "valid r \<Longrightarrow>
    \<exists>r'. rdByte r = ((if rest r = [] then Inl eof else Inr (hd (rest r))), r')
      \<and> rest r' = tl (rest r) \<and> valid r'"

text \<open>A client that mixes reads of some size (\<open>Some m\<close>) with reads of one byte (\<open>None\<close>).\<close>

fun mixedReads ::
    "('r \<Rightarrow> nat \<Rightarrow> 'b list \<times> 'e option \<times> 'r) \<Rightarrow> ('r \<Rightarrow> ('e + 'b) \<times> 'r) \<Rightarrow> 'r \<Rightarrow> nat option list \<Rightarrow> 'b list \<times> 'r" where
  "mixedReads rd rdByte r [] = ([], r)"
| "mixedReads rd rdByte r (Some m # ms) =
     (let (bs, e, r) = rd r m; (cs, r) = mixedReads rd rdByte r ms in (bs @ cs, r))"
| "mixedReads rd rdByte r (None # ms) =
     (let (b, r) = rdByte r; (cs, r) = mixedReads rd rdByte r ms
      in ((case b of Inl e \<Rightarrow> [] | Inr b \<Rightarrow> [b]) @ cs, r))"

context byte_reader begin

lemma mixedReads_rest:
  assumes "valid r" and "list_all (\<lambda>m. m \<noteq> Some 0) ms"
  shows "valid (snd (mixedReads rd rdByte r ms))
    \<and> fst (mixedReads rd rdByte r ms) @ rest (snd (mixedReads rd rdByte r ms)) = rest r
    \<and> (length (rest r) \<le> length ms \<longrightarrow> rest (snd (mixedReads rd rdByte r ms)) = [])"
  using assms
proof (induction ms arbitrary: r)
  case (Cons m ms)
  have ms: "list_all (\<lambda>m. m \<noteq> Some 0) ms" using Cons.prems by simp
  show ?case
  proof (cases m)
    case None
    obtain r' where r': "rdByte r = ((if rest r = [] then Inl eof else Inr (hd (rest r))), r')"
      "rest r' = tl (rest r)" "valid r'" using readByte_rest Cons.prems by blast
    from Cons.IH [OF r'(3) ms] r' show ?thesis
      by (cases "rest r") (auto simp: None split_beta Let_def)
  next
    case (Some n)
    then have "0 < n" using Cons.prems(2) by simp
    with Cons.prems(1) obtain q r' where q: "rd r n = (take q (rest r), if rest r = [] then Some eof else None, r')"
      "rest r \<noteq> [] \<longrightarrow> 0 < q" "rest r' = drop q (rest r)" "valid r'"
      using read_rest [of r n] by auto
    have "length (rest r') \<le> length ms" if "length (rest r) \<le> length (m # ms)"
      using that q(2,3) by (cases "rest r = []") (auto simp: le_diff_conv)
    with Cons.IH [OF q(4) ms] q show ?thesis by (simp add: Some split_beta Let_def)
  qed
qed simp

lemma mixedReads_all:
  assumes "valid r" and "list_all (\<lambda>m. m \<noteq> Some 0) ms" and "length (rest r) \<le> length ms"
  shows "fst (mixedReads rd rdByte r ms) = rest r"
  using mixedReads_rest [OF assms(1,2)] assms(3) by (metis append_Nil2)

end

section \<open>\<open>ByteReadCloser\<close>\<close>

text \<open>Whether the reader has a \<open>ReadByte\<close> of its own; otherwise one byte is read into an array.\<close>

definition utilReadByte ::
    "('r \<Rightarrow> nat \<Rightarrow> byte list \<times> sz_error option \<times> 'r) \<Rightarrow> 'r \<Rightarrow> (sz_error + byte) \<times> 'r" where
  "utilReadByte rd rc =
     (let (b, e, rc) = rd rc 1 in
      (case e of
         Some e \<Rightarrow> Inl e
       | None \<Rightarrow> if b = [] then Inl NoProgress else Inr (hd b), rc))"

definition ByteReadCloser ::
    "('r \<Rightarrow> nat \<Rightarrow> byte list \<times> sz_error option \<times> 'r) \<Rightarrow> ('r \<Rightarrow> (sz_error + byte) \<times> 'r) option
     \<Rightarrow> 'r \<Rightarrow> (sz_error + byte) \<times> 'r" where
  "ByteReadCloser rd own = (case own of Some rdByte \<Rightarrow> rdByte | None \<Rightarrow> utilReadByte rd)"

text \<open>Around a reader that keeps the contract it delivers the same bytes one at a time.\<close>

lemma utilReadByte_reader:
  assumes "io_reader rd rest valid EOF"
  shows "byte_reader rd rest valid EOF (ByteReadCloser rd None)"
proof (intro byte_reader.intro byte_reader_axioms.intro assms)
  fix r assume "valid r"
  then obtain q r' where q: "rd r 1 = (take q (rest r), if rest r = [] then Some EOF else None, r')"
    "q \<le> 1" "rest r \<noteq> [] \<longrightarrow> 0 < q" "rest r' = drop q (rest r)" "valid r'"
    using io_reader.read_rest [OF assms, of r 1] by auto
  show "\<exists>r'. ByteReadCloser rd None r = ((if rest r = [] then Inl EOF else Inr (hd (rest r))), r')
    \<and> rest r' = tl (rest r) \<and> valid r'"
  proof (cases "rest r")
    case (Cons b bs)
    then have "q = 1" using q(2,3) by simp
    with q Cons show ?thesis by (simp add: ByteReadCloser_def utilReadByte_def)
  qed (use q in \<open>simp add: ByteReadCloser_def utilReadByte_def\<close>)
qed

text \<open>A byte that arrives together with an error is lost.\<close>

lemma utilReadByte_drops: "rd rc 1 = ([b], Some e, rc') \<Longrightarrow> utilReadByte rd rc = (Inl e, rc')"
  by (simp add: utilReadByte_def)

section \<open>\<open>BufioReadSeekCloser\<close>\<close>

text \<open>A \<open>bufio.Reader\<close> over an \<open>io.SectionReader\<close>: what is buffered, the section and its offset.\<close>

record bufioReadSeekCloser =
  bk_buf :: "byte list"
  bk_all :: "byte list"
  bk_pos :: nat

definition NewBufioReadSeekCloser :: "byte list \<Rightarrow> bufioReadSeekCloser" where
  "NewBufioReadSeekCloser sr = \<lparr>bk_buf = [], bk_all = sr, bk_pos = 0\<rparr>"

text \<open>The embedded \<open>bufio.Reader\<close>, and the state after it has moved on.\<close>

definition bkReader :: "bufioReadSeekCloser \<Rightarrow> reader" where
  "bkReader k = \<lparr>rbuf = bk_buf k, rsrc = drop (bk_pos k) (bk_all k)\<rparr>"

definition bkAfter :: "bufioReadSeekCloser \<Rightarrow> reader \<Rightarrow> bufioReadSeekCloser" where
  "bkAfter k r =
     k\<lparr>bk_buf := rbuf r, bk_pos := bk_pos k + (length (drop (bk_pos k) (bk_all k)) - length (rsrc r))\<rparr>"

definition bkRead :: "bufioReadSeekCloser \<Rightarrow> nat \<Rightarrow> byte list \<times> sz_error option \<times> bufioReadSeekCloser" where
  "bkRead k m =
     (case readSome m (bkReader k) of
        Inl e \<Rightarrow> ([], Some e, k)
      | Inr (bs, r) \<Rightarrow> (bs, None, bkAfter k r))"

definition bkReadByte :: "bufioReadSeekCloser \<Rightarrow> (sz_error + byte) \<times> bufioReadSeekCloser" where
  "bkReadByte k =
     (case readByte (bkReader k) of
        Inl e \<Rightarrow> (Inl e, k)
      | Inr (b, r) \<Rightarrow> (Inr b, bkAfter k r))"

definition bkReadAt :: "bufioReadSeekCloser \<Rightarrow> nat \<Rightarrow> int \<Rightarrow> byte list \<times> sz_error option" where
  "bkReadAt k n off =
     (if off < 0 \<or> int (length (bk_all k)) \<le> off then ([], Some EOF)
      else
        let bs = take n (drop (nat off) (bk_all k))
        in (bs, if length bs < n then Some EOF else None))"

text \<open>\<open>SectionReader.Seek\<close>, after which the buffer is emptied in any case.\<close>

definition bkSeek :: "bufioReadSeekCloser \<Rightarrow> int \<Rightarrow> int \<Rightarrow> int result \<times> bufioReadSeekCloser" where
  "bkSeek k offset whence =
     (let k = k\<lparr>bk_buf := []\<rparr> in
      if whence \<noteq> SeekStart \<and> whence \<noteq> SeekCurrent \<and> whence \<noteq> SeekEnd then (Inl ErrInvalidWhence, k)
      else
        let n = (if whence = SeekStart then offset
                 else if whence = SeekCurrent then int (bk_pos k) + offset
                 else int (length (bk_all k)) + offset)
        in if n < 0 then (Inl ErrNegativeSeek, k) else (Inr n, k\<lparr>bk_pos := nat n\<rparr>))"

text \<open>What it still delivers.\<close>

definition bkRest :: "bufioReadSeekCloser \<Rightarrow> byte list" where
  "bkRest k = bk_buf k @ drop (bk_pos k) (bk_all k)"

lemma bkNew [simp]: "bkRest (NewBufioReadSeekCloser bs) = bs"
  by (simp add: bkRest_def NewBufioReadSeekCloser_def)

lemma bk_content: "content (bkReader k) = bkRest k"
  by (simp add: content_def bkReader_def bkRest_def)

text \<open>The source is only ever consumed from the front.\<close>

definition refills :: "'a parser \<Rightarrow> bool" where
  "refills p \<longleftrightarrow> (\<forall>r x r'. p r = Inr (x, r') \<longrightarrow> (\<exists>n\<le>length (rsrc r). rsrc r' = drop n (rsrc r)))"

lemma drop_refill: "\<exists>n\<le>length xs. drop m xs = drop n xs"
proof (cases "m \<le> length xs")
  case False
  then have "drop m xs = drop (length xs) xs" by simp
  then show ?thesis by blast
qed blast

lemma readSome_refills: "refills (readSome m)"
proof -
  have "\<exists>n\<le>length (rsrc r). rsrc r' = drop n (rsrc r)" if "readSome m r = Inr (x, r')" for r x r'
    using that drop_refill [of "rsrc r"] drop_refill [of "rsrc r" 0]
    by (auto simp: readSome_def split: if_splits)
  then show ?thesis by (simp add: refills_def)
qed

lemma readByte_refills: "refills readByte"
proof -
  have "\<exists>n\<le>length (rsrc r). rsrc r' = drop n (rsrc r)" if "readByte r = Inr (x, r')" for r x r'
    using that drop_refill [of "rsrc r"] drop_refill [of "rsrc r" 0]
    by (auto simp: readByte_def split: list.splits)
  then show ?thesis by (simp add: refills_def)
qed

lemma bkAfter_rest:
  assumes "refills p" and "p (bkReader k) = Inr (x, r)"
  shows "bkRest (bkAfter k r) = content r" and "bk_all (bkAfter k r) = bk_all k"
proof -
  obtain n where n: "n \<le> length (drop (bk_pos k) (bk_all k))" "rsrc r = drop n (drop (bk_pos k) (bk_all k))"
    using assms unfolding refills_def by (metis bkReader_def reader.select_convs(2))
  then have "drop (bk_pos k + (length (drop (bk_pos k) (bk_all k)) - length (rsrc r))) (bk_all k) = rsrc r"
    by (cases "bk_pos k \<le> length (bk_all k)") (auto simp: add.commute)
  then show "bkRest (bkAfter k r) = content r" by (simp add: bkRest_def bkAfter_def content_def)
qed (simp add: bkAfter_def)

interpretation bk: byte_reader bkRead bkRest "\<lambda>_. True" EOF bkReadByte
proof
  fix k :: bufioReadSeekCloser and m :: nat
  assume m: "0 < m"
  show "\<exists>q k'. bkRead k m = (take q (bkRest k), if bkRest k = [] then Some EOF else None, k')
      \<and> q \<le> m \<and> (bkRest k \<noteq> [] \<longrightarrow> 0 < q) \<and> bkRest k' = drop q (bkRest k) \<and> True"
  proof (cases "readSome m (bkReader k)")
    case (Inl e)
    with readSome_Inl [OF Inl] show ?thesis
      by (intro exI [of _ 0] exI [of _ k]) (simp add: bkRead_def bk_content)
  next
    case (Inr y)
    obtain bs r where y: "y = (bs, r)" by (cases y)
    note split_rest = readSome_Inr [OF Inr [unfolded y]]
    have ne: "bs \<noteq> []" "length bs \<le> m" using readSome_progress [OF Inr [unfolded y] m] by simp_all
    have "bkRest k = bs @ bkRest (bkAfter k r)"
      using split_rest bkAfter_rest(1) [OF readSome_refills Inr [unfolded y]] by (simp add: bk_content)
    with ne Inr y show ?thesis
      by (intro exI [of _ "length bs"] exI [of _ "bkAfter k r"]) (simp add: bkRead_def)
  qed
next
  fix k
  show "\<exists>k'. bkReadByte k = ((if bkRest k = [] then Inl EOF else Inr (hd (bkRest k))), k')
      \<and> bkRest k' = tl (bkRest k) \<and> True"
  proof (cases "readByte (bkReader k)")
    case (Inl e)
    then have "bkRest k = [] \<and> e = EOF" by (simp add: readByte_Inl bk_content)
    with Inl show ?thesis by (simp add: bkReadByte_def)
  next
    case (Inr y)
    obtain b r where y: "y = (b, r)" by (cases y)
    have "bkRest k = b # bkRest (bkAfter k r)"
      using readByte_Inr [OF Inr [unfolded y]] bkAfter_rest(1) [OF readByte_refills Inr [unfolded y]]
      by (simp add: bk_content)
    with Inr y show ?thesis by (simp add: bkReadByte_def)
  qed
qed

text \<open>
  Seeking from the start goes where it says. Asking for the current position reports the offset
  of the section, which is ahead by what is buffered, and loses the buffer.
\<close>

lemma bkSeek_start:
  assumes "0 \<le> off"
  shows "fst (bkSeek k off SeekStart) = Inr off"
    and "bkRest (snd (bkSeek k off SeekStart)) = drop (nat off) (bk_all k)"
  using assms by (simp_all add: bkSeek_def bkRest_def Let_def)

lemma bkSeek_current:
  shows "fst (bkSeek k 0 SeekCurrent) = Inr (int (bk_pos k))"
    and "bkRest (snd (bkSeek k 0 SeekCurrent)) = drop (length (bk_buf k)) (bkRest k)"
  by (simp_all add: bkSeek_def bkRest_def Let_def)

lemma bkSeek_end: "bkSeek k 0 SeekEnd = (Inr (int (length (bk_all k))), k\<lparr>bk_buf := [], bk_pos := length (bk_all k)\<rparr>)"
  by (simp add: bkSeek_def Let_def)

end
