(* ===== verification/Codecs.thy ===== *)
theory Codecs
  imports Util_Reader
begin

unbundle bit_operations_syntax

text \<open>
  The packages \<open>internal/lzma\<close>, \<open>lzma2\<close>, \<open>brotli\<close>, \<open>zstd\<close>, \<open>deflate\<close>, \<open>lz4\<close>, \<open>bzip2\<close> and \<open>ppmd\<close>,
  which adapt decoders of other modules to the decompressors of this one. The decoders are
  outside the repository: they are named by numbers and act on a state of their own through the
  operations of \<open>library\<close>. What the packages do themselves is written out: the checks, the
  stream they hand to the decoder, the pool of used decoders, and the life of the reader.
\<close>

section \<open>Readers and decoders\<close>

text \<open>A packed stream is buffered and seekable; other inputs are the output of a decoder.\<close>

datatype sourceKind = Packed bufioReadSeekCloser | Decoded bool stream

record source =
  src_id :: nat
  src_kind :: sourceKind

definition streamOf :: "source \<Rightarrow> stream" where
  "streamOf r = (case src_kind r of Packed k \<Rightarrow> (bkRest k, EOF) | Decoded b s \<Rightarrow> s)"

text \<open>Whether it implements \<open>io.ByteReader\<close>.\<close>

definition isByteReader :: "source \<Rightarrow> bool" where
  "isByteReader r = (case src_kind r of Packed k \<Rightarrow> True | Decoded b s \<Rightarrow> b)"

text \<open>
  The decoder libraries: a new decoder with parameters on a stream, its reset to another stream,
  reading and closing; closing a source; the check of a configuration, the number of blocks of an
  LZMA2 stream, and a parallel decoder for it.
\<close>

record 'w library =
  lib_new :: "int list \<Rightarrow> nat \<Rightarrow> stream \<Rightarrow> 'w \<Rightarrow> sz_error option \<times> 'w"
  lib_reset :: "nat \<Rightarrow> stream \<Rightarrow> 'w \<Rightarrow> sz_error option \<times> 'w"
  lib_read :: "nat \<Rightarrow> nat \<Rightarrow> 'w \<Rightarrow> (byte list \<times> sz_error option) \<times> 'w"
  lib_close :: "nat \<Rightarrow> 'w \<Rightarrow> sz_error option \<times> 'w"
  lib_isCloser :: "nat \<Rightarrow> bool"
  lib_isResetter :: "nat \<Rightarrow> bool"
  lib_sourceClose :: "nat \<Rightarrow> 'w \<Rightarrow> sz_error option \<times> 'w"
  lib_verify :: "int \<Rightarrow> sz_error option"
  lib_blocks :: "byte list \<Rightarrow> nat result"
  lib_parallel :: "int \<Rightarrow> nat \<Rightarrow> byte list \<Rightarrow> 'w \<Rightarrow> sz_error option \<times> 'w"

text \<open>The state of a package: the library, the pool and the number of the next decoder.\<close>

record 'w package =
  pk_lib :: 'w
  pk_pool :: "nat list"
  pk_next :: nat

text \<open>What \<open>NewReader\<close> returns: the reader to close and the decoder, \<open>nil\<close> once closed.\<close>

record readCloser =
  rc_c :: "nat option"
  rc_r :: "nat option"

text \<open>\<open>errors.Is(err, io.EOF)\<close>, and \<open>errors.Join\<close>.\<close>

fun isEOF :: "sz_error \<Rightarrow> bool" where
  "isEOF EOF = True"
| "isEOF (Wrapped e) = isEOF e"
| "isEOF (Joined es) = list_ex isEOF es"
| "isEOF _ = False"

definition errorsJoin :: "sz_error option list \<Rightarrow> sz_error option" where
  "errorsJoin es = (let es = map the (filter (\<lambda>e. e \<noteq> None) es) in if es = [] then None else Some (Joined es))"

definition wrapUnlessEOF :: "sz_error option \<Rightarrow> sz_error option" where
  "wrapUnlessEOF e = (case e of None \<Rightarrow> None | Some e \<Rightarrow> Some (if isEOF e then e else Wrapped e))"

text \<open>\<open>sync.Pool\<close>: \<open>Get\<close> may return any element or none, which is the argument.\<close>

definition decoderGet :: "nat option \<Rightarrow> 'w package \<Rightarrow> nat option \<times> 'w package" where
  "decoderGet g s =
     (case g of
        Some i \<Rightarrow>
          if i < length (pk_pool s)
          then (Some (pk_pool s ! i), s\<lparr>pk_pool := take i (pk_pool s) @ drop (Suc i) (pk_pool s)\<rparr>)
          else (None, s)
      | None \<Rightarrow> (None, s))"

definition decoderPut :: "nat \<Rightarrow> 'w package \<Rightarrow> 'w package" where
  "decoderPut d s = s\<lparr>pk_pool := d # pk_pool s\<rparr>"

text \<open>A decoder that is made for a stream.\<close>

definition newDecoder :: "'w library \<Rightarrow> int list \<Rightarrow> stream \<Rightarrow> 'w package \<Rightarrow> (sz_error + nat) \<times> 'w package" where
  "newDecoder L config st s =
     (case lib_new L config (pk_next s) st (pk_lib s) of
        (Some e, w) \<Rightarrow> (Inl e, s\<lparr>pk_lib := w\<rparr>)
      | (None, w) \<Rightarrow> (Inr (pk_next s), s\<lparr>pk_lib := w, pk_next := Suc (pk_next s)\<rparr>))"

text \<open>One that cannot fail to be made or to be reset: the error is ignored.\<close>

definition pooledDecoder :: "'w library \<Rightarrow> nat option \<Rightarrow> stream \<Rightarrow> 'w package \<Rightarrow> nat \<times> 'w package" where
  "pooledDecoder L g st s =
     (case decoderGet g s of
        (Some d, s) \<Rightarrow> (d, s\<lparr>pk_lib := snd (lib_reset L d st (pk_lib s))\<rparr>)
      | (None, s) \<Rightarrow>
          (pk_next s, s\<lparr>pk_lib := snd (lib_new L [] (pk_next s) st (pk_lib s)), pk_next := Suc (pk_next s)\<rparr>))"

section \<open>Bzip2, LZ4 and Zstandard\<close>

definition bzip2NewReader :: "'w library \<Rightarrow> source list \<Rightarrow> 'w package \<Rightarrow> readCloser result \<times> 'w package" where
  "bzip2NewReader L readers s =
     (case readers of
        [r] \<Rightarrow>
          (Inr \<lparr>rc_c = Some (src_id r), rc_r = Some (pk_next s)\<rparr>,
           s\<lparr>pk_lib := snd (lib_new L [] (pk_next s) (streamOf r) (pk_lib s)), pk_next := Suc (pk_next s)\<rparr>)
      | _ \<Rightarrow> (Inl ErrNeedOneReader, s))"

definition lz4NewReader :: "'w library \<Rightarrow> nat option \<Rightarrow> source list \<Rightarrow> 'w package \<Rightarrow> readCloser result \<times> 'w package" where
  "lz4NewReader L g readers s =
     (case readers of
        [r] \<Rightarrow>
          let (d, s) = pooledDecoder L g (streamOf r) s
          in (Inr \<lparr>rc_c = Some (src_id r), rc_r = Some d\<rparr>, s)
      | _ \<Rightarrow> (Inl ErrNeedOneReader, s))"

definition zstdNewReader :: "'w library \<Rightarrow> nat option \<Rightarrow> source list \<Rightarrow> 'w package \<Rightarrow> readCloser result \<times> 'w package" where
  "zstdNewReader L g readers s =
     (case readers of
        [r] \<Rightarrow>
          (case decoderGet g s of
             (Some d, s) \<Rightarrow>
               (case lib_reset L d (streamOf r) (pk_lib s) of
                  (Some e, w) \<Rightarrow> (Inl (Wrapped e), s\<lparr>pk_lib := w\<rparr>)
                | (None, w) \<Rightarrow> (Inr \<lparr>rc_c = Some (src_id r), rc_r = Some d\<rparr>, s\<lparr>pk_lib := w\<rparr>))
           | (None, s) \<Rightarrow>
               (case newDecoder L [] (streamOf r) s of
                  (Inl e, s) \<Rightarrow> (Inl (Wrapped e), s)
                | (Inr d, s) \<Rightarrow> (Inr \<lparr>rc_c = Some (src_id r), rc_r = Some d\<rparr>, s)))
      | _ \<Rightarrow> (Inl ErrNeedOneReader, s))"

section \<open>Deflate\<close>

text \<open>The decoder reads through \<open>util.ByteReadCloser\<close>, which delivers the same stream.\<close>

definition deflateNewReader :: "'w library \<Rightarrow> nat option \<Rightarrow> source list \<Rightarrow> 'w package \<Rightarrow> readCloser result \<times> 'w package" where
  "deflateNewReader L g readers s =
     (case readers of
        [r] \<Rightarrow>
          (case decoderGet g s of
             (Some d, s) \<Rightarrow>
               if lib_isResetter L d then
                 (case lib_reset L d (streamOf r) (pk_lib s) of
                    (Some e, w) \<Rightarrow> (Inl (Wrapped e), s\<lparr>pk_lib := w\<rparr>)
                  | (None, w) \<Rightarrow> (Inr \<lparr>rc_c = Some (src_id r), rc_r = Some d\<rparr>, s\<lparr>pk_lib := w\<rparr>))
               else (Inr \<lparr>rc_c = Some (src_id r), rc_r = Some d\<rparr>, s)
           | (None, s) \<Rightarrow>
               (Inr \<lparr>rc_c = Some (src_id r), rc_r = Some (pk_next s)\<rparr>,
                s\<lparr>pk_lib := snd (lib_new L [] (pk_next s) (streamOf r) (pk_lib s)), pk_next := Suc (pk_next s)\<rparr>))
      | _ \<Rightarrow> (Inl ErrNeedOneReader, s))"

section \<open>Brotli\<close>

record headerFrame =
  FrameMagic :: u32
  FrameSize :: u32
  CompressedSize :: u32
  BrotliMagic :: u16
  UncompressedSize :: u16

definition le16 :: "byte list \<Rightarrow> u16" where
  "le16 bs = foldr (\<lambda>b v. ucast b OR push_bit 8 v) bs 0"

definition parseFrame :: "byte list \<Rightarrow> headerFrame" where
  "parseFrame bs =
     \<lparr>FrameMagic = le32 (take 4 bs), FrameSize = le32 (take 4 (drop 4 bs)),
      CompressedSize = le32 (take 4 (drop 8 bs)), BrotliMagic = le16 (take 2 (drop 12 bs)),
      UncompressedSize = le16 (take 2 (drop 14 bs))\<rparr>"

definition isFrame :: "headerFrame \<Rightarrow> bool" where
  "isFrame hr \<longleftrightarrow> FrameMagic hr = 0x184d2a50 \<and> FrameSize hr = 8 \<and> BrotliMagic hr = 0x5242"

text \<open>\<open>io.ReadFull\<close> on a stream.\<close>

definition streamReadFull :: "nat \<Rightarrow> stream \<Rightarrow> byte list result" where
  "streamReadFull n st =
     (if n \<le> length (fst st) then Inr (take n (fst st))
      else if snd st = EOF \<and> fst st \<noteq> [] then Inl UnexpectedEOF
      else Inl (snd st))"

text \<open>What the Brotli decoder gets to read.\<close>

definition brotliStream :: "stream \<Rightarrow> stream result" where
  "brotliStream st =
     (case streamReadFull 16 st of
        Inl e \<Rightarrow> Inl (if isEOF e then e else Wrapped e)
      | Inr b \<Rightarrow>
          let rest = (drop 16 (fst st), snd st) in
          if isFrame (parseFrame b) then Inr rest else Inr (b @ fst rest, snd rest))"

definition brotliNewReader :: "'w library \<Rightarrow> nat option \<Rightarrow> source list \<Rightarrow> 'w package \<Rightarrow> readCloser result \<times> 'w package" where
  "brotliNewReader L g readers s =
     (case readers of
        [r] \<Rightarrow>
          (case brotliStream (streamOf r) of
             Inl e \<Rightarrow> (Inl e, s)
           | Inr st \<Rightarrow>
               let (d, s) = pooledDecoder L g st s
               in (Inr \<lparr>rc_c = Some (src_id r), rc_r = Some d\<rparr>, s))
      | _ \<Rightarrow> (Inl ErrNeedOneReader, s))"

section \<open>PPMd\<close>

definition ppmdNewReader :: "'w library \<Rightarrow> byte list \<Rightarrow> u64 \<Rightarrow> source list \<Rightarrow> 'w package \<Rightarrow> readCloser result \<times> 'w package" where
  "ppmdNewReader L p uncompressedSize readers s =
     (case readers of
        [r] \<Rightarrow>
          if length p \<noteq> 5 then (Inl ErrInsufficientProperties, s)
          else
            let order = p ! 0; memory = le32 (drop 1 p) in
            (case newDecoder L [uint order, uint memory, sint uncompressedSize] (streamOf r) s of
               (Inl e, s) \<Rightarrow> (Inl (Wrapped e), s)
             | (Inr d, s) \<Rightarrow> (Inr \<lparr>rc_c = Some (src_id r), rc_r = Some d\<rparr>, s))
      | _ \<Rightarrow> (Inl ErrNeedOneReader, s))"

section \<open>LZMA\<close>

text \<open>
  The header of an \<open>.lzma\<close> file, properties and size, before the stream. A source with its own
  \<open>ReadByte\<close> gets a reader around both that wraps every error.
\<close>

definition lzmaStream :: "byte list \<Rightarrow> u64 \<Rightarrow> source \<Rightarrow> stream" where
  "lzmaStream p sz r =
     (p @ putUint64 sz @ fst (streamOf r),
      if isByteReader r then Wrapped (snd (streamOf r)) else snd (streamOf r))"

definition lzmaNewReader :: "'w library \<Rightarrow> byte list \<Rightarrow> u64 \<Rightarrow> source list \<Rightarrow> 'w package \<Rightarrow> readCloser result \<times> 'w package" where
  "lzmaNewReader L p sz readers s =
     (case readers of
        [r] \<Rightarrow>
          (case newDecoder L [] (lzmaStream p sz r) s of
             (Inl e, s) \<Rightarrow> (Inl (Wrapped e), s)
           | (Inr d, s) \<Rightarrow> (Inr \<lparr>rc_c = Some (src_id r), rc_r = Some d\<rparr>, s))
      | _ \<Rightarrow> (Inl ErrNeedOneReader, s))"

text \<open>
  \<open>multiByteReader\<close>: the buffer, the source, and what \<open>io.MultiReader\<close> still has before it: both
  of them, or only the source, or neither.
\<close>

datatype multiStage = BothLeft | SourceLeft | NoneLeft

record 'r multiByteReader =
  mb_b :: "byte list"
  mb_br :: 'r
  mb_mr :: multiStage

definition multiRead ::
    "('r \<Rightarrow> nat \<Rightarrow> byte list \<times> sz_error option \<times> 'r) \<Rightarrow> 'r multiByteReader \<Rightarrow> nat
     \<Rightarrow> byte list \<times> sz_error option \<times> 'r multiByteReader" where
  "multiRead rd m n =
     (if mb_mr m = BothLeft \<and> (mb_b m \<noteq> [] \<or> n = 0)
      then (take n (mb_b m), None, m\<lparr>mb_b := drop n (mb_b m)\<rparr>)
      else if mb_mr m = NoneLeft then ([], Some EOF, m)
      else
        let (bs, e, r) = rd (mb_br m) n
        in (bs, e, m\<lparr>mb_br := r, mb_mr := (if e = Some EOF then NoneLeft else SourceLeft)\<rparr>))"

definition multiByteRead ::
    "('r \<Rightarrow> nat \<Rightarrow> byte list \<times> sz_error option \<times> 'r) \<Rightarrow> 'r multiByteReader \<Rightarrow> nat
     \<Rightarrow> byte list \<times> sz_error option \<times> 'r multiByteReader" where
  "multiByteRead rd m n = (let (bs, e, m) = multiRead rd m n in (bs, map_option Wrapped e, m))"

definition multiByteReadByte ::
    "('r \<Rightarrow> (sz_error + byte) \<times> 'r) \<Rightarrow> 'r multiByteReader \<Rightarrow> (sz_error + byte) \<times> 'r multiByteReader" where
  "multiByteReadByte rdByte m =
     (case mb_b m of
        b # bs \<Rightarrow> (Inr b, m\<lparr>mb_b := bs\<rparr>)
      | [] \<Rightarrow>
          let (b, r) = rdByte (mb_br m)
          in (case b of Inl e \<Rightarrow> Inl (Wrapped e) | Inr b \<Rightarrow> Inr b, m\<lparr>mb_br := r\<rparr>))"

section \<open>LZMA2\<close>

definition lzma2DictCap :: "byte \<Rightarrow> int" where
  "lzma2DictCap p = int64 ((2 OR (uint p AND 1)) * 2 ^ (unat p div 2 + 11))"

definition streamSizeBySeeking :: "bufioReadSeekCloser \<Rightarrow> int result \<times> bufioReadSeekCloser" where
  "streamSizeBySeeking s =
     (case bkSeek s 0 SeekCurrent of
        (Inl e, s) \<Rightarrow> (Inl e, s)
      | (Inr cur, s) \<Rightarrow>
          case bkSeek s 0 SeekEnd of
            (Inl e, s) \<Rightarrow> (Inl e, s)
          | (Inr n, s) \<Rightarrow>
              case bkSeek s cur SeekStart of
                (Inl e, s) \<Rightarrow> (Inl e, s)
              | (Inr _, s) \<Rightarrow> (Inr n, s))"

text \<open>
  The attempt to decode in parallel: the bytes for the parallel decoder, when the source can seek
  and they have several blocks, and the source after its size was asked for.
\<close>

definition lzma2Probe :: "'w library \<Rightarrow> bufioReadSeekCloser \<Rightarrow> byte list option \<times> bufioReadSeekCloser" where
  "lzma2Probe L k =
     (case bkSeek k 0 SeekCurrent of
        (Inl e, k) \<Rightarrow> (None, k)
      | (Inr currentOffset, k) \<Rightarrow>
          case streamSizeBySeeking k of
            (Inl e, k) \<Rightarrow> (None, k)
          | (Inr n, k) \<Rightarrow>
              let rAt = (if 0 < currentOffset then sectionBytes (bk_all k) currentOffset (n - currentOffset)
                         else bk_all k)
              in (case lib_blocks L rAt of
                    Inr blocks \<Rightarrow> if 1 < blocks then Some rAt else None
                  | Inl e \<Rightarrow> None, k))"

definition lzma2Sequential ::
    "'w library \<Rightarrow> int \<Rightarrow> nat \<Rightarrow> stream \<Rightarrow> 'w package \<Rightarrow> readCloser result \<times> 'w package" where
  "lzma2Sequential L dictCap c st s =
     (case newDecoder L [dictCap] st s of
        (Inl e, s) \<Rightarrow> (Inl (Wrapped e), s)
      | (Inr d, s) \<Rightarrow> (Inr \<lparr>rc_c = Some c, rc_r = Some d\<rparr>, s))"

definition lzma2NewReader :: "'w library \<Rightarrow> byte list \<Rightarrow> source list \<Rightarrow> 'w package \<Rightarrow> readCloser result \<times> 'w package" where
  "lzma2NewReader L p readers s =
     (case readers of
        [r] \<Rightarrow>
          if length p \<noteq> 1 then (Inl ErrInsufficientProperties, s)
          else if 40 < p ! 0 then (Inl ErrInvalidProperties, s)
          else
            let dictCap = lzma2DictCap (p ! 0) in
            (case lib_verify L dictCap of
               Some e \<Rightarrow> (Inl (Wrapped e), s)
             | None \<Rightarrow>
                 case src_kind r of
                   Decoded b st \<Rightarrow> lzma2Sequential L dictCap (src_id r) st s
                 | Packed k \<Rightarrow>
                     case lzma2Probe L k of
                       (None, k) \<Rightarrow> lzma2Sequential L dictCap (src_id r) (bkRest k, EOF) s
                     | (Some rAt, k) \<Rightarrow>
                         case lib_parallel L dictCap (pk_next s) rAt (pk_lib s) of
                           (Some e, w) \<Rightarrow>
                             lzma2Sequential L dictCap (src_id r) (bkRest k, EOF) (s\<lparr>pk_lib := w\<rparr>)
                         | (None, w) \<Rightarrow>
                             (Inr \<lparr>rc_c = Some (src_id r), rc_r = Some (pk_next s)\<rparr>,
                              s\<lparr>pk_lib := w, pk_next := Suc (pk_next s)\<rparr>))
      | _ \<Rightarrow> (Inl ErrNeedOneReader, s))"

end
