(* ===== verification/Codec_Pool.thy ===== *)
theory Codec_Pool
  imports Codecs "HOL-Library.Multiset"
begin

text \<open>
  The life of a decompressor (\<open>Read\<close> and \<open>Close\<close> of the packages in \<open>Codecs\<close>), the pools of
  decoders, and what the decoders are given to read. The locale \<open>decoder_pool\<close> states what a
  package has to keep so that no decoder is ever used by two readers; the four packages with a
  pool are its interpretations.
\<close>

section \<open>Reading and closing\<close>

definition codecRead ::
    "'w library \<Rightarrow> readCloser \<Rightarrow> nat \<Rightarrow> 'w package \<Rightarrow> (byte list \<times> sz_error option) \<times> 'w package" where
  "codecRead L rc n s =
     (case rc_r rc of
        None \<Rightarrow> (([], Some ErrAlreadyClosed), s)
      | Some d \<Rightarrow>
          let ((bs, e), w) = lib_read L d n (pk_lib s)
          in ((bs, wrapUnlessEOF e), s\<lparr>pk_lib := w\<rparr>))"

text \<open>The code of the packages is the same, but for Deflate, which also looks at the source.\<close>

definition lzma2Read :: "'w library \<Rightarrow> readCloser \<Rightarrow> nat \<Rightarrow> 'w package \<Rightarrow> (byte list \<times> sz_error option) \<times> 'w package" where
  "lzma2Read = codecRead"

definition brotliRead :: "'w library \<Rightarrow> readCloser \<Rightarrow> nat \<Rightarrow> 'w package \<Rightarrow> (byte list \<times> sz_error option) \<times> 'w package" where
  "brotliRead = codecRead"

definition lz4Read :: "'w library \<Rightarrow> readCloser \<Rightarrow> nat \<Rightarrow> 'w package \<Rightarrow> (byte list \<times> sz_error option) \<times> 'w package" where
  "lz4Read = codecRead"

definition zstdRead :: "'w library \<Rightarrow> readCloser \<Rightarrow> nat \<Rightarrow> 'w package \<Rightarrow> (byte list \<times> sz_error option) \<times> 'w package" where
  "zstdRead = codecRead"

definition bzip2Read :: "'w library \<Rightarrow> readCloser \<Rightarrow> nat \<Rightarrow> 'w package \<Rightarrow> (byte list \<times> sz_error option) \<times> 'w package" where
  "bzip2Read = codecRead"

definition ppmdRead :: "'w library \<Rightarrow> readCloser \<Rightarrow> nat \<Rightarrow> 'w package \<Rightarrow> (byte list \<times> sz_error option) \<times> 'w package" where
  "ppmdRead = codecRead"

definition deflateRead ::
    "'w library \<Rightarrow> readCloser \<Rightarrow> nat \<Rightarrow> 'w package \<Rightarrow> (byte list \<times> sz_error option) \<times> 'w package" where
  "deflateRead L rc n s =
     (if rc_c rc = None then (([], Some ErrAlreadyClosed), s) else codecRead L rc n s)"

definition closedReader :: readCloser where
  "closedReader = \<lparr>rc_c = None, rc_r = None\<rparr>"

text \<open>LZMA and LZMA2: both are closed and forgotten even when that fails.\<close>

definition lzmaClose :: "'w library \<Rightarrow> readCloser \<Rightarrow> 'w package \<Rightarrow> sz_error option \<times> readCloser \<times> 'w package" where
  "lzmaClose L rc s =
     (case (rc_c rc, rc_r rc) of
        (Some c, Some d) \<Rightarrow>
          let (e1, w) = (if lib_isCloser L d then lib_close L d (pk_lib s) else (None, pk_lib s));
              (e2, w) = lib_sourceClose L c w
          in (map_option Wrapped (errorsJoin [e1, e2]), closedReader, s\<lparr>pk_lib := w\<rparr>)
      | _ \<Rightarrow> (Some ErrAlreadyClosed, rc, s))"

definition lzma2Close :: "'w library \<Rightarrow> readCloser \<Rightarrow> 'w package \<Rightarrow> sz_error option \<times> readCloser \<times> 'w package" where
  "lzma2Close = lzmaClose"

text \<open>Brotli and LZ4: when the source was closed, the decoder goes to the pool.\<close>

definition brotliClose :: "'w library \<Rightarrow> readCloser \<Rightarrow> 'w package \<Rightarrow> sz_error option \<times> readCloser \<times> 'w package" where
  "brotliClose L rc s =
     (case (rc_c rc, rc_r rc) of
        (Some c, Some d) \<Rightarrow>
          (case lib_sourceClose L c (pk_lib s) of
             (Some e, w) \<Rightarrow> (Some (Wrapped e), rc, s\<lparr>pk_lib := w\<rparr>)
           | (None, w) \<Rightarrow> (None, closedReader, decoderPut d (s\<lparr>pk_lib := w\<rparr>)))
      | _ \<Rightarrow> (Some ErrAlreadyClosed, rc, s))"

definition lz4Close :: "'w library \<Rightarrow> readCloser \<Rightarrow> 'w package \<Rightarrow> sz_error option \<times> readCloser \<times> 'w package" where
  "lz4Close = brotliClose"

text \<open>Zstandard looks at the source only; putting \<open>nil\<close> into the pool is left out.\<close>

definition zstdClose :: "'w library \<Rightarrow> readCloser \<Rightarrow> 'w package \<Rightarrow> sz_error option \<times> readCloser \<times> 'w package" where
  "zstdClose L rc s =
     (case rc_c rc of
        None \<Rightarrow> (Some ErrAlreadyClosed, rc, s)
      | Some c \<Rightarrow>
          (case lib_sourceClose L c (pk_lib s) of
             (Some e, w) \<Rightarrow> (Some (Wrapped e), rc, s\<lparr>pk_lib := w\<rparr>)
           | (None, w) \<Rightarrow>
               (None, closedReader,
                (case rc_r rc of Some d \<Rightarrow> decoderPut d (s\<lparr>pk_lib := w\<rparr>) | None \<Rightarrow> s\<lparr>pk_lib := w\<rparr>))))"

definition deflateClose :: "'w library \<Rightarrow> readCloser \<Rightarrow> 'w package \<Rightarrow> sz_error option \<times> readCloser \<times> 'w package" where
  "deflateClose L rc s =
     (case (rc_c rc, rc_r rc) of
        (Some c, Some d) \<Rightarrow>
          let (e1, w) = lib_close L d (pk_lib s);
              (e2, w) = lib_sourceClose L c w
          in (case errorsJoin [e1, e2] of
                Some e \<Rightarrow> (Some (Wrapped e), rc, s\<lparr>pk_lib := w\<rparr>)
              | None \<Rightarrow> (None, closedReader, decoderPut d (s\<lparr>pk_lib := w\<rparr>)))
      | _ \<Rightarrow> (Some ErrAlreadyClosed, rc, s))"

definition bzip2Close :: "'w library \<Rightarrow> readCloser \<Rightarrow> 'w package \<Rightarrow> sz_error option \<times> readCloser \<times> 'w package" where
  "bzip2Close L rc s =
     (case (rc_c rc, rc_r rc) of
        (Some c, Some d) \<Rightarrow>
          (case lib_sourceClose L c (pk_lib s) of
             (Some e, w) \<Rightarrow> (Some (Wrapped e), rc, s\<lparr>pk_lib := w\<rparr>)
           | (None, w) \<Rightarrow> (None, closedReader, s\<lparr>pk_lib := w\<rparr>))
      | _ \<Rightarrow> (Some ErrAlreadyClosed, rc, s))"

text \<open>PPMd may be closed again.\<close>

definition ppmdClose :: "'w library \<Rightarrow> readCloser \<Rightarrow> 'w package \<Rightarrow> sz_error option \<times> readCloser \<times> 'w package" where
  "ppmdClose L rc s =
     (case rc_c rc of
        None \<Rightarrow> (None, rc, s)
      | Some c \<Rightarrow>
          let (e, w) = lib_sourceClose L c (pk_lib s)
          in (map_option Wrapped e, closedReader, s\<lparr>pk_lib := w\<rparr>))"

section \<open>The packages with a pool\<close>

datatype pooledPackage = Brotli | LZ4 | Zstd | Deflate

fun pkgNewReader ::
    "pooledPackage \<Rightarrow> 'w library \<Rightarrow> nat option \<Rightarrow> source list \<Rightarrow> 'w package \<Rightarrow> readCloser result \<times> 'w package" where
  "pkgNewReader Brotli L = brotliNewReader L"
| "pkgNewReader LZ4 L = lz4NewReader L"
| "pkgNewReader Zstd L = zstdNewReader L"
| "pkgNewReader Deflate L = deflateNewReader L"

fun pkgClose ::
    "pooledPackage \<Rightarrow> 'w library \<Rightarrow> readCloser \<Rightarrow> 'w package \<Rightarrow> sz_error option \<times> readCloser \<times> 'w package" where
  "pkgClose Brotli L = brotliClose L"
| "pkgClose LZ4 L = lz4Close L"
| "pkgClose Zstd L = zstdClose L"
| "pkgClose Deflate L = deflateClose L"

fun pkgRead ::
    "pooledPackage \<Rightarrow> 'w library \<Rightarrow> readCloser \<Rightarrow> nat \<Rightarrow> 'w package \<Rightarrow> (byte list \<times> sz_error option) \<times> 'w package" where
  "pkgRead Brotli L = brotliRead L"
| "pkgRead LZ4 L = lz4Read L"
| "pkgRead Zstd L = zstdRead L"
| "pkgRead Deflate L = deflateRead L"

text \<open>
  The states that clients of one package can reach, with the readers they hold: constructors
  that succeed or fail, reads and closes of any reader in any order, and a garbage collector that
  takes decoders out of the pool.
\<close>

inductive pkgRun :: "pooledPackage \<Rightarrow> 'w library \<Rightarrow> 'w package \<Rightarrow> readCloser list \<Rightarrow> bool" for pkg L where
  start: "pk_pool s = [] \<Longrightarrow> pkgRun pkg L s []"
| opened: "pkgRun pkg L s rs \<Longrightarrow> pkgNewReader pkg L g readers s = (Inr rc, s') \<Longrightarrow> pkgRun pkg L s' (rs @ [rc])"
| failed: "pkgRun pkg L s rs \<Longrightarrow> pkgNewReader pkg L g readers s = (Inl e, s') \<Longrightarrow> pkgRun pkg L s' rs"
| read: "pkgRun pkg L s rs \<Longrightarrow> i < length rs \<Longrightarrow> pkgRead pkg L (rs ! i) n s = (res, s') \<Longrightarrow> pkgRun pkg L s' rs"
| closed: "pkgRun pkg L s rs \<Longrightarrow> i < length rs \<Longrightarrow> pkgClose pkg L (rs ! i) s = (e, rc, s') \<Longrightarrow> pkgRun pkg L s' (rs[i := rc])"
| collect: "pkgRun pkg L s rs \<Longrightarrow> pkgRun pkg L (s\<lparr>pk_pool := filter P (pk_pool s)\<rparr>) rs"

text \<open>The decoders a list of readers holds.\<close>

definition held :: "readCloser list \<Rightarrow> nat list" where
  "held rs = concat (map (\<lambda>rc. case rc_r rc of None \<Rightarrow> [] | Some d \<Rightarrow> [d]) rs)"

text \<open>A decoder is in the pool or belongs to one reader, and the pool never runs ahead.\<close>

definition exclusive :: "'w package \<Rightarrow> readCloser list \<Rightarrow> bool" where
  "exclusive s rs \<longleftrightarrow>
     distinct (pk_pool s @ held rs) \<and> (\<forall>d\<in>set (pk_pool s @ held rs). d < pk_next s)
     \<and> (\<forall>rc\<in>set rs. rc_c rc = None \<longleftrightarrow> rc_r rc = None)"

section \<open>No decoder has two users\<close>

locale decoder_pool =
  fixes new :: "nat option \<Rightarrow> source list \<Rightarrow> 'w package \<Rightarrow> readCloser result \<times> 'w package"
    and read :: "readCloser \<Rightarrow> nat \<Rightarrow> 'w package \<Rightarrow> (byte list \<times> sz_error option) \<times> 'w package"
    and close :: "readCloser \<Rightarrow> 'w package \<Rightarrow> sz_error option \<times> readCloser \<times> 'w package"
  assumes new_takes: "new g readers s = (Inr rc, s') \<Longrightarrow>
      \<exists>d. rc_r rc = Some d \<and> rc_c rc \<noteq> None
        \<and> (mset (pk_pool s) = add_mset d (mset (pk_pool s')) \<and> pk_next s' = pk_next s
           \<or> pk_pool s' = pk_pool s \<and> d = pk_next s \<and> pk_next s' = Suc d)"
    and new_fails: "new g readers s = (Inl e, s') \<Longrightarrow>
      mset (pk_pool s') \<subseteq># mset (pk_pool s) \<and> pk_next s' = pk_next s"
    and read_keeps: "read rc n s = (res, s') \<Longrightarrow> pk_pool s' = pk_pool s \<and> pk_next s' = pk_next s"
    and close_gives: "close rc s = (err, rc', s') \<Longrightarrow> (rc_c rc = None \<longleftrightarrow> rc_r rc = None) \<Longrightarrow>
      pk_next s' = pk_next s
      \<and> (rc' = rc \<and> pk_pool s' = pk_pool s
         \<or> (\<exists>d. rc_r rc = Some d \<and> rc' = closedReader \<and> pk_pool s' = d # pk_pool s))"

lemma held_simps [simp]: "held [] = []" "held (rs @ qs) = held rs @ held qs"
  "held [rc] = (case rc_r rc of None \<Rightarrow> [] | Some d \<Rightarrow> [d])"
  by (simp_all add: held_def)

lemma held_update:
  assumes "i < length rs" and "rc_r (rs ! i) = Some d"
  shows "mset (held rs) = add_mset d (mset (held (rs[i := closedReader])))"
proof -
  have "rs = take i rs @ [rs ! i] @ drop (Suc i) rs"
    "rs[i := closedReader] = take i rs @ [closedReader] @ drop (Suc i) rs"
    using assms(1) by (simp_all add: id_take_nth_drop upd_conv_take_nth_drop)
  then have "held rs = held (take i rs) @ held [rs ! i] @ held (drop (Suc i) rs)"
    "held (rs[i := closedReader]) = held (take i rs) @ held [closedReader] @ held (drop (Suc i) rs)"
    by (metis held_simps(2))+
  then show ?thesis using assms(2) by (simp add: closedReader_def)
qed

text \<open>The invariant only depends on the multiset of decoders, and survives losing some.\<close>

lemma exclusive_mono:
  assumes "exclusive s rs" and "mset (pk_pool s' @ held rs') \<subseteq># mset (pk_pool s @ held rs)"
    and "pk_next s \<le> pk_next s'" and "\<forall>rc\<in>set rs'. rc_c rc = None \<longleftrightarrow> rc_r rc = None"
  shows "exclusive s' rs'"
proof -
  have "distinct (pk_pool s' @ held rs')"
    unfolding distinct_count_atmost_1
  proof
    fix d
    let ?n = "count (mset (pk_pool s' @ held rs')) d"
    have "?n \<le> count (mset (pk_pool s @ held rs)) d"
      using assms(2) by (rule mset_subset_eq_count)
    also have "count (mset (pk_pool s @ held rs)) d \<le> 1"
      using assms(1) unfolding exclusive_def distinct_count_atmost_1 by (metis le_refl zero_le)
    finally have le: "?n \<le> 1" .
    have pos: "0 < ?n \<longleftrightarrow> d \<in> set (pk_pool s' @ held rs')"
      by (simp only: count_greater_zero_iff set_mset_mset)
    have "n = (if P then 1 else 0)" if "n \<le> 1" "0 < n \<longleftrightarrow> P" for n :: nat and P
      using that by (cases n) auto
    from this [OF le pos] show "?n = (if d \<in> set (pk_pool s' @ held rs') then 1 else 0)" .
  qed
  moreover have "set (pk_pool s' @ held rs') \<subseteq> set (pk_pool s @ held rs)"
    using assms(2) by (metis set_mset_mono set_mset_mset)
  ultimately show ?thesis
    using assms(1,3,4) unfolding exclusive_def by (meson order_less_le_trans subsetD)
qed

context decoder_pool begin

lemma new_exclusive:
  assumes "exclusive s rs" and "new g readers s = (Inr rc, s')"
  shows "exclusive s' (rs @ [rc])"
proof -
  obtain d where d: "rc_r rc = Some d" "rc_c rc \<noteq> None" and
    cases: "mset (pk_pool s) = add_mset d (mset (pk_pool s')) \<and> pk_next s' = pk_next s
      \<or> pk_pool s' = pk_pool s \<and> d = pk_next s \<and> pk_next s' = Suc d"
    using new_takes [OF assms(2)] by blast
  have iff: "\<forall>rc'\<in>set (rs @ [rc]). rc_c rc' = None \<longleftrightarrow> rc_r rc' = None"
    using assms(1) d by (auto simp: exclusive_def)
  from cases show ?thesis
  proof
    assume "mset (pk_pool s) = add_mset d (mset (pk_pool s')) \<and> pk_next s' = pk_next s"
    with d show ?thesis by (intro exclusive_mono [OF assms(1) _ _ iff]) simp_all
  next
    assume "pk_pool s' = pk_pool s \<and> d = pk_next s \<and> pk_next s' = Suc d"
    with assms(1) d iff show ?thesis by (auto simp: exclusive_def less_SucI)
  qed
qed

lemma close_exclusive:
  assumes "exclusive s rs" and "i < length rs" and "close (rs ! i) s = (e, rc, s')"
  shows "exclusive s' (rs[i := rc])"
proof -
  have iff: "rc_c (rs ! i) = None \<longleftrightarrow> rc_r (rs ! i) = None" "\<forall>rc\<in>set rs. rc_c rc = None \<longleftrightarrow> rc_r rc = None"
    using assms(1,2) by (auto simp: exclusive_def)
  from close_gives [OF assms(3) iff(1)] have same: "pk_next s' = pk_next s"
    and cases: "rc = rs ! i \<and> pk_pool s' = pk_pool s
      \<or> (\<exists>d. rc_r (rs ! i) = Some d \<and> rc = closedReader \<and> pk_pool s' = d # pk_pool s)" by blast+
  from cases show ?thesis
  proof
    assume "rc = rs ! i \<and> pk_pool s' = pk_pool s"
    with assms(1,2) same show ?thesis by (simp add: exclusive_def)
  next
    assume "\<exists>d. rc_r (rs ! i) = Some d \<and> rc = closedReader \<and> pk_pool s' = d # pk_pool s"
    then obtain d where d: "rc_r (rs ! i) = Some d" "rc = closedReader" "pk_pool s' = d # pk_pool s" by blast
    have "\<forall>rc'\<in>set (rs[i := rc]). rc_c rc' = None \<longleftrightarrow> rc_r rc' = None"
      using iff(2) d(2) set_update_subset_insert [of rs i rc] by (auto simp: closedReader_def)
    with held_update [OF assms(2) d(1)] d same show ?thesis
      by (intro exclusive_mono [OF assms(1)]) simp_all
  qed
qed

lemma fail_exclusive:
  assumes "exclusive s rs" and "new g readers s = (Inl e, s')"
  shows "exclusive s' rs"
  using assms(1) new_fails [OF assms(2)]
  by (intro exclusive_mono [OF assms(1)]) (simp_all add: exclusive_def)

lemma read_exclusive:
  assumes "exclusive s rs" and "read rc n s = (res, s')"
  shows "exclusive s' rs"
  using assms(1) read_keeps [OF assms(2)] by (simp add: exclusive_def)

end

lemma decoderGet_mset:
  "decoderGet g s = (Some d, s') \<Longrightarrow> mset (pk_pool s) = add_mset d (mset (pk_pool s')) \<and> pk_next s' = pk_next s \<and> pk_lib s' = pk_lib s"
  "decoderGet g s = (None, s') \<Longrightarrow> s' = s"
proof -
  assume "decoderGet g s = (Some d, s')"
  then obtain i where i: "i < length (pk_pool s)" "d = pk_pool s ! i"
    "s' = s\<lparr>pk_pool := take i (pk_pool s) @ drop (Suc i) (pk_pool s)\<rparr>"
    by (auto simp: decoderGet_def split: option.splits if_splits)
  have "pk_pool s = take i (pk_pool s) @ pk_pool s ! i # drop (Suc i) (pk_pool s)"
    using i(1) by (rule id_take_nth_drop)
  then have "mset (pk_pool s) = mset (take i (pk_pool s) @ pk_pool s ! i # drop (Suc i) (pk_pool s))" by simp
  with i show "mset (pk_pool s) = add_mset d (mset (pk_pool s')) \<and> pk_next s' = pk_next s \<and> pk_lib s' = pk_lib s" by simp
qed (auto simp: decoderGet_def split: option.splits if_splits)

text \<open>A pooled or a fresh decoder.\<close>

definition takes :: "nat \<Rightarrow> 'w package \<Rightarrow> 'w package \<Rightarrow> bool" where
  "takes d s s' \<longleftrightarrow>
     mset (pk_pool s) = add_mset d (mset (pk_pool s')) \<and> pk_next s' = pk_next s
     \<or> pk_pool s' = pk_pool s \<and> d = pk_next s \<and> pk_next s' = Suc d"

lemma takes_pooled: "decoderGet g s = (Some d, t) \<Longrightarrow> takes d s (t\<lparr>pk_lib := w\<rparr>)"
  using decoderGet_mset(1) [of g s d t] by (simp add: takes_def)

lemma takes_fresh: "takes (pk_next s) s (s\<lparr>pk_lib := w, pk_next := Suc (pk_next s)\<rparr>)"
  by (simp add: takes_def)

lemma pooledDecoder_takes: "pooledDecoder L g st s = (d, s') \<Longrightarrow> takes d s s'"
  by (cases "decoderGet g s")
    (auto simp: pooledDecoder_def takes_pooled takes_fresh dest: decoderGet_mset(2) split: option.splits)

lemma newDecoder_takes: "newDecoder L config st s = (Inr d, s') \<Longrightarrow> takes d s s'"
  "newDecoder L config st s = (Inl e, s') \<Longrightarrow> pk_pool s' = pk_pool s \<and> pk_next s' = pk_next s"
  by (auto simp: newDecoder_def takes_fresh split: prod.splits option.splits)

lemmas pool_defs = codecRead_def brotliRead_def lz4Read_def zstdRead_def deflateRead_def lz4Close_def brotliClose_def zstdClose_def deflateClose_def
  decoderPut_def closedReader_def errorsJoin_def

interpretation brotli: decoder_pool "brotliNewReader L" "brotliRead L" "brotliClose L" for L
proof
  show "\<exists>d. rc_r rc = Some d \<and> rc_c rc \<noteq> None
      \<and> (mset (pk_pool s) = add_mset d (mset (pk_pool s')) \<and> pk_next s' = pk_next s
         \<or> pk_pool s' = pk_pool s \<and> d = pk_next s \<and> pk_next s' = Suc d)"
    if "brotliNewReader L g readers s = (Inr rc, s')" for g readers s rc s'
    using that unfolding brotliNewReader_def
    by (auto split: list.splits sum.splits prod.splits dest!: pooledDecoder_takes [unfolded takes_def])
qed (auto simp: brotliNewReader_def pool_defs Let_def split: list.splits sum.splits prod.splits option.splits)

interpretation lz4: decoder_pool "lz4NewReader L" "lz4Read L" "lz4Close L" for L
proof
  show "\<exists>d. rc_r rc = Some d \<and> rc_c rc \<noteq> None
      \<and> (mset (pk_pool s) = add_mset d (mset (pk_pool s')) \<and> pk_next s' = pk_next s
         \<or> pk_pool s' = pk_pool s \<and> d = pk_next s \<and> pk_next s' = Suc d)"
    if "lz4NewReader L g readers s = (Inr rc, s')" for g readers s rc s'
    using that unfolding lz4NewReader_def
    by (auto split: list.splits prod.splits dest!: pooledDecoder_takes [unfolded takes_def])
qed (auto simp: lz4NewReader_def pool_defs Let_def split: list.splits sum.splits prod.splits option.splits)

lemma zstdNewReader_pool:
  "zstdNewReader L g readers s = (Inr rc, s') \<Longrightarrow>
     \<exists>d. rc_r rc = Some d \<and> rc_c rc \<noteq> None \<and> takes d s s'"
  "zstdNewReader L g readers s = (Inl e, s') \<Longrightarrow>
     mset (pk_pool s') \<subseteq># mset (pk_pool s) \<and> pk_next s' = pk_next s"
  by (auto simp: zstdNewReader_def takes_pooled split: list.splits prod.splits option.splits sum.splits
      dest!: decoderGet_mset(2) dest: decoderGet_mset(1) newDecoder_takes)

lemma deflateNewReader_pool:
  "deflateNewReader L g readers s = (Inr rc, s') \<Longrightarrow>
     \<exists>d. rc_r rc = Some d \<and> rc_c rc \<noteq> None \<and> takes d s s'"
  "deflateNewReader L g readers s = (Inl e, s') \<Longrightarrow>
     mset (pk_pool s') \<subseteq># mset (pk_pool s) \<and> pk_next s' = pk_next s"
  using takes_pooled [of g s _ s' "pk_lib s'"]
  by (auto simp: deflateNewReader_def takes_pooled takes_fresh split: list.splits prod.splits option.splits if_splits
      dest!: decoderGet_mset(2) dest: decoderGet_mset(1) newDecoder_takes)

interpretation zstd: decoder_pool "zstdNewReader L" "zstdRead L" "zstdClose L" for L
  by standard (use zstdNewReader_pool [of L] in
      \<open>auto simp: takes_def pool_defs Let_def split: prod.splits option.splits\<close>)

interpretation deflate: decoder_pool "deflateNewReader L" "deflateRead L" "deflateClose L" for L
  by standard (use deflateNewReader_pool [of L] in
      \<open>auto simp: takes_def pool_defs Let_def split: prod.splits option.splits if_splits\<close>)

lemmas package_laws =
  brotli.new_exclusive brotli.fail_exclusive brotli.read_exclusive brotli.close_exclusive
  lz4.new_exclusive lz4.fail_exclusive lz4.read_exclusive lz4.close_exclusive
  zstd.new_exclusive zstd.fail_exclusive zstd.read_exclusive zstd.close_exclusive
  deflate.new_exclusive deflate.fail_exclusive deflate.read_exclusive deflate.close_exclusive

lemma pkg_steps:
  assumes "exclusive s rs"
  shows "pkgNewReader pkg L g readers s = (Inr rc, s') \<Longrightarrow> exclusive s' (rs @ [rc])"
    and "pkgNewReader pkg L g readers s = (Inl e, s') \<Longrightarrow> exclusive s' rs"
    and "pkgRead pkg L rc n s = (res, s') \<Longrightarrow> exclusive s' rs"
    and "i < length rs \<Longrightarrow> pkgClose pkg L (rs ! i) s = (err, rc', s') \<Longrightarrow> exclusive s' (rs[i := rc'])"
  using assms by (cases pkg; auto dest: package_laws)+

lemma pkgRun_exclusive: "pkgRun pkg L s rs \<Longrightarrow> exclusive s rs"
proof (induction rule: pkgRun.induct)
  case (start s)
  then show ?case by (simp add: exclusive_def)
next
  case (collect s rs P)
  have "mset (filter P (pk_pool s)) \<subseteq># mset (pk_pool s)" by (simp add: multiset_filter_subset)
  with collect.IH show ?case
    by (intro exclusive_mono [OF collect.IH]) (simp_all add: exclusive_def)
qed (blast intro: pkg_steps)+

section \<open>Closed readers\<close>

text \<open>A closed reader touches neither the library nor the pool.\<close>

lemma closed_read: "codecRead L closedReader n s = (([], Some ErrAlreadyClosed), s)"
  "deflateRead L closedReader n s = (([], Some ErrAlreadyClosed), s)"
  by (simp_all add: codecRead_def deflateRead_def closedReader_def)

lemma closed_close:
  "lzmaClose L closedReader s = (Some ErrAlreadyClosed, closedReader, s)"
  "brotliClose L closedReader s = (Some ErrAlreadyClosed, closedReader, s)"
  "zstdClose L closedReader s = (Some ErrAlreadyClosed, closedReader, s)"
  "deflateClose L closedReader s = (Some ErrAlreadyClosed, closedReader, s)"
  "bzip2Close L closedReader s = (Some ErrAlreadyClosed, closedReader, s)"
  "ppmdClose L closedReader s = (None, closedReader, s)"
  by (simp_all add: lzmaClose_def brotliClose_def zstdClose_def deflateClose_def bzip2Close_def
      ppmdClose_def closedReader_def)

section \<open>What the decoders read\<close>

lemma le32_eq: "length bs = 4 \<Longrightarrow> le32 bs = v \<longleftrightarrow> bs = putUint32 v"
  using put_le32 le32_put by metis

lemma le16_eq:
  assumes "length bs = 2"
  shows "le16 bs = v \<longleftrightarrow> bs = [ucast v, ucast (drop_bit 8 v)]"
proof -
  obtain a b where bs: "bs = [a, b]" using assms by (auto simp: length_Suc_conv numeral_2_eq_2)
  have "le16 bs = ucast a OR push_bit 8 (ucast b)" by (simp add: bs le16_def)
  moreover have "ucast (ucast a OR push_bit 8 (ucast b) :: u16) = a"
    by (rule bit_word_eqI) (auto simp: bit_simps)
  moreover have "ucast (drop_bit 8 (ucast a OR push_bit 8 (ucast b) :: u16)) = b"
    by (rule bit_word_eqI) (auto simp: bit_simps dest: bit_imp_le_length)
  moreover have "ucast (ucast v :: byte) OR push_bit 8 (ucast (ucast (drop_bit 8 v) :: byte)) = v"
    by (rule bit_word_eqI) (auto simp: bit_simps)
  ultimately show ?thesis by (auto simp: bs)
qed

lemma le16_BR: "length bs = 2 \<Longrightarrow> le16 bs = 0x5242 \<longleftrightarrow> bs = [0x42, 0x52]"
proof -
  have "[ucast (0x5242 :: u16), ucast (drop_bit 8 (0x5242 :: u16))] = [0x42, 0x52 :: byte]" by simp
  then show "length bs = 2 \<Longrightarrow> ?thesis" by (simp only: le16_eq)
qed

lemma isFrame_bytes:
  assumes "16 \<le> length bs"
  shows "isFrame (parseFrame (take 16 bs)) \<longleftrightarrow>
    take 8 bs = [0x50, 0x2a, 0x4d, 0x18, 8, 0, 0, 0] \<and> take 2 (drop 12 bs) = [0x42, 0x52]"
proof -
  have eight: "take 8 bs = take 4 bs @ take 4 (drop 4 bs)"
    using take_add [of 4 4 bs] by simp
  have "take 8 bs = putUint32 0x184d2a50 @ putUint32 8 \<longleftrightarrow>
      take 4 bs = putUint32 0x184d2a50 \<and> take 4 (drop 4 bs) = putUint32 8"
    unfolding eight using assms by (intro append_eq_append_conv) simp
  moreover have "putUint32 0x184d2a50 @ putUint32 8 = [0x50, 0x2a, 0x4d, 0x18, 8, 0, 0, 0]"
    by (simp add: putUint32_def)
  moreover have "take 4 (take 16 bs) = take 4 bs" "take 4 (drop 4 (take 16 bs)) = take 4 (drop 4 bs)"
    "take 2 (drop 12 (take 16 bs)) = take 2 (drop 12 bs)"
    by (simp_all add: drop_take min_def)
  ultimately show ?thesis
    using assms by (simp add: isFrame_def parseFrame_def le32_eq le16_BR)
qed

text \<open>The reader that puts the LZMA header before a source delivers header and source.\<close>

definition multiRest :: "('r \<Rightarrow> byte list) \<Rightarrow> 'r multiByteReader \<Rightarrow> byte list" where
  "multiRest rest m = mb_b m @ rest (mb_br m)"

definition multiOk :: "('r \<Rightarrow> byte list) \<Rightarrow> ('r \<Rightarrow> bool) \<Rightarrow> 'r multiByteReader \<Rightarrow> bool" where
  "multiOk rest valid m \<longleftrightarrow>
     valid (mb_br m) \<and> (mb_mr m \<noteq> BothLeft \<longrightarrow> mb_b m = []) \<and> (mb_mr m = NoneLeft \<longrightarrow> rest (mb_br m) = [])"

lemma multi_reader:
  assumes br: "byte_reader rd rest valid EOF rdByte"
  shows "byte_reader (multiByteRead rd) (multiRest rest) (multiOk rest valid) (Wrapped EOF) (multiByteReadByte rdByte)"
proof (intro byte_reader.intro byte_reader_axioms.intro io_reader.intro)
  fix m :: "'a multiByteReader" and n :: nat
  assume ok: "multiOk rest valid m" and n: "0 < n"
  note read = io_reader.read_rest [OF byte_reader.axioms(1) [OF br] _ n]
  show "\<exists>q m'. multiByteRead rd m n = (take q (multiRest rest m),
        if multiRest rest m = [] then Some (Wrapped EOF) else None, m')
      \<and> q \<le> n \<and> (multiRest rest m \<noteq> [] \<longrightarrow> 0 < q) \<and> multiRest rest m' = drop q (multiRest rest m) \<and> multiOk rest valid m'"
  proof (cases "mb_b m = []")
    case False
    with ok have both: "mb_mr m = BothLeft" by (auto simp: multiOk_def)
    with False n ok show ?thesis
      by (intro exI [of _ "min n (length (mb_b m))"] exI [of _ "m\<lparr>mb_b := drop n (mb_b m)\<rparr>"])
        (auto simp: multiByteRead_def multiRead_def multiRest_def multiOk_def min_def)
  next
    case True
    obtain q r where q: "rd (mb_br m) n = (take q (rest (mb_br m)), if rest (mb_br m) = [] then Some EOF else None, r)"
      "q \<le> n" "rest (mb_br m) \<noteq> [] \<longrightarrow> 0 < q" "rest r = drop q (rest (mb_br m))" "valid r"
      using read ok unfolding multiOk_def by blast
    show ?thesis
    proof (cases "mb_mr m = NoneLeft")
      case none: True
      with True ok have "rest (mb_br m) = []" by (simp add: multiOk_def)
      with none True ok show ?thesis
        by (intro exI [of _ 0] exI [of _ m]) (simp add: multiByteRead_def multiRead_def multiRest_def)
    next
      case left: False
      with True q n show ?thesis
        by (intro exI [of _ q] exI [of _ "m\<lparr>mb_br := r, mb_mr := (if rest (mb_br m) = [] then NoneLeft else SourceLeft)\<rparr>"])
          (simp add: multiByteRead_def multiRead_def multiRest_def multiOk_def)
    qed
  qed
next
  fix m :: "'a multiByteReader"
  assume ok: "multiOk rest valid m"
  then obtain r where r: "rdByte (mb_br m) = ((if rest (mb_br m) = [] then Inl EOF else Inr (hd (rest (mb_br m)))), r)"
    "rest r = tl (rest (mb_br m))" "valid r"
    using byte_reader.readByte_rest [OF br] unfolding multiOk_def by blast
  show "\<exists>m'. multiByteReadByte rdByte m = ((if multiRest rest m = [] then Inl (Wrapped EOF) else Inr (hd (multiRest rest m))), m')
      \<and> multiRest rest m' = tl (multiRest rest m) \<and> multiOk rest valid m'"
    using ok r by (cases "mb_b m") (auto simp: multiByteReadByte_def multiRest_def multiOk_def)
qed

definition multiReader :: "byte list \<Rightarrow> 'r \<Rightarrow> 'r multiByteReader" where
  "multiReader b br = \<lparr>mb_b = b, mb_br = br, mb_mr = BothLeft\<rparr>"

interpretation lzma: byte_reader "multiByteRead bkRead" "multiRest bkRest" "multiOk bkRest (\<lambda>_. True)"
    "Wrapped EOF" "multiByteReadByte bkReadByte"
  by (rule multi_reader) (rule bk.byte_reader_axioms)

section \<open>LZMA2\<close>

lemma lzma2Probe_rest:
  "bkRest (snd (lzma2Probe L k)) = drop (length (bk_buf k)) (bkRest k)"
  "fst (lzma2Probe L k) = Some bs \<Longrightarrow> bs = drop (length (bk_buf k)) (bkRest k)"
proof -
  have seek: "streamSizeBySeeking (k\<lparr>bk_buf := []\<rparr>) = (Inr (int (length (bk_all k))), k\<lparr>bk_buf := []\<rparr>)"
    by (simp add: streamSizeBySeeking_def bkSeek_def Let_def)
  have k: "bkSeek k 0 SeekCurrent = (Inr (int (bk_pos k)), k\<lparr>bk_buf := []\<rparr>)"
    by (simp add: bkSeek_def Let_def)
  have whole: "sectionBytes (bk_all k) (int (bk_pos k)) (int (length (bk_all k)) - int (bk_pos k)) = drop (bk_pos k) (bk_all k)"
    by (simp add: sectionBytes_def nat_diff_distrib')
  show "bkRest (snd (lzma2Probe L k)) = drop (length (bk_buf k)) (bkRest k)"
    by (simp add: lzma2Probe_def k seek bkRest_def Let_def)
  show "bs = drop (length (bk_buf k)) (bkRest k)" if "fst (lzma2Probe L k) = Some bs"
    using that whole by (auto simp: lzma2Probe_def k seek bkRest_def Let_def split: sum.splits if_splits)
qed

text \<open>The dictionary of every admitted property byte. The last is one byte more than a \<open>u32\<close> can hold.\<close>

lemma lzma2DictCap_eq:
  assumes "p \<le> 40"
  shows "lzma2DictCap p = (2 + int (unat p mod 2)) * 2 ^ (unat p div 2 + 11)"
    and "4096 \<le> lzma2DictCap p" and "lzma2DictCap p \<le> 2 ^ 32"
proof -
  have "list_all (\<lambda>n. lzma2DictCap (of_nat n) = (2 + int (n mod 2)) * 2 ^ (n div 2 + 11)
      \<and> 4096 \<le> lzma2DictCap (of_nat n) \<and> lzma2DictCap (of_nat n) \<le> 2 ^ 32) [0..<41]"
    by code_simp
  moreover have "unat p \<in> set [0..<41]" using assms by (simp add: word_le_nat_alt)
  ultimately have "lzma2DictCap (of_nat (unat p)) = (2 + int (unat p mod 2)) * 2 ^ (unat p div 2 + 11)
      \<and> 4096 \<le> lzma2DictCap (of_nat (unat p)) \<and> lzma2DictCap (of_nat (unat p)) \<le> 2 ^ 32"
    unfolding list_all_iff by blast
  then show "lzma2DictCap p = (2 + int (unat p mod 2)) * 2 ^ (unat p div 2 + 11)"
    and "4096 \<le> lzma2DictCap p" and "lzma2DictCap p \<le> 2 ^ 32" by simp_all
qed

lemma lzma2DictCap_40: "lzma2DictCap 40 = 2 ^ 32"
  using lzma2DictCap_eq(1) [of 40] by simp

section \<open>Properties\<close>

text \<open>
  C36: No decoder has two users. Whatever the clients of a package with a pool do, in any order
  (readers are made, also when that fails, read, and closed, also twice and when that fails),
  and whatever the pool forgets, each decoder is either in the pool or belongs to exactly one
  open reader, never both and never twice.
\<close>

theorem pooled_decoders_exclusive:
  assumes "pkgRun pkg L s rs"
  shows "distinct (pk_pool s @ held rs)"
  using pkgRun_exclusive [OF assms] by (simp add: exclusive_def)

text \<open>A library whose operations all succeed.\<close>

definition quietLibrary :: "unit library" where
  "quietLibrary = \<lparr>lib_new = \<lambda>c d st w. (None, w), lib_reset = \<lambda>d st w. (None, w),
     lib_read = \<lambda>d n w. (([], Some EOF), w), lib_close = \<lambda>d w. (None, w), lib_isCloser = \<lambda>d. True,
     lib_isResetter = \<lambda>d. True, lib_sourceClose = \<lambda>c w. (None, w), lib_verify = \<lambda>d. None,
     lib_blocks = \<lambda>bs. Inr 2, lib_parallel = \<lambda>c d bs w. (None, w)\<rparr>"

theorem pooled_decoders_exclusive_witness:
  "\<exists>s rs. pkgRun Zstd quietLibrary s rs \<and> held rs = [0, 1] \<and> pk_pool s = [] \<and> distinct (pk_pool s @ held rs)"
proof -
  let ?r = "\<lparr>src_id = 5, src_kind = Decoded True ([], EOF)\<rparr>"
  let ?s = "\<lambda>pool n. \<lparr>pk_lib = (), pk_pool = pool, pk_next = n\<rparr>"
  let ?rc = "\<lambda>d. \<lparr>rc_c = Some 5, rc_r = Some d\<rparr>"
  note defs = zstdNewReader_def zstdClose_def decoderGet_def newDecoder_def quietLibrary_def decoderPut_def streamOf_def
  have new: "pkgNewReader Zstd quietLibrary None [?r] (?s [] 0) = (Inr (?rc 0), ?s [] 1)"
    "pkgNewReader Zstd quietLibrary (Some 0) [?r] (?s [0] 1) = (Inr (?rc 0), ?s [] 1)"
    "pkgNewReader Zstd quietLibrary (Some 0) [?r] (?s [] 1) = (Inr (?rc 1), ?s [] 2)"
    by (simp_all add: defs)
  have close: "pkgClose Zstd quietLibrary ([?rc 0] ! 0) (?s [] 1) = (None, closedReader, ?s [0] 1)"
    by (simp add: defs)
  have r1: "pkgRun Zstd quietLibrary (?s [] 1) ([] @ [?rc 0])"
    by (rule pkgRun.opened [OF _ new(1)]) (simp add: pkgRun.start)
  have r2: "pkgRun Zstd quietLibrary (?s [0] 1) [closedReader]"
    using pkgRun.closed [OF r1, of 0 None closedReader] close by simp
  have r4: "pkgRun Zstd quietLibrary (?s [] 2) (([closedReader] @ [?rc 0]) @ [?rc 1])"
    by (rule pkgRun.opened [OF pkgRun.opened [OF r2 new(2)] new(3)])
  from pooled_decoders_exclusive [OF r4] r4 show ?thesis
    by (intro exI [of _ "?s [] 2"] exI [of _ "([closedReader] @ [?rc 0]) @ [?rc 1]"]) (simp add: closedReader_def held_def)
qed

text \<open>
  C38: The frame of a Brotli stream, for every input: fewer than 16 bytes are an error, although
  such a stream can be complete without the frame; a stream that begins with the frame reaches
  the decoder without it; every other stream reaches it whole, the 16 bytes already read included.
\<close>

theorem brotli_frame_skipped_or_restored:
  "brotliStream (bs, e) =
     (if length bs < 16 then
        (if e = EOF \<and> bs \<noteq> [] then Inl (Wrapped UnexpectedEOF) else Inl (if isEOF e then e else Wrapped e))
      else if take 8 bs = [0x50, 0x2a, 0x4d, 0x18, 8, 0, 0, 0] \<and> take 2 (drop 12 bs) = [0x42, 0x52]
      then Inr (drop 16 bs, e)
      else Inr (bs, e))"
  by (simp add: brotliStream_def streamReadFull_def isFrame_bytes Let_def)

text \<open>
  C37: The LZMA decoder reads the properties, the size and the stream. Over a packed stream, in
  whatever state, the reader that is put before it delivers, to any mixture of reads and single
  bytes that is long enough, exactly the header of an \<open>.lzma\<close> file and the rest of the stream;
  then it reports an error that wraps the end of the stream, not the end itself.
\<close>

theorem lzma_header_then_stream:
  assumes "list_all (\<lambda>m. m \<noteq> Some 0) ms"
    and "length p + 8 + length (bkRest k) \<le> length ms" and "0 < n"
  shows "mixedReads (multiByteRead bkRead) (multiByteReadByte bkReadByte) (multiReader (p @ putUint64 sz) k) ms = (out, m)
    \<Longrightarrow> out = fst (lzmaStream p sz \<lparr>src_id = i, src_kind = Packed k\<rparr>)
      \<and> fst (snd (multiByteRead bkRead m n)) = Some (snd (lzmaStream p sz \<lparr>src_id = i, src_kind = Packed k\<rparr>))"
proof -
  let ?m = "multiReader (p @ putUint64 sz) k"
  have ok: "multiOk bkRest (\<lambda>_. True) ?m" "multiRest bkRest ?m = p @ putUint64 sz @ bkRest k"
    by (simp_all add: multiOk_def multiReader_def multiRest_def)
  then have len: "length (multiRest bkRest ?m) \<le> length ms" using assms(2) by (simp add: putUint64_def)
  assume run: "mixedReads (multiByteRead bkRead) (multiByteReadByte bkReadByte) ?m ms = (out, m)"
  have "out = multiRest bkRest ?m" "multiRest bkRest m = []" "multiOk bkRest (\<lambda>_. True) m"
    using lzma.mixedReads_rest [OF ok(1) assms(1)] lzma.mixedReads_all [OF ok(1) assms(1) len] len run by simp_all
  with lzma.read_eof(1) [OF _ assms(3), of m] ok(2) show ?thesis
    by (simp add: lzmaStream_def streamOf_def isByteReader_def)
qed

theorem lzma_header_then_stream_witness:
  "fst (mixedReads (multiByteRead bkRead) (multiByteReadByte bkReadByte)
      (multiReader ([0x5d] @ putUint64 1) (NewBufioReadSeekCloser [7])) (replicate 5 None @ replicate 5 (Some 3)))
    = [0x5d, 1, 0, 0, 0, 0, 0, 0, 0, 7]"
proof -
  let ?ms = "replicate 5 None @ replicate 5 (Some (3::nat))"
  have "list_all (\<lambda>m. m \<noteq> Some 0) ?ms" "length [0x5d::byte] + 8 + length (bkRest (NewBufioReadSeekCloser [7])) \<le> length ?ms"
    by (simp_all add: list_all_iff)
  from lzma_header_then_stream [OF this zero_less_one prod.collapse [symmetric], of 1 0]
  show ?thesis by (simp add: lzmaStream_def streamOf_def putUint64_def)
qed

text \<open>
  LZMA2 sources. Finding out whether a packed stream can be decoded in parallel leaves the
  decoder, parallel or not, with what the stream would still have delivered, less the bytes that
  were buffered: a stream that was not read reaches the decoder whole, and one that was read is
  cut by a whole buffer.
\<close>

lemma lzma2_probe_keeps_source:
  "bkRest (snd (lzma2Probe L k)) = drop (length (bk_buf k)) (bkRest k)
   \<and> fst (lzma2Probe L k) \<in> {None, Some (drop (length (bk_buf k)) (bkRest k))}"
  using lzma2Probe_rest [of L k] by (cases "fst (lzma2Probe L k)") auto

end
