(* ===== verification/Archive_Bytes.thy ===== *)
theory Archive_Bytes
  imports Writer_Data Archive_Layout Codec_Pool
begin

unbundle bit_operations_syntax

text \<open>
  The bytes of a finished archive and the way back through the headers: the decoders of the folders that
  the writer makes, as streams, with what is relied on of the LZMA2 library and the ciphers; what
  \<open>Writer.Close\<close> leaves at the destination; and that \<open>Reader.init\<close> finds the start header in
  it and reads the encoded header.
\<close>

section \<open>The decoders as streams\<close>

text \<open>
  \<open>NewReader\<close> of \<open>internal/lzma2\<close> on a stream (theory \<open>Codecs\<close> has its handling of the source):
  checking a configuration and decoding are the library's.
\<close>

record lzma2Lib =
  l2_verify :: "int \<Rightarrow> sz_error option"
  l2_open :: "int \<Rightarrow> stream \<Rightarrow> stream result"

definition lzma2Decompressor :: "lzma2Lib \<Rightarrow> decompressor" where
  "lzma2Decompressor l p sz readers =
     (case readers of
        [r] \<Rightarrow>
          if length p \<noteq> 1 then Inl ErrInsufficientProperties
          else if 40 < p ! 0 then Inl ErrInvalidProperties
          else
            let dictCap = lzma2DictCap (p ! 0) in
            (case l2_verify l dictCap of
               Some e \<Rightarrow> Inl (Wrapped e)
             | None \<Rightarrow>
                 case l2_open l dictCap r of
                   Inl e \<Rightarrow> Inl (Wrapped e)
                 | Inr s \<Rightarrow> Inr (PlainStream s))
      | _ \<Rightarrow> Inl ErrNeedOneReader)"

text \<open>
  \<open>NewReader\<close> of \<open>internal/aes7z\<close> on a stream. The whole blocks come out, and a partial block at the
  end is an error. (\<open>Read\<close> returns that error as soon as it meets it, while bytes that it has decrypted
  may be in its buffer still; a stream has the bytes first. The two differ only for data that is not a
  multiple of sixteen bytes long, or whose source fails.)
\<close>

fun aesError :: "aes_error \<Rightarrow> sz_error" where
  "aesError AlreadyClosed = ErrAlreadyClosed"
| "aesError NeedOneReader = ErrNeedOneReader"
| "aesError InsufficientProperties = ErrInsufficientProperties"
| "aesError AesEOF = EOF"
| "aesError BlockUnexpectedEOF = Wrapped UnexpectedEOF"
| "aesError NoPasswordSet = ErrDecoder 0"
| "aesError UnsupportedMethod = ErrDecoder 1"
| "aesError CyclesPowerTooLarge = ErrDecoder 2"

definition aesStream :: "crypto \<Rightarrow> aesReader \<Rightarrow> stream \<Rightarrow> stream" where
  "aesStream c r s =
     (aesPlain c r,
      if snd s = EOF \<and> length (fst s) mod 16 \<noteq> 0 then aesError BlockUnexpectedEOF
      else if isEOF (snd s) then EOF else Wrapped (snd s))"

definition aesDecompressor :: "crypto \<Rightarrow> 'c keyCache \<Rightarrow> 'c \<Rightarrow> decompressor" where
  "aesDecompressor c kc cache p sz readers =
     (case aesNewReader p (map fst readers) of
        Inl e \<Rightarrow> Inl (aesError e)
      | Inr r \<Rightarrow>
          Inr (CryptoStream (\<lambda>password.
            case aesPassword c kc cache p password r of
              (Inl e, _, p) \<Rightarrow> (Inl (aesError e), p)
            | (Inr r, _, p) \<Rightarrow> (Inr (aesStream c r (hd readers)), p))))"

text \<open>
  Setting the password leaves the properties alone when the key is cached, or when the encoded password
  does not fit into the properties behind the salt.
\<close>

definition roomOk :: "crypto \<Rightarrow> 'c keyCache \<Rightarrow> 'c \<Rightarrow> gostring \<Rightarrow> byte list \<Rightarrow> bool" where
  "roomOk c kc cache password p \<longleftrightarrow>
     (\<forall>rc r. aesNewReader p rc = Inr r \<longrightarrow>
        fst (cacheGet kc cache \<lparr>ck_password = password, ck_cycles = ar_cycles r,
               ck_salt = hexEncode (take (ar_salt r) (drop 2 p))\<rparr>) \<noteq> None
        \<or> length p < 2 + ar_salt r + length (utf16Encoder c password))"

lemma aes_keeps:
  assumes "aesDecompressor c kc cache p sz readers = Inr (CryptoStream setPassword)" and "roomOk c kc cache password p"
  shows "snd (setPassword password) = p"
proof -
  obtain r where r: "aesNewReader p (map fst readers) = Inr r"
    and sp: "setPassword = (\<lambda>password. case aesPassword c kc cache p password r of
        (Inl e, _, p) \<Rightarrow> (Inl (aesError e), p) | (Inr r, _, p) \<Rightarrow> (Inr (aesStream c r (hd readers)), p))"
    using assms(1) by (auto simp: aesDecompressor_def split: sum.splits)
  have "snd (snd (calculateKey c kc cache password (ar_cycles r) p 2 (ar_salt r))) = p"
    using assms(2) r by (auto simp: roomOk_def calculateKey_properties Let_def)
  then show ?thesis by (auto simp: sp aesPassword_def split: prod.splits sum.splits)
qed

text \<open>The archives of theory \<open>File_Reader\<close> that keep their properties, with AES among the decoders.\<close>

lemma aes_keepsProperties:
  assumes plain: "\<And>d p n readers s. d \<noteq> AESReader \<Longrightarrow> impl d p n readers = Inr s \<Longrightarrow> \<exists>t. s = PlainStream t"
    and aes: "impl AESReader = aesDecompressor c kc cache"
    and room: "\<And>si u f co. z_si z = Some si \<Longrightarrow> si_unpackInfo si = Some u \<Longrightarrow> f \<in> set (ui_folder u) \<Longrightarrow> co \<in> set (fo_coder f) \<Longrightarrow>
      roomOk c kc cache (z_p z) (co_properties co)"
  shows "keepsProperties (registerAll impl) z"
proof -
  have keep: "snd (setPassword (z_p z)) = p"
    if k: "registerAll impl i = Some dcomp" "dcomp p n readers = Inr (CryptoStream setPassword)" "roomOk c kc cache (z_p z) p"
    for i dcomp p n readers setPassword
  proof -
    have "dcomp \<noteq> newCopyReader" using k(2) by (auto simp: newCopyReader_def split: list.splits)
    then obtain d where "dcomp = impl d" using registerAll_cases [OF k(1)] by blast
    with k(2) have "d = AESReader" using plain [of d p n readers] by fastforce
    then have "dcomp = aesDecompressor c kc cache" using aes \<open>dcomp = impl d\<close> by simp
    with k(2) show ?thesis using aes_keeps [OF _ k(3)] by simp
  qed
  have "snd (folderReader (registerAll impl) src si k (z_p z)) = si" if si: "z_si z = Some si" for src si k
  proof (rule folderReader_keeps)
    fix u j readers
    assume u: "si_unpackInfo si = Some u" "k < length (ui_folder u)" "j < length (fo_coder (ui_folder u ! k))"
    have "roomOk c kc cache (z_p z) (co_properties (fo_coder (ui_folder u ! k) ! j))"
      using room [OF si u(1) nth_mem [OF u(2)] nth_mem [OF u(3)]] .
    then show "snd (coderReader (registerAll impl) (ui_folder u ! k) readers j (z_p z))
        = co_properties (fo_coder (ui_folder u ! k) ! j)"
      using keep u(3) by (fastforce simp: coderReader_def decompressor_def idx_def split: option.split sum.split coderStream.split prod.split
          elim!: rbind_InrE)
  qed
  then show ?thesis by (simp add: keepsProperties_def archiveFolderReader_def split_beta Let_def split: option.split)
qed

text \<open>The stream is what reads of the decrypting reader deliver.\<close>

lemma aesStream_reads:
  assumes "aesReady r"
  shows "fst (reads (aesRead c) r ns) = take (sum_list ns) (fst (aesStream c r s))"
  using aesReads_plain [OF assms] by (simp add: aesStream_def)

section \<open>What is relied on\<close>

text \<open>
  The LZMA2 library: the byte for a dictionary of up to three gigabytes is at most 39 and stands for one that
  is no smaller, in the library and in this package alike, such dictionaries are accepted, and a decoder
  whose dictionary is not smaller than that of the encoder returns what went into the encoder.
\<close>

definition lzma2_law :: "'z lzmaLib \<Rightarrow> lzma2Lib \<Rightarrow> bool" where
  "lzma2_law L l \<longleftrightarrow>
     (\<forall>d. 0 < d \<and> d \<le> 3 * 2 ^ 30 \<longrightarrow> encodeDictCap L d \<le> 39 \<and> d \<le> lzma2DictCap (encodeDictCap L d))
     \<and> (\<forall>b\<le>39. decodeDictCap L b = lzma2DictCap b \<and> l2_verify l (lzma2DictCap b) = None)
     \<and> (\<forall>d c ps cap. 0 < d \<and> d \<le> cap \<and> l2_verify l cap = None \<longrightarrow>
          l2_open l cap (lzAll L d c ps, EOF) = Inr (concat ps, EOF))
     \<and> minDictCap L \<le> 3 * 2 ^ 30"

lemma lzma2DictCap_39:
  assumes "b \<le> 39"
  shows "0 < lzma2DictCap b" and "lzma2DictCap b \<le> 3 * 2 ^ 30"
proof -
  have "list_all (\<lambda>n. 0 < lzma2DictCap (of_nat n) \<and> lzma2DictCap (of_nat n) \<le> 3 * 2 ^ 30) [0..<40]"
    by code_simp
  moreover have "unat b \<in> set [0..<40]" using assms by (simp add: word_le_nat_alt)
  ultimately have "0 < lzma2DictCap (of_nat (unat b)) \<and> lzma2DictCap (of_nat (unat b)) \<le> 3 * 2 ^ 30"
    unfolding list_all_iff by blast
  then show "0 < lzma2DictCap b" and "lzma2DictCap b \<le> 3 * 2 ^ 30" by simp_all
qed

text \<open>The dictionaries that the writer chooses.\<close>

lemma chooseDictCap_bounds:
  assumes "lzma2_law (en_lzma en) l"
  shows "0 < chooseDictCap en solid sz" and "chooseDictCap en solid sz \<le> 3 * 2 ^ 30"
proof -
  have d: "0 < decodeDictCap (en_lzma en) (encodeDictCap (en_lzma en) t)"
      "decodeDictCap (en_lzma en) (encodeDictCap (en_lzma en) t) \<le> 3221225472" if "0 < t" "t \<le> 3221225472" for t
  proof -
    have b: "encodeDictCap (en_lzma en) t \<le> 39" using assms that by (simp add: lzma2_law_def)
    with assms have "decodeDictCap (en_lzma en) (encodeDictCap (en_lzma en) t) = lzma2DictCap (encodeDictCap (en_lzma en) t)"
      by (simp add: lzma2_law_def)
    with lzma2DictCap_39 [OF b] show "0 < decodeDictCap (en_lzma en) (encodeDictCap (en_lzma en) t)"
      "decodeDictCap (en_lzma en) (encodeDictCap (en_lzma en) t) \<le> 3221225472" by simp_all
  qed
  have "0 < chooseDictCap en solid sz \<and> chooseDictCap en solid sz \<le> 3 * 2 ^ 30"
    unfolding chooseDictCap_def Let_def by (auto intro!: d)
  then show "0 < chooseDictCap en solid sz" and "chooseDictCap en solid sz \<le> 3 * 2 ^ 30" by simp_all
qed

text \<open>A stage: the decoder of an LZMA2 coder whose property byte was made for the encoder's dictionary.\<close>

lemma lzma2_stage:
  assumes law: "lzma2_law L l" and d: "0 < d" "d \<le> 3 * 2 ^ 30" "d \<le> lzma2DictCap b" "b \<le> 39"
  shows "lzma2Decompressor l [b] sz [(lzAll L d c ps, EOF)] = Inr (PlainStream (concat ps, EOF))"
proof -
  have "l2_verify l (lzma2DictCap b) = None" using law d(4) by (simp add: lzma2_law_def)
  moreover from this have "l2_open l (lzma2DictCap b) (lzAll L d c ps, EOF) = Inr (concat ps, EOF)"
    using law d(1,3) unfolding lzma2_law_def by blast
  moreover have "\<not> 40 < b" using d(4) by (simp add: word_less_nat_alt word_le_nat_alt)
  ultimately show ?thesis by (simp add: lzma2Decompressor_def)
qed

text \<open>A stage: the decoder of an AES coder, with the password of the writer.\<close>

lemma aes_stage:
  assumes laws: "block_law c" "cache_law kc view" "cacheSound c view cache"
    and lens: "length salt = 8" "length iv = 16"
    and key: "deriveKey c 19 (salt @ utf16Encoder c password) = Inr key"
  shows "\<exists>g. aesDecompressor c kc cache (aesProps salt iv) sz [(cbcEnc c key iv (pad16 cb), EOF)] = Inr (CryptoStream g)
    \<and> fst (g password) = Inr (pad16 cb, EOF)"
proof -
  have lk: "length key = 32" using key by (auto simp: deriveKey_def split: if_splits)
  let ?bs = "cbcEnc c key iv (pad16 cb)"
  let ?r = "\<lparr>ar_rc = Some ?bs, ar_salt = 8, ar_iv = iv, ar_cycles = 19, ar_cbc = None, ar_buf = []\<rparr>"
  have new: "aesNewReader (aesProps salt iv) [?bs] = Inr ?r" by (rule aesNewReader_props [OF lens])
  have "take 8 (drop 2 (aesProps salt iv)) = salt" using lens by (simp add: aesProps_def)
  then have "fst (calculateKey c kc cache password 19 (aesProps salt iv) 2 8) = Inr key"
    using calculateKey_derive(1) [OF laws(2,3)] key by simp
  then have pw: "fst (aesPassword c kc cache (aesProps salt iv) password ?r) = Inr (?r\<lparr>ar_cbc := Some (key, iv)\<rparr>)"
    by (auto simp: aesPassword_def split: sum.splits prod.splits)
  have good: "goodKey c key" by (rule block_law_goodKey [OF laws(1) lk])
  have "aesPlain c (?r\<lparr>ar_cbc := Some (key, iv)\<rparr>) = pad16 cb"
    using cbcDec_cbcEnc [OF good lens(2) length_pad16] by (simp add: aesPlain_def)
  moreover have "length ?bs mod 16 = 0" using length_cbcEnc [OF good lens(2)] length_pad16 [of cb] by (simp add: mod_eq_0_iff_dvd)
  moreover obtain x where "aesPassword c kc cache (aesProps salt iv) password ?r = (Inr (?r\<lparr>ar_cbc := Some (key, iv)\<rparr>), x)"
    using pw by (metis prod.collapse)
  ultimately show ?thesis by (simp add: aesDecompressor_def new aesStream_def split: prod.split)
qed

section \<open>The folders of the writer\<close>

lemma registered:
  "decompressor (registerAll impl) [0x21] = Some (impl LZMA2Reader)"
  "decompressor (registerAll impl) [0x06, 0xf1, 0x07, 0x01] = Some (impl AESReader)"
  by (simp_all add: decompressor_def registerAll_def RegisterDecompressor_def)

text \<open>The two shapes of a folder, for the data and for the header alike.\<close>

definition codedFolder :: "bool \<Rightarrow> byte list \<Rightarrow> byte \<Rightarrow> u64 \<Rightarrow> u64 \<Rightarrow> folder" where
  "codedFolder enc props b n m =
     (if enc
      then \<lparr>fo_in = 2, fo_out = 2, fo_packedStreams = 1, fo_coder = [aesCoder props, lzma2Coder b],
            fo_bindPair = [\<lparr>bp_in = 1, bp_out = 0\<rparr>], fo_size = [n, m], fo_packed = [0]\<rparr>
      else \<lparr>fo_in = 1, fo_out = 1, fo_packedStreams = 1, fo_coder = [lzma2Coder b],
            fo_bindPair = [], fo_size = [m], fo_packed = [0]\<rparr>)"

lemma codedFolder_simps [simp]:
  "fo_packed (codedFolder enc props b n m) = [0]"
  "unpackSize (codedFolder enc props b n m) = m"
  by (auto simp: codedFolder_def unpackSize_def findOutBindPair_def upt_rec)

lemma folderOf_coded:
  "folderOf files f = codedFolder (fw_isEncrypted f) (fw_aesProps f) (fw_propByte f) (fw_unencComp f) (totalOf files f)"
  by (simp add: folderOf_cases codedFolder_def)

lemma chain_codedFolder: "chainFolder (if enc then 2 else 1) (codedFolder enc props b n m)"
proof -
  have "{\<lparr>bp_in = of_nat (Suc i), bp_out = of_nat i\<rparr> |i. Suc i < 2} = {\<lparr>bp_in = 1, bp_out = 0\<rparr> :: bindPair}"
    by (auto intro: exI [of _ 0])
  then show ?thesis by (simp add: chainFolder_def codedFolder_def aesCoder_def lzma2Coder_def)
qed

text \<open>What the encryptor makes of the compressed bytes \<open>cb\<close>.\<close>

definition sealed :: "crypto \<Rightarrow> byte list \<Rightarrow> byte list \<Rightarrow> u64 \<Rightarrow> byte list \<Rightarrow> byte list \<Rightarrow> bool" where
  "sealed c password props n cb out \<longleftrightarrow>
     (\<exists>salt iv key. props = aesProps salt iv \<and> length salt = 8 \<and> length iv = 16
        \<and> deriveKey c 19 (salt @ utf16Encoder c password) = Inr key
        \<and> n = of_nat (length cb) \<and> out = cbcEnc c key iv (pad16 cb))"

definition storedAs :: "crypto \<Rightarrow> byte list \<Rightarrow> bool \<Rightarrow> byte list \<Rightarrow> u64 \<Rightarrow> byte list \<Rightarrow> byte list \<Rightarrow> bool" where
  "storedAs c password enc props n cb out \<longleftrightarrow>
     (if enc then sealed c password props n cb out else out = cb)"

lemma limitStream_small:
  assumes "length bs < 2 ^ 63"
  shows "limitStream (sint (of_nat (length bs) :: u64)) (bs @ zs, EOF) = (bs, EOF)"
proof -
  have "sint (of_nat (length bs) :: u64) = int (length bs)" using assms by (intro sint_of_nat) simp_all
  then show ?thesis by (simp add: limitStream_def)
qed

lemma coded_pipeline:
  assumes law: "lzma2_law L l" and laws: "block_law c" "cache_law kc view" "cacheSound c view cache"
    and impl: "impl LZMA2Reader = lzma2Decompressor l" "impl AESReader = aesDecompressor c kc cache"
    and d: "0 < d" "d \<le> 3 * 2 ^ 30" "d \<le> lzma2DictCap b" "b \<le> 39"
    and cb: "cb = lzAll L d conc ps" and st: "storedAs c password enc props n cb out"
    and small: "length cb < 2 ^ 63" "length (concat ps) < 2 ^ 63"
  defines "f \<equiv> codedFolder enc props b n (of_nat (length (concat ps)))"
  shows "fst (pipeline (registerAll impl) f password 0 (fo_coder f) (out, EOF) False) = Inr ((concat ps, EOF), enc)"
proof -
  have lz: "lzma2Decompressor l [b] sz [(cb, EOF)] = Inr (PlainStream (concat ps, EOF))" for sz
    unfolding cb by (rule lzma2_stage [OF law d])
  have lim: "limitStream (sint (of_nat (length (concat ps)) :: u64)) (concat ps, EOF) = (concat ps, EOF)"
    using limitStream_small [OF small(2), of "[]"] by simp
  show ?thesis
  proof (cases enc)
    case False
    then have "out = cb" using st by (simp add: storedAs_def)
    then show ?thesis
      using False lz lim
      by (simp add: f_def codedFolder_def coderReader_def lzma2Coder_def registered impl idx_def del: length_concat)
  next
    case True
    then obtain salt iv key where s: "props = aesProps salt iv" "length salt = 8" "length iv = 16"
      "deriveKey c 19 (salt @ utf16Encoder c password) = Inr key"
      "n = of_nat (length cb)" "out = cbcEnc c key iv (pad16 cb)"
      using st by (auto simp: storedAs_def sealed_def)
    from aes_stage [OF laws s(2-4)] obtain g where
      g: "aesDecompressor c kc cache props n [(out, EOF)] = Inr (CryptoStream g)" "fst (g password) = Inr (pad16 cb, EOF)"
      unfolding s(1,6) by blast
    obtain q where "g password = (Inr (pad16 cb, EOF), q)" using g(2) by (metis prod.collapse)
    note g = g(1) this
    have "limitStream (sint n) (pad16 cb, EOF) = (cb, EOF)"
      using limitStream_small [OF small(1)] by (simp add: pad16_def s(5))
    with g lz lim show ?thesis
      using True
      by (simp add: f_def codedFolder_def coderReader_def lzma2Coder_def aesCoder_def registered impl idx_def del: length_concat)
  qed
qed

text \<open>What the folders of a run need to be read: the ciphers, the library and the key cache keep their laws.\<close>

definition decodes ::
    "'z env \<Rightarrow> lzma2Lib \<Rightarrow> 'c keyCache \<Rightarrow> ('c \<Rightarrow> cacheKey \<Rightarrow> byte list option) \<Rightarrow> 'c
     \<Rightarrow> (decoder \<Rightarrow> decompressor) \<Rightarrow> bool" where
  "decodes en l kc view cache impl \<longleftrightarrow>
     lzma2_law (en_lzma en) l \<and> block_law (en_crypto en) \<and> cache_law kc view \<and> cacheSound (en_crypto en) view cache
     \<and> impl LZMA2Reader = lzma2Decompressor l \<and> impl AESReader = aesDecompressor (en_crypto en) kc cache"

lemma sealed_length:
  assumes "block_law c" and "sealed c password props n cb out"
  shows "length cb \<le> length out"
proof -
  obtain salt iv key where s: "length iv = 16" "deriveKey c 19 (salt @ utf16Encoder c password) = Inr key"
      "out = cbcEnc c key iv (pad16 cb)"
    using assms(2) unfolding sealed_def by blast
  then have k: "length key = 32" by (auto simp: deriveKey_def split: if_splits)
  have "length out = length (pad16 cb)"
    using length_cbcEnc [OF block_law_goodKey [OF assms(1) k] s(1)] length_pad16 [of cb] s(3)
    by (simp add: mod_eq_0_iff_dvd [THEN iffD2])
  then show ?thesis by (simp add: pad16_def)
qed

lemma coded_decodes:
  assumes dec: "decodes en l kc view cache impl"
    and d: "0 < d" "d \<le> 3 * 2 ^ 30" "d \<le> lzma2DictCap b" "b \<le> 39"
    and cb: "cb = lzAll (en_lzma en) d conc ps" and st: "storedAs (en_crypto en) password enc props n cb out"
    and small: "length out < 2 ^ 63" "length (concat ps) < 2 ^ 63" and m: "m = of_nat (length (concat ps))"
  shows "fst (pipeline (registerAll impl) (codedFolder enc props b n m) password 0
      (fo_coder (codedFolder enc props b n m)) (out, EOF) False) = Inr ((concat ps, EOF), enc)"
proof -
  have law: "lzma2_law (en_lzma en) l" and laws: "block_law (en_crypto en)" "cache_law kc view" "cacheSound (en_crypto en) view cache"
    and impl: "impl LZMA2Reader = lzma2Decompressor l" "impl AESReader = aesDecompressor (en_crypto en) kc cache"
    using dec by (simp_all add: decodes_def)
  have "length cb \<le> length out" using st sealed_length [OF laws(1)] by (auto simp: storedAs_def split: if_splits)
  then have cbs: "length cb < 2 ^ 63" using small(1) by simp
  show ?thesis unfolding m by (rule coded_pipeline [OF law laws impl d cb st cbs small(2)])
qed

text \<open>A complete folder of a run.\<close>

lemma folderHolds_decodes:
  assumes dec: "decodes en l kc view cache impl"
    and holds: "folderHolds en password f ps out" and closed: "fw_closed f"
    and small: "length out < 2 ^ 63" "length (concat ps) < 2 ^ 63" and total: "totalOf files f = of_nat (length (concat ps))"
  shows "fst (pipeline (registerAll impl) (folderOf files f) password 0 (fo_coder (folderOf files f)) (out, EOF) False)
      = Inr ((concat ps, EOF), fw_isEncrypted f)"
proof -
  obtain cb where cb: "compressedTo (en_lzma en) f ps cb"
    "if password = [] then fw_aesW f = None \<and> out = cb else encryptedTo (en_crypto en) password f cb out"
    and enc: "fw_isEncrypted f \<longleftrightarrow> password \<noteq> []"
    and pb: "fw_propByte f = encodeDictCap (en_lzma en) (fw_dictCap f)"
    and dc: "\<exists>solid sz. fw_dictCap f = chooseDictCap en solid sz"
    using holds by (auto simp: folderHolds_def)
  have law: "lzma2_law (en_lzma en) l" using dec by (simp add: decodes_def)
  have d: "0 < fw_dictCap f" "fw_dictCap f \<le> 3 * 2 ^ 30" using dc chooseDictCap_bounds [OF law] by auto
  then have b: "fw_dictCap f \<le> lzma2DictCap (fw_propByte f)" "fw_propByte f \<le> 39"
    using law by (simp_all add: pb lzma2_law_def)
  have "cb = lzAll (en_lzma en) (fw_dictCap f) (fw_concurrency f) ps" using cb(1) closed by (simp add: compressedTo_def)
  moreover have "storedAs (en_crypto en) password (fw_isEncrypted f) (fw_aesProps f) (fw_unencComp f) cb out"
    using cb(2) enc closed by (auto simp: storedAs_def sealed_def encryptedTo_def split: if_splits)
  ultimately show ?thesis unfolding folderOf_coded by (rule coded_decodes [OF dec d b _ _ small total])
qed

section \<open>The encoded header\<close>

definition headerStreams :: "bool \<Rightarrow> byte list \<Rightarrow> byte \<Rightarrow> nat \<Rightarrow> byte list \<Rightarrow> nat \<Rightarrow> u64 \<Rightarrow> streamsInfo" where
  "headerStreams enc props b n hb packed position =
     \<lparr>si_packInfo = Some \<lparr>pi_position = position, pi_streams = 1, pi_size = [of_nat packed], pi_digest = []\<rparr>,
      si_unpackInfo = Some \<lparr>ui_folder = [codedFolder enc props b (of_nat n) (of_nat (length hb))],
        ui_digest = [checksumIEEE hb]\<rparr>,
      si_subStreamsInfo = None\<rparr>"

lemma encodeHeader_coded:
  assumes law: "lzma2_law (en_lzma en) l" and lens: "length salt = 8" "length iv = 16"
    and small: "int (length hb) \<le> 3 * 2 ^ 30" and ne: "hb \<noteq> []"
  shows "\<exists>d b cb out. encodeHeader en password salt iv hb pos
      = (out, headerStreams (password \<noteq> []) (aesProps salt iv) b (length cb) hb (length out) pos)
    \<and> 0 < d \<and> d \<le> 3 * 2 ^ 30 \<and> d \<le> lzma2DictCap b \<and> b \<le> 39 \<and> cb = lzAll (en_lzma en) d 1 [hb]
    \<and> storedAs (en_crypto en) password (password \<noteq> []) (aesProps salt iv) (of_nat (length cb)) cb out"
proof -
  let ?L = "en_lzma en" and ?c = "en_crypto en"
  define t where "t = (if int (length hb) < minDictCap ?L then minDictCap ?L else int (length hb))"
  define b where "b = encodeDictCap ?L t"
  define d where "d = decodeDictCap ?L b"
  define cb where "cb = lzAll ?L d 1 [hb]"
  have "0 < t" "t \<le> 3 * 2 ^ 30" using small ne law by (auto simp: t_def lzma2_law_def)
  then have b: "b \<le> 39" using law by (simp add: b_def lzma2_law_def)
  then have d: "0 < d" "d \<le> 3 * 2 ^ 30" "d \<le> lzma2DictCap b"
    using law lzma2DictCap_39 [OF b] by (simp_all add: d_def lzma2_law_def)
  have comp: "compressHeaderLZMA2 en hb = (b, cb)"
    by (simp add: compressHeaderLZMA2_def t_def [symmetric] b_def [symmetric] d_def [symmetric] cb_def lzAll_def split_beta Let_def)
  show ?thesis
  proof (cases "password = []")
    case True
    then have "encodeHeader en password salt iv hb pos
        = (cb, headerStreams (password \<noteq> []) (aesProps salt iv) b (length cb) hb (length cb) pos)"
      by (simp add: encodeHeader_def comp headerStreams_def codedFolder_def)
    with True b d show ?thesis by (intro exI [of _ d] exI [of _ b] exI [of _ cb]) (simp add: storedAs_def cb_def)
  next
    case False
    obtain key where key: "deriveKey ?c 19 (salt @ utf16Encoder ?c password) = Inr key" using deriveKey_19 by blast
    define out where "out = cbcEnc ?c key iv (pad16 cb)"
    define aw o1 o2 where "aw = fst (aesWrite ?c (newAesWriter key iv) cb)" and "o1 = snd (aesWrite ?c (newAesWriter key iv) cb)"
      and "o2 = snd (aesClose ?c aw)"
    have "aesEncryptAll ?c key iv [cb] = o1 @ o2"
      by (simp add: aesEncryptAll_def split_beta Let_def aw_def o1_def o2_def)
    then have out: "o1 @ o2 = out" by (simp add: aesEncryptAll_cbc out_def)
    then have "length out = length o1 + length o2" by (metis length_append)
    with out have "encodeHeader en password salt iv hb pos
        = (out, headerStreams (password \<noteq> []) (aesProps salt iv) b (length cb) hb (length out) pos)"
      using False key
      by (simp add: encodeHeader_def comp headerStreams_def codedFolder_def split_beta Let_def
          aw_def [symmetric] o1_def [symmetric] o2_def [symmetric])
    moreover have "storedAs ?c password (password \<noteq> []) (aesProps salt iv) (of_nat (length cb)) cb out"
      using False lens key by (auto simp: storedAs_def sealed_def out_def)
    ultimately show ?thesis using b d by (intro exI [of _ d] exI [of _ b] exI [of _ cb] exI [of _ out]) (simp add: cb_def)
  qed
qed

section \<open>The bytes of a finished archive\<close>

lemma length_start [simp]: "length (startBytes st) = 20" "length (signatureBytes st) = 12"
  by (simp_all add: startBytes_def signatureBytes_def signature_def putUint64_def putUint32_def)

lemma readStartHeader_put: "readStartHeader (startBytes st) = st"
proof -
  have "length (putUint64 v) = 8" "length (putUint32 c) = 4" for v c by (simp_all add: putUint64_def putUint32_def)
  then show ?thesis by (simp add: readStartHeader_def startBytes_def)
qed

text \<open>Two writes at the start replace the first 32 bytes.\<close>

lemma rewind_write:
  assumes "32 \<le> length (sk_data s)" and "length a = 12" and "length b = 20"
  shows "sk_data (seekWrite (seekWrite (s\<lparr>sk_pos := 0\<rparr>) a) b) = a @ b @ drop 32 (sk_data s)"
proof -
  have "take 12 (sk_data s) = take 12 (sk_data s @ xs)" for xs using assms(1) by simp
  then show ?thesis using assms by (simp add: seekWrite_def)
qed

definition archiveStart :: "byte list \<Rightarrow> byte list \<Rightarrow> startHeader" where
  "archiveStart data metadata =
     \<lparr>sh_Offset = of_nat (length data), sh_Size = of_nat (length metadata), sh_CRC = checksumIEEE metadata\<rparr>"

definition archiveBytes :: "byte list \<Rightarrow> byte list \<Rightarrow> byte list \<Rightarrow> byte list" where
  "archiveBytes data metadata rest =
     signatureBytes (archiveStart data metadata) @ startBytes (archiveStart data metadata) @ data @ metadata @ rest"

lemma finish_layout:
  assumes fin: "finish en w salt iv = Inr w'" and ok: "skOk (w_w w)"
  shows "\<exists>bs packed info ms rest. writeHeader (buildHeader w) = Inr bs
    \<and> encodeHeader en (w_password w) salt iv (idHeader # bs) (of_nat (length (skBody (w_w w)))) = (packed, info)
    \<and> writeStreamsInfo info = Inr ms \<and> w' = w\<lparr>w_w := w_w w'\<rparr>
    \<and> sk_data (w_w w') = archiveBytes (skBody (w_w w) @ packed) (idEncodedHeader # ms) rest"
proof -
  let ?s = "w_w w"
  obtain bs where bs: "writeHeader (buildHeader w) = Inr bs" using fin by (auto simp: finish_def split: sum.splits)
  define pos :: u64 where "pos = of_int (int (sk_pos ?s) - 32)"
  obtain packed info where en: "encodeHeader en (w_password w) salt iv (idHeader # bs) pos = (packed, info)"
    by (cases "encodeHeader en (w_password w) salt iv (idHeader # bs) pos")
  obtain ms where ms: "writeStreamsInfo info = Inr ms"
    using fin bs en by (auto simp: finish_def pos_def Let_def split: sum.splits)
  let ?md = "idEncodedHeader # ms"
  let ?s1 = "seekWrite ?s packed" and ?s2 = "seekWrite (seekWrite ?s packed) ?md"
  note b1 = seekWrite_body [OF ok, of packed]
  note b2 = seekWrite_body [OF b1(1), of ?md]
  have p: "32 \<le> sk_pos ?s" using ok by (simp add: skOk_def)
  have body: "skBody ?s2 = skBody ?s @ packed @ ?md" by (simp only: b1(2) b2(2) append_assoc)
  have pos2: "sk_pos ?s2 = sk_pos ?s + length packed + length ?md" by (simp only: b1(3) b2(3))
  then have long: "sk_pos ?s2 \<le> length (sk_data ?s2)" using b2(1) p by (auto simp: skOk_def)
  have lb: "length (skBody ?s) = sk_pos ?s - 32"
    using ok by (auto simp: skBody_def skOk_def)
  have pos: "pos = of_nat (length (skBody ?s))" using p by (simp add: pos_def lb of_nat_diff)
  define st where "st = archiveStart (skBody ?s @ packed) ?md"
  have "of_int (int (sk_pos ?s1) - 32) = (of_nat (length (skBody ?s @ packed)) :: u64)"
    using p by (simp add: b1(3) lb of_nat_diff)
  then have w': "w' = w\<lparr>w_w := seekWrite (seekWrite (?s2\<lparr>sk_pos := 0\<rparr>) (signatureBytes st)) (startBytes st)\<rparr>"
    using fin unfolding finish_def bs sum.case Let_def pos_def [symmetric] en prod.case ms
    by (simp add: st_def archiveStart_def)
  define rest where "rest = drop (sk_pos ?s2 - 32) (drop 32 (sk_data ?s2))"
  have "drop 32 (sk_data ?s2) = skBody ?s2 @ rest"
    by (simp only: skBody_def rest_def append_take_drop_id)
  moreover have "32 \<le> length (sk_data ?s2)" using long pos2 p by simp
  then have "sk_data (w_w w') = signatureBytes st @ startBytes st @ drop 32 (sk_data ?s2)"
    using rewind_write [of ?s2 "signatureBytes st" "startBytes st"] by (simp add: w')
  ultimately have "sk_data (w_w w') = archiveBytes (skBody ?s @ packed) ?md rest"
    unfolding body by (simp add: archiveBytes_def st_def)
  moreover have "w' = w\<lparr>w_w := w_w w'\<rparr>" unfolding w' by simp
  ultimately show ?thesis using bs en ms unfolding pos by blast
qed

text \<open>The start of the archive is found and passes its checks.\<close>

lemma archive_found:
  fixes data metadata rest :: "byte list"
  defines "r \<equiv> archiveBytes data metadata rest"
  shows "findSignature r signature = Inr [0]"
    and "candidates r (int (length r)) [0] = Inr (0, archiveStart data metadata)"
proof -
  define st where "st = archiveStart data metadata"
  have r: "r = signatureBytes st @ startBytes st @ data @ metadata @ rest" by (simp add: r_def archiveBytes_def st_def)
  have "occurs r signature 0" by (simp add: occurs_def r signatureBytes_def signature_def)
  then show "findSignature r signature = Inr [0]" by (rule findSignature_first) (simp add: signature_def)
  have sec: "sectionBytes r (int 0) (int (length r) - int 0) = r" by (simp add: sectionBytes_def)
  have "take 4 (drop 8 (signatureBytes st)) = putUint32 (checksumIEEE (startBytes st))"
    by (simp add: signatureBytes_def signature_def putUint32_def)
  moreover have "binaryRead 12 r = Inr (signatureBytes st, startBytes st @ data @ metadata @ rest)"
    "binaryRead 20 (startBytes st @ data @ metadata @ rest) = Inr (startBytes st, data @ metadata @ rest)"
    by (simp_all add: binaryRead_def r)
  ultimately show "candidates r (int (length r)) [0] = Inr (0, archiveStart data metadata)"
    using sec by (simp add: CRC32Equal_sum readStartHeader_put st_def [symmetric])
qed

lemma archive_sections:
  fixes data metadata rest :: "byte list"
  defines "r \<equiv> archiveBytes data metadata rest"
  shows "sectionBytes r 32 (int (length data)) = data"
    and "sectionBytes r (int (32 + length data)) (int (length metadata)) = metadata"
proof -
  have "drop 32 r = data @ metadata @ rest" "drop (32 + length data) r = metadata @ rest"
    by (simp_all add: r_def archiveBytes_def)
  then show "sectionBytes r 32 (int (length data)) = data"
    and "sectionBytes r (int (32 + length data)) (int (length metadata)) = metadata"
    by (simp_all add: sectionBytes_def nat_add_distrib)
qed

text \<open>The metadata is short enough for the buffer of the reader.\<close>

lemma okStreamsInfo_header: "okStreamsInfo (headerStreams enc (aesProps salt iv) b n hb m pos)"
  if "length salt = 8" "length iv = 16"
  using that
  by (auto simp: okStreamsInfo_def headerStreams_def okPackInfo_def okUnpackInfo_def checkUint64_None codedFolder_def
      okFolder_def okCoder_def okBindPair_def aesCoder_def lzma2Coder_def findInBindPair_def upt_rec aesProps_def)

lemma writeFolder_short:
  assumes "length salt = 8" "length iv = 16"
  shows "length (writeFolder (codedFolder enc (aesProps salt iv) b n m)) \<le> 200"
proof -
  have u: "length (writeUint64 v) \<le> 9" for v using length_writeUint64 by simp
  show ?thesis
    using assms u [of 0] u [of 1] u [of 2] u [of 26] u [of "of_nat (length (aesProps salt iv))"]
    by (auto simp: codedFolder_def writeFolder_def writeCoder_def writeBindPair_def aesCoder_def lzma2Coder_def aesProps_def Let_def)
qed

lemma metadata_short:
  assumes "length salt = 8" "length iv = 16"
    and "writeStreamsInfo (headerStreams enc (aesProps salt iv) b n hb m pos) = Inr ms"
  shows "length ms < 4096"
proof -
  have u: "length (writeUint64 v) \<le> 9" for v using length_writeUint64 by simp
  have "length (writeFolder (codedFolder enc (aesProps salt iv) b (of_nat n) (of_nat (length hb)))) \<le> 200"
    by (rule writeFolder_short [OF assms(1,2)])
  moreover have "length (concat (map writeUint64 (fo_size (codedFolder enc (aesProps salt iv) b (of_nat n) (of_nat (length hb)))))) \<le> 18"
    using u [of "of_nat n"] u [of "of_nat (length hb)"] by (simp add: codedFolder_def)
  moreover have "length (crcBytes [checksumIEEE hb]) \<le> 5"
    by (simp add: crcBytes_def writeOptionalBool_def writeDefined_def putUint32_def)
  ultimately show ?thesis
    using assms(3) u [of pos] u [of 1] u [of "of_nat m"]
    by (auto simp: headerStreams_def writeStreamsInfo_def writePackInfo_def writeUnpackInfo_def writeSizes_def)
qed

section \<open>The encoded header is read\<close>

lemma packed_section:
  assumes "length (body @ out @ rest) < 2 ^ 63"
  shows "sectionBytes (body @ out @ rest) (int (length body)) (sint (of_nat (length out) :: u64)) = out"
  using assms sint_of_nat [of "length out"] by (simp add: sectionBytes_def)

lemma header_folder_read:
  assumes dec: "decodes en l kc view cache impl"
    and d: "0 < d" "d \<le> 3 * 2 ^ 30" "d \<le> lzma2DictCap b" "b \<le> 39"
    and cb: "cb = lzAll (en_lzma en) d 1 [hb]" and st: "storedAs (en_crypto en) password enc props (of_nat (length cb)) cb out"
    and small: "length (body @ out) < 2 ^ 63" "length hb < 2 ^ 63"
    and si: "si = headerStreams enc props b (length cb) hb (length out) (of_nat (length body))"
  shows "fst (folderReader (registerAll impl) (body @ out) si 0 password)
    = Inr (newFolderReadCloser (hb, EOF) (int (length hb)) enc, checksumIEEE hb)"
proof -
  let ?f = "codedFolder enc props b (of_nat (length cb)) (of_nat (length hb))"
  have off: "folderOffset si 0 = Inr (int (length body))"
    using small(1) sint_of_nat [of "length body"] by (simp add: folderOffset_def si headerStreams_def)
  have sz: "sint (of_nat (length hb) :: u64) = int (length hb)" by (rule sint_of_nat [OF small(2)])
  have sec: "sectionBytes (body @ out) (int (length body)) (sint (of_nat (length out) :: u64)) = out"
    using packed_section [of body out "[]"] small(1) by simp
  have pipe: "fst (pipeline (registerAll impl) ?f password 0 (fo_coder ?f) (out, EOF) False) = Inr ((hb, EOF), enc)"
    using coded_decodes [OF dec d cb st, of "of_nat (length hb)"] small by simp
  show ?thesis
    using folderReader_chain [where si = si and k = 0 and base = "int (length body)" and reg = "registerAll impl"
        and src = "body @ out" and password = password and n = "if enc then 2 else 1"
        and u = "\<lparr>ui_folder = [?f], ui_digest = [checksumIEEE hb]\<rparr>"
        and p = "\<lparr>pi_position = of_nat (length body), pi_streams = 1, pi_size = [of_nat (length out)], pi_digest = []\<rparr>"]
      chain_codedFolder off
    by (simp add: si headerStreams_def packedOffset_def sec pipe sz split_beta Let_def)
qed

lemma decodeHeader_back:
  assumes reg: "re_registry ren = registerAll impl"
    and fr: "fst (folderReader (registerAll impl) src si 0 password) = Inr (newFolderReadCloser (hb, EOF) n enc, checksumIEEE hb)"
    and one: "Folders (Some si) = 1"
    and h: "\<And>r. readEncodedHeader (re_ext ren) (feed hb r) = Inr (h, r)"
  shows "decodeHeader ren src si password = Inr h"
proof -
  have "readEncodedHeader (re_ext ren) (newBytesReader hb) = Inr (h, newBytesReader [])"
    using h [of "newBytesReader []"] by (simp add: newBytesReader_feed [of hb])
  moreover have "Checksum (advance (newFolderReadCloser (hb, EOF) n enc) (length hb)) = checksumIEEE hb"
    by (simp add: Checksum_def advance_def newFolderReadCloser_def checksumIEEE_def)
  ultimately show ?thesis
    using one by (simp add: decodeHeader_def reg fr CRC32Equal_sum newFolderReadCloser_def)
qed

lemma readMetadata_back:
  assumes ms: "writeStreamsInfo si = Inr ms" and ok: "okStreamsInfo si" and none: "si_subStreamsInfo si = None"
    and short: "length ms < 4096"
  shows "readMetadata ren src (newBufReader (idEncodedHeader # ms)) = Inr (Inr si, newBytesReader [])"
proof -
  have first: "readByte (newBufReader (idEncodedHeader # ms)) = Inr (idEncodedHeader, feed ms (newBytesReader []))"
    using short by (simp add: readByte_def newBufReader_def newBytesReader_def feed_def bufSize_def)
  have "normStreamsInfo si = si" by (simp add: normStreamsInfo_def none)
  with readStreamsInfo_write [OF ok] ms have "readStreamsInfo (feed ms r) = Inr (si, r)" for r
    by (auto elim!: readsBackE)
  then show ?thesis by (simp add: readMetadata_def pbind_Inr first preturn_def)
qed

lemma archive_opens:
  assumes dec: "decodes en l kc view cache impl" and reg: "re_registry ren = registerAll impl"
    and lens: "length salt = 8" "length iv = 16"
    and enc: "encodeHeader en password salt iv hb (of_nat (length body)) = (packed, info)"
    and ms: "writeStreamsInfo info = Inr ms" and hb: "hb \<noteq> []" "int (length hb) \<le> 3 * 2 ^ 30"
    and r: "r = archiveBytes (body @ packed) (idEncodedHeader # ms) rest" and small: "length r < 2 ^ 63"
    and h: "\<And>r. readEncodedHeader (re_ext ren) (feed hb r) = Inr (h, r)"
    and fi: "hd_filesInfo h = Some fi" and fs: "initFiles (hd_streamsInfo h) 0 0 0 (fi_file fi) = Inr fs"
  shows "NewReaderWithPassword ren r (int (length r)) password
    = Inr \<lparr>z_src = body @ packed, z_si = hd_streamsInfo h, z_p = password, z_File = fs,
           z_pool = initPools (re_numCPU ren) (hd_streamsInfo h) fs\<rparr>"
proof -
  let ?md = "idEncodedHeader # ms" and ?data = "body @ packed"
  have law: "lzma2_law (en_lzma en) l" using dec by (simp add: decodes_def)
  from encodeHeader_coded [OF law lens hb(2,1), of password "of_nat (length body)"] enc
  obtain d b cb where info: "info = headerStreams (password \<noteq> []) (aesProps salt iv) b (length cb) hb (length packed) (of_nat (length body))"
    and d: "0 < d" "d \<le> 3 * 2 ^ 30" "d \<le> lzma2DictCap b" "b \<le> 39" "cb = lzAll (en_lzma en) d 1 [hb]"
    "storedAs (en_crypto en) password (password \<noteq> []) (aesProps salt iv) (of_nat (length cb)) cb packed" by auto
  have len: "length r = 32 + length ?data + length ?md + length rest" by (simp add: r archiveBytes_def)
  have sizes: "length ?data < 2 ^ 63" "length ?md < 2 ^ 63" "length hb < 2 ^ 63" using small hb(2) by (simp_all add: len)
  note fr = header_folder_read [OF dec d sizes(1,3) info]
  have one: "Folders (Some info) = 1" by (simp add: info headerStreams_def Folders_def)
  note dh = decodeHeader_back [OF reg fr one h]
  have "length ms < 4096" using metadata_short [OF lens] ms by (simp add: info)
  moreover have "okStreamsInfo info" "si_subStreamsInfo info = None"
    using okStreamsInfo_header [OF lens] by (simp_all add: info headerStreams_def)
  ultimately have md: "readMetadata ren ?data (newBufReader ?md) = Inr (Inr info, newBytesReader [])"
    using readMetadata_back [OF ms] by simp
  have off: "sint (sh_Offset (archiveStart ?data ?md)) = int (length ?data)"
    "sint (sh_Size (archiveStart ?data ?md)) = int (length ?md)"
    using sint_of_nat [OF sizes(1)] sint_of_nat [OF sizes(2)] by (simp_all only: archiveStart_def startHeader.simps)
  have at: "int64 (sint (sh_Offset (archiveStart ?data ?md)) + 32) = int (32 + length ?data)"
    using small unfolding off by (subst int64_small) (simp_all add: len)
  have crc: "sh_CRC (archiveStart ?data ?md) = checksumIEEE ?md" by (simp add: archiveStart_def)
  have init: "readerInit ren r (int (length r)) password
    = Inr \<lparr>z_src = ?data, z_si = hd_streamsInfo h, z_p = password, z_File = fs,
           z_pool = initPools (re_numCPU ren) (hd_streamsInfo h) fs\<rparr>"
    using archive_found [of ?data ?md rest] archive_sections [of ?data ?md rest] md dh fi fs at off(2)
    by (simp add: readerInit_def r [symmetric] crc CRC32Equal_sum Let_def)
  then show ?thesis by (simp add: NewReaderWithPassword_def)
qed

end
