(* ===== verification/Archive_RoundTrip.thy ===== *)
theory Archive_RoundTrip
  imports Archive_Bytes
begin

unbundle bit_operations_syntax

text \<open>
  From the writer to the reader: the archive that a run of the writer leaves is opened by
  \<open>NewReaderWithPassword\<close>, every file lies where \<open>Reader.init\<close> looks for it, and is
  read back as it was written.
\<close>

section \<open>Where the files are\<close>

text \<open>Lists of lists: the place of an element in the concatenation.\<close>

lemma nth_slice:
  assumes "m < length xs"
  shows "take (length (xs ! m)) (drop (sum_list (map length (take m xs))) (concat xs)) = xs ! m"
proof -
  have "concat xs = concat (take m xs) @ xs ! m @ concat (drop (Suc m) xs)"
    using id_take_nth_drop [OF assms] by (metis concat.simps(2) concat_append)
  then show ?thesis by (simp add: length_concat)
qed

lemma filter_const: "filter (\<lambda>p. fst p = j) (map (Pair i) xs) = (if i = j then map (Pair i) xs else [])"
  by (induction xs) simp_all

lemma zip_replicate_Pair: "zip (replicate (length xs) i) xs = map (Pair i) xs"
  by (induction xs) simp_all

text \<open>What lies before the \<open>k\<close>-th element in its own list.\<close>

lemma sizes_before:
  fixes xss :: "nat list list" and i k :: nat
  assumes "k < length (concat xss)"
  defines "j \<equiv> folderOfFiles i (map length xss) ! k"
  shows "sum_list (map snd (filter (\<lambda>p. fst p = j) (take k (zip (folderOfFiles i (map length xss)) (concat xss)))))
    = sum_list (take (k - sum_list (take (j - i) (map length xss))) (xss ! (j - i)))"
  using assms(1) unfolding j_def
proof (induction xss arbitrary: i k)
  case (Cons xs xss)
  have zip: "zip (folderOfFiles i (map length (xs # xss))) (concat (xs # xss))
      = map (Pair i) xs @ zip (folderOfFiles (Suc i) (map length xss)) (concat xss)"
    by (simp add: zip_append zip_replicate_Pair)
  show ?case
  proof (cases "k < length xs")
    case True
    then show ?thesis unfolding zip by (simp add: nth_append take_map filter_const comp_def)
  next
    case False
    have k: "k - length xs < length (concat xss)" using Cons.prems False by simp
    then have k': "k - length xs < sum_list (map length xss)" by (simp add: length_concat)
    define m where "m = folderOfFiles (Suc i) (map length xss) ! (k - length xs)"
    have m: "Suc i \<le> m" using folderOfFiles_bounds [OF k', of "Suc i"] by (simp add: m_def)
    then have mi: "m - i = Suc (m - Suc i)" by simp
    have j: "folderOfFiles i (map length (xs # xss)) ! k = m" using False by (simp add: nth_append m_def)
    have none: "filter (\<lambda>p. fst p = m) (map (Pair i) xs) = []" using m by (simp add: filter_const)
    show ?thesis
      unfolding zip j mi using Cons.IH [OF k, of "Suc i"] False none by (simp add: m_def [symmetric])
  qed
qed simp

lemma sizesIn_filter:
  "sizesIn s fo j fhs = sum_list (map snd (filter (\<lambda>p. fst p = fo)
     (zip (map (folderAt s) [j..<j + streamsOf fhs]) (map (\<lambda>fh. unat (fh_UncompressedSize fh)) (filter (\<lambda>fh. hasStream fh) fhs)))))"
proof (induction s fo j fhs rule: sizesIn.induct)
  case (2 s fo j fh fhs)
  show ?case
  proof (cases "hasStream fh")
    case True
    then have "[j..<j + streamsOf (fh # fhs)] = j # [Suc j..<Suc j + streamsOf fhs]"
      by (simp add: streamsOf_def upt_rec)
    with 2 True show ?thesis by simp
  next
    case False
    then have "streamsOf (fh # fhs) = streamsOf fhs" by (simp add: streamsOf_def)
    with 2 False show ?thesis by auto
  qed
qed (simp add: streamsOf_def)

lemma filter_take_count:
  "filter P (take i xs) = take (length (filter P (take i xs))) (filter P xs)"
proof -
  have "filter P xs = filter P (take i xs) @ filter P (drop i xs)" by (metis append_take_drop_id filter_append)
  then show ?thesis by simp
qed

section \<open>The tables of a finished run\<close>

definition finalRun :: "'z env \<Rightarrow> 'z writer \<Rightarrow> byte list list \<Rightarrow> (nat \<Rightarrow> byte list list) \<Rightarrow> (nat \<Rightarrow> byte list) \<Rightarrow> bool" where
  "finalRun en w cs css outs \<longleftrightarrow>
     builtOk w \<and> entriesFinal w cs \<and> dataFinal en w cs css outs \<and> length (concat cs) < 2 ^ 63
     \<and> length (skBody (w_w w)) < 2 ^ 63"

lemma finalRunD:
  assumes "finalRun en w cs css outs"
  shows "builtOk w" "tablesOk w" "length (w_files w) = length cs" "w_files w \<noteq> []" "length (concat cs) < 2 ^ 63"
    and "i < length cs \<Longrightarrow> fl_uncompSize (w_files w ! i) = of_nat (length (cs ! i))"
    and "i < length cs \<Longrightarrow> \<not> fh_isEmptyFile (fl_fh (w_files w ! i))"
    and "dataFiles w = filter (\<lambda>i. hasData (w_files w ! i)) [0..<length cs]"
  using assms
  by (auto simp: finalRun_def builtOk_def entriesFinal_def tablesOk_def list_all_iff simp del: length_concat)

text \<open>The sizes of the files with data, by folder.\<close>

definition folderSizes :: "'z writer \<Rightarrow> byte list list \<Rightarrow> nat list list" where
  "folderSizes w cs = map (\<lambda>f. map (\<lambda>i. length (cs ! i)) (fw_files f)) (w_folders w)"

lemma length_nth_concat: "i < length cs \<Longrightarrow> length (cs ! i) \<le> length (concat cs)"
  by (induction cs arbitrary: i) (auto simp: nth_Cons split: nat.splits intro: trans_le_add2)

lemma storedFile_stream:
  assumes "finalRun en w cs css outs" and i: "i < length cs"
  shows "hasStream (storedFile (w_files w ! i)) \<longleftrightarrow> hasData (w_files w ! i)"
    and "hasData (w_files w ! i) \<Longrightarrow> unat (fh_UncompressedSize (storedFile (w_files w ! i))) = length (cs ! i)"
proof -
  note f = finalRunD [OF assms(1)]
  show "hasStream (storedFile (w_files w ! i)) \<longleftrightarrow> hasData (w_files w ! i)"
    using f(7) [OF i] by (simp add: storedFile_def parsedFile_def)
  have "length (cs ! i) < 2 ^ 64" using f(5) length_nth_concat [OF i] by simp
  then show "hasData (w_files w ! i) \<Longrightarrow> unat (fh_UncompressedSize (storedFile (w_files w ! i))) = length (cs ! i)"
    using f(6) [OF i] by (simp add: storedFile_def unat_of_nat)
qed

lemma stream_sizes:
  assumes fin: "finalRun en w cs css outs"
  shows "map (\<lambda>fh. unat (fh_UncompressedSize fh)) (filter (\<lambda>fh. hasStream fh) (map storedFile (w_files w)))
    = concat (folderSizes w cs)"
proof -
  note f = finalRunD [OF fin]
  have "map (\<lambda>fh. unat (fh_UncompressedSize fh)) (filter (\<lambda>fh. hasStream fh) (map storedFile (w_files w)))
      = map (\<lambda>i. unat (fh_UncompressedSize (storedFile (w_files w ! i))))
          (filter (\<lambda>i. hasStream (storedFile (w_files w ! i))) [0..<length cs])"
    using filter_indices [of "\<lambda>fi. unat (fh_UncompressedSize (storedFile fi))" "w_files w" "\<lambda>fi. hasStream (storedFile fi)"]
    by (simp add: filter_map comp_def f(3))
  also have "\<dots> = map (\<lambda>i. length (cs ! i)) (filter (\<lambda>i. hasData (w_files w ! i)) [0..<length cs])"
    using storedFile_stream [OF fin] by (intro map_cong filter_cong) auto
  also have "\<dots> = concat (folderSizes w cs)"
    unfolding f(8) [symmetric] folderSizes_def by (simp add: map_concat_files)
  finally show ?thesis .
qed

abbreviation headerFiles :: "'z writer \<Rightarrow> fileHeader list" where
  "headerFiles w \<equiv> map storedFile (w_files w)"

abbreviation headerTables :: "'z writer \<Rightarrow> streamsInfo" where
  "headerTables w \<equiv> normStreamsInfo (builtStreams w)"

lemma folderAt_built:
  assumes "builtOk w"
  shows "folderAt (headerTables w) k = folderOfFiles 0 (map length (map fw_files (w_folders w))) ! k"
proof -
  have ne: "w_files w \<noteq> []" using assms by (simp add: builtOk_def)
  obtain ss where ss: "si_subStreamsInfo (headerTables w) = Some ss"
    "folderAt (headerTables w) k = folderOfFiles 0 (map unat (ss_streams ss)) ! k"
    using folderAt_eq [OF okLookup_built [OF assms]] by blast
  then have "ss_streams ss = map (\<lambda>f. of_nat (length (fw_files f))) (w_folders w)"
    by (auto simp: normStreamsInfo_def builtStreams_eq(2) [OF ne] normSubStreams_def)
  then show ?thesis by (simp only: ss(2) built_streams_unat [OF assms])
qed

lemma folderSizes_lengths: "map length (folderSizes w cs) = map length (map fw_files (w_folders w))"
  by (simp add: folderSizes_def)

lemma concat_folderSizes: "concat (folderSizes w cs) = map (\<lambda>i. length (cs ! i)) (dataFiles w)"
  by (simp only: folderSizes_def map_concat_files)

lemma sum_filtered: "sum_list (map (\<lambda>i. length (cs ! i)) (filter P [0..<length cs])) \<le> length (concat cs)"
proof -
  have "sum_list (map (\<lambda>i. length (cs ! i)) (filter P is)) \<le> sum_list (map (\<lambda>i. length (cs ! i)) is)" for "is"
    by (induction "is") auto
  from this [of "[0..<length cs]"] have "sum_list (map (\<lambda>i. length (cs ! i)) (filter P [0..<length cs]))
      \<le> sum_list (map length (map ((!) cs) [0..<length cs]))" by (simp add: comp_def)
  then show ?thesis by (simp only: map_nth length_concat)
qed

text \<open>The number of a file with data among those before it.\<close>

lemma data_rank:
  assumes fin: "finalRun en w cs css outs" and i: "i < length cs" and data: "hasData (w_files w ! i)"
  defines "k \<equiv> streamsOf (take i (headerFiles w))"
  shows "k < length (dataFiles w)" and "dataFiles w ! k = i"
proof -
  note f = finalRunD [OF fin]
  have "take i (headerFiles w) = map (\<lambda>q. storedFile (w_files w ! q)) [0..<i]"
    using i f(3) by (intro nth_equalityI) simp_all
  then have "streamsOf (take i (headerFiles w)) = length (filter (\<lambda>q. hasStream (storedFile (w_files w ! q))) [0..<i])"
    by (simp add: streamsOf_def filter_map comp_def)
  also have "filter (\<lambda>q. hasStream (storedFile (w_files w ! q))) [0..<i] = filter (\<lambda>q. hasData (w_files w ! q)) [0..<i]"
    using i storedFile_stream(1) [OF fin] by (intro filter_cong) auto
  finally have k: "k = length (filter (\<lambda>q. hasData (w_files w ! q)) [0..<i])" by (simp add: k_def)
  have "[0..<length cs] = [0..<i] @ i # [Suc i..<length cs]"
    using i upt_add_eq_append [of 0 i "length cs - i"] by (simp add: upt_conv_Cons)
  then have "dataFiles w = filter (\<lambda>q. hasData (w_files w ! q)) [0..<i] @ i # filter (\<lambda>q. hasData (w_files w ! q)) [Suc i..<length cs]"
    using data unfolding f(8) by simp
  then show "k < length (dataFiles w)" and "dataFiles w ! k = i" by (simp_all only: k) (simp_all add: nth_append)
qed

text \<open>The folder and the offset that \<open>Reader.init\<close> computes for it.\<close>

lemma file_place:
  assumes fin: "finalRun en w cs css outs" and i: "i < length cs" and data: "hasData (w_files w ! i)"
  defines "j \<equiv> folderAt (headerTables w) (streamsOf (take i (headerFiles w)))"
  shows "\<exists>m. j < length (w_folders w) \<and> m < length (fw_files (w_folders w ! j)) \<and> fw_files (w_folders w ! j) ! m = i
    \<and> sizesIn (headerTables w) j 0 (take i (headerFiles w))
      = sum_list (map length (take m (map ((!) cs) (fw_files (w_folders w ! j)))))"
proof -
  note f = finalRunD [OF fin]
  define k where "k = streamsOf (take i (headerFiles w))"
  let ?lens = "map length (map fw_files (w_folders w))" and ?F = "folderOfFiles 0 (map length (map fw_files (w_folders w)))"
  have k: "k < length (dataFiles w)" "dataFiles w ! k = i" using data_rank [OF fin i data] by (simp_all only: k_def)
  have j: "j = ?F ! k" by (simp only: j_def k_def folderAt_built [OF f(1)])
  define m where "m = k - sum_list (take j ?lens)"
  have loc: "j < length (w_folders w)" "m < length (fw_files (w_folders w ! j))" "fw_files (w_folders w ! j) ! m = i"
    using concat_nth_folder [OF k(1), of 0] k(2)
    by (auto simp only: Let_def j [symmetric] minus_nat.diff_0 length_map nth_map m_def)
  have kl: "k < length (concat (folderSizes w cs))" using k(1) by (simp only: concat_folderSizes length_map)
  then have kF: "k \<le> length ?F" by (simp add: length_concat folderSizes_lengths [unfolded map_map])
  have at: "map (folderAt (headerTables w)) [0..<0 + k] = take k ?F"
    using kF by (intro nth_equalityI) (simp_all add: folderAt_built [OF f(1)])
  have "filter (\<lambda>fh. hasStream fh) (take i (headerFiles w)) = take k (filter (\<lambda>fh. hasStream fh) (headerFiles w))"
    unfolding k_def streamsOf_def by (rule filter_take_count)
  then have sz: "map (\<lambda>fh. unat (fh_UncompressedSize fh)) (filter (\<lambda>fh. hasStream fh) (take i (headerFiles w)))
      = take k (concat (folderSizes w cs))"
    by (simp only: take_map [symmetric] stream_sizes [OF fin])
  have "sizesIn (headerTables w) j 0 (take i (headerFiles w))
      = sum_list (map snd (filter (\<lambda>p. fst p = j) (take k (zip ?F (concat (folderSizes w cs))))))"
    unfolding sizesIn_filter k_def [symmetric] at sz by (simp only: take_zip)
  also have "\<dots> = sum_list (take m (folderSizes w cs ! j))"
    using sizes_before [OF kl, of 0] by (simp only: folderSizes_lengths j [symmetric] minus_nat.diff_0 m_def)
  also have "\<dots> = sum_list (map length (take m (map ((!) cs) (fw_files (w_folders w ! j)))))"
    using loc(1) by (simp add: folderSizes_def take_map comp_def)
  finally show ?thesis using loc by blast
qed

lemma totalSize_header:
  assumes fin: "finalRun en w cs css outs"
  shows "totalSize (headerFiles w) < 2 ^ 63" and "streamsOf (headerFiles w) \<le> fileCount (headerTables w)"
proof -
  note f = finalRunD [OF fin]
  have "totalSize (headerFiles w) = sum_list (concat (folderSizes w cs))"
    by (simp only: totalSize_def stream_sizes [OF fin])
  also have "\<dots> \<le> length (concat cs)" unfolding concat_folderSizes f(8) by (rule sum_filtered)
  finally show "totalSize (headerFiles w) < 2 ^ 63" using f(5) by simp
  have "streamsOf (headerFiles w) = length (concat (folderSizes w cs))"
    unfolding stream_sizes [OF fin, symmetric] by (simp only: streamsOf_def length_map)
  also have "\<dots> = length (dataFiles w)" by (simp only: concat_folderSizes length_map)
  finally show "streamsOf (headerFiles w) \<le> fileCount (headerTables w)" by (simp only: fileCount_built [OF f(1)])
qed

section \<open>The folders of the archive are read\<close>

lemma folder_content:
  assumes fin: "finalRun en w cs css outs" and k: "k < length (w_folders w)"
  shows "concat (css k) = concat (map ((!) cs) (fw_files (w_folders w ! k)))"
    and "totalOf (w_files w) (w_folders w ! k) = of_nat (length (concat (css k)))"
    and "length (concat (css k)) \<le> length (concat cs)"
proof -
  note f = finalRunD [OF fin]
  let ?is = "fw_files (w_folders w ! k)"
  show c: "concat (css k) = concat (map ((!) cs) ?is)"
    using fin k by (simp add: finalRun_def dataFinal_def foldersOk_def)
  have split: "dataFiles w = concat (map fw_files (take k (w_folders w))) @ ?is @ concat (map fw_files (drop (Suc k) (w_folders w)))"
    using id_take_nth_drop [OF k] by (metis concat.simps(2) concat_append list.simps(9) map_append)
  then have "set ?is \<subseteq> set (dataFiles w)" by auto
  then have "\<forall>i\<in>set ?is. i < length cs" unfolding f(8) by auto
  then have "map (\<lambda>i. fl_uncompSize (w_files w ! i)) ?is = map (\<lambda>i. of_nat (length (cs ! i))) ?is" using f(6) by simp
  moreover have "sum_list (map (\<lambda>i. of_nat (length (cs ! i))) is) = (of_nat (length (concat (map ((!) cs) is))) :: u64)" for "is"
    by (induction "is") simp_all
  ultimately show "totalOf (w_files w) (w_folders w ! k) = of_nat (length (concat (css k)))"
    unfolding c totalOf_def by (simp only:)
  have "length (concat (css k)) = sum_list (map (\<lambda>i. length (cs ! i)) ?is)" unfolding c by (simp add: length_concat comp_def)
  also have "\<dots> \<le> sum_list (map (\<lambda>i. length (cs ! i)) (dataFiles w))" unfolding split by simp
  also have "\<dots> \<le> length (concat cs)" unfolding f(8) by (rule sum_filtered)
  finally show "length (concat (css k)) \<le> length (concat cs)" .
qed

lemma body_split:
  assumes "k < n"
  shows "concat (map outs [0..<n]) = concat (map outs [0..<k]) @ outs k @ concat (map outs [Suc k..<n])"
proof -
  have "[0..<n] = [0..<k] @ k # [Suc k..<n]" using assms upt_add_eq_append [of 0 k "n - k"] by (simp add: upt_conv_Cons)
  then show ?thesis by simp
qed

lemma folder_offset_built:
  assumes fin: "finalRun en w cs css outs" and k: "k < length (w_folders w)"
  shows "folderOffset (headerTables w) k = Inr (int (length (concat (map outs [0..<k]))))"
    and "fw_compCount (w_folders w ! k) = of_nat (length (outs k))"
proof -
  note f = finalRunD [OF fin]
  let ?fs = "w_folders w"
  have cc: "fw_compCount (?fs ! j) = of_nat (length (outs j))" if "j < length ?fs" for j
    using fin that by (simp add: finalRun_def dataFinal_def foldersOk_def folderHolds_def)
  then show "fw_compCount (?fs ! k) = of_nat (length (outs k))" using k .
  have body: "skBody (w_w w) = concat (map outs [0..<length ?fs])" and small: "length (skBody (w_w w)) < 2 ^ 63"
    using fin unfolding finalRun_def dataFinal_def by blast+
  have le: "length (concat (map outs [0..<k])) < 2 ^ 63"
    using small unfolding body body_split [OF k] by simp
  have len: "length (outs j) < 2 ^ 64" if "j < length ?fs" for j
    using small unfolding body body_split [OF that] by simp
  have "map unat (take k (map fw_compCount ?fs)) = map (\<lambda>j. length (outs j)) [0..<k]"
    using cc len k by (intro nth_equalityI) (simp_all add: unat_of_nat)
  then have sum: "sum_list (map unat (take k (map fw_compCount ?fs))) = length (concat (map outs [0..<k]))"
    by (simp add: length_concat comp_def)
  have "fo_packedStreams (folderOf files f) = 1" for files and f :: "'a folderWriter" by (simp add: folderOf_cases)
  then have before: "packedBefore (map (folderOf (w_files w)) ?fs) k = k"
    using k by (simp add: packedBefore_def take_map comp_def sum_list_triv)
  have few: "length ?fs < 2 ^ 32" using tablesOk_counts(3) [OF f(2)] f(1) by (simp add: builtOk_def)
  show "folderOffset (headerTables w) k = Inr (int (length (concat (map outs [0..<k]))))"
    using folderOffset_sum [of "headerTables w" _ "\<lparr>ui_folder = map (folderOf (w_files w)) ?fs, ui_digest = []\<rparr>" k]
      before k few le sum by (simp add: normStreamsInfo_def builtStreams_eq(2) [OF f(4)])
qed

lemma folder_of_archive:
  assumes dec: "decodes en l kc view cache impl" and fin: "finalRun en w cs css outs"
    and small: "length (skBody (w_w w) @ packed) < 2 ^ 63" and k: "k < length (w_folders w)"
  shows "fst (folderReader (registerAll impl) (skBody (w_w w) @ packed) (headerTables w) k (w_password w))
    = Inr (newFolderReadCloser (concat (css k), EOF) (int (length (concat (css k)))) (fw_isEncrypted (w_folders w ! k)), 0)"
proof -
  note f = finalRunD [OF fin]
  let ?f = "folderOf (w_files w) (w_folders w ! k)" and ?src = "skBody (w_w w) @ packed"
  have holds: "folderHolds en (w_password w) (w_folders w ! k) (css k) (outs k)" "fw_closed (w_folders w ! k)"
    and body: "skBody (w_w w) = concat (map outs [0..<length (w_folders w)])"
    using fin k by (simp_all add: finalRun_def dataFinal_def foldersOk_def)
  have src: "?src = concat (map outs [0..<k]) @ outs k @ (concat (map outs [Suc k..<length (w_folders w)]) @ packed)"
    unfolding body body_split [OF k] by simp
  then have sec: "sectionBytes ?src (int (length (concat (map outs [0..<k])))) (sint (of_nat (length (outs k)) :: u64)) = outs k"
    using packed_section small by metis
  have out: "length (outs k) < 2 ^ 63" using small unfolding src by simp
  note c = folder_content [OF fin k]
  have content: "length (concat (css k)) < 2 ^ 63" using c(3) f(5) by simp
  note pipe = folderHolds_decodes [OF dec holds out content c(2)]
  have sz: "sint (unpackSize ?f) = int (length (concat (css k)))"
    unfolding unpackSize_folderOf c(2) by (rule sint_of_nat [OF content])
  have off: "packedOffset (map (folderOf (w_files w)) (w_folders w)) k = k"
    using k by (simp add: packedOffset_def take_map comp_def sum_list_triv folderOf_coded)
  have chain: "chainFolder (if fw_isEncrypted (w_folders w ! k) then 2 else 1) ?f"
    unfolding folderOf_coded by (rule chain_codedFolder)
  show ?thesis
    using folderReader_chain [where si = "headerTables w" and k = k and password = "w_password w" and src = ?src
        and u = "\<lparr>ui_folder = map (folderOf (w_files w)) (w_folders w), ui_digest = []\<rparr>" and reg = "registerAll impl"
        and p = "\<lparr>pi_position = 0, pi_streams = of_nat (length (w_folders w)),
            pi_size = map fw_compCount (w_folders w), pi_digest = []\<rparr>",
        OF _ _ _ _ _ folder_offset_built(1) [OF fin k]]
      chain k
    by (simp add: normStreamsInfo_def builtStreams_eq(2) [OF f(4)] off folder_offset_built(2) [OF fin k] sec pipe sz
        split_beta Let_def del: length_concat)
qed

section \<open>The files of the archive are read\<close>

lemma placed_simps:
  "hasStream fh \<Longrightarrow> f_folder (placed s k off fh) = folderAt s k" "hasStream fh \<Longrightarrow> f_offset (placed s k off fh) = int off"
  "fh_UncompressedSize (f_FileHeader (placed s k off fh)) = fh_UncompressedSize fh"
  "hasContent (placed s k off fh) \<longleftrightarrow> hasStream fh"
  "fh_Name (f_FileHeader (placed s k off fh)) = fh_Name (dirName fh)"
  by (simp_all add: placed_def dirName_def)

lemma dirName_stored: "fh_Name (dirName (storedFile fi)) = fh_Name (dirName (fl_fh fi))"
  by (simp add: dirName_def storedFile_def parsedFile_def Mode_def Let_def)

text \<open>Every file with data is the slice of its folder that was written to it.\<close>

lemma placed_slice:
  assumes fin: "finalRun en w cs css outs" and i: "i < length cs" and data: "hasData (w_files w ! i)"
  defines "k \<equiv> streamsOf (take i (headerFiles w))"
  defines "f \<equiv> placed (headerTables w) k (sizesIn (headerTables w) (folderAt (headerTables w) k) 0 (take i (headerFiles w)))
      (headerFiles w ! i)"
  shows "f_folder f < length (w_folders w)" and "fileWithin (concat (css (f_folder f))) f"
    and "fileSlice (concat (css (f_folder f))) f = cs ! i" and "fileSize f = int (length (cs ! i))"
proof -
  note d = finalRunD [OF fin]
  define j where "j = folderAt (headerTables w) k"
  have fh: "headerFiles w ! i = storedFile (w_files w ! i)" using i d(3) by simp
  have s: "hasStream (headerFiles w ! i)" unfolding fh using storedFile_stream(1) [OF fin i] data by simp
  obtain m where m: "j < length (w_folders w)" "m < length (fw_files (w_folders w ! j))" "fw_files (w_folders w ! j) ! m = i"
    "sizesIn (headerTables w) j 0 (take i (headerFiles w)) = sum_list (map length (take m (map ((!) cs) (fw_files (w_folders w ! j)))))"
    using file_place [OF fin i data] unfolding j_def k_def by blast
  let ?xs = "map ((!) cs) (fw_files (w_folders w ! j))"
  have f: "f_folder f = j" "f_offset f = int (sum_list (map length (take m ?xs)))"
    using placed_simps(1,2) [OF s] m(4) by (simp_all only: f_def j_def)
  show "f_folder f < length (w_folders w)" using m(1) by (simp only: f)
  have "unat (fh_UncompressedSize (headerFiles w ! i)) = length (cs ! i)"
    unfolding fh by (rule storedFile_stream(2) [OF fin i data])
  moreover have "length (cs ! i) < 2 ^ 63" using d(5) length_nth_concat [OF i] by simp
  ultimately show sz: "fileSize f = int (length (cs ! i))"
    by (simp only: f_def placed_simps(3)) (metis sint_small)
  have content: "concat (css j) = concat ?xs" by (rule folder_content(1) [OF fin m(1)])
  have xm: "?xs ! m = cs ! i" "m < length ?xs" using m(2,3) by simp_all
  note slice = nth_slice [OF xm(2), unfolded xm(1)]
  show "fileSlice (concat (css (f_folder f))) f = cs ! i"
    unfolding fileSlice_def sz f content using slice by simp
  have "concat ?xs = concat (take m ?xs) @ cs ! i @ concat (drop (Suc m) ?xs)"
    using id_take_nth_drop [OF xm(2)] xm(1) by (metis concat.simps(2) concat_append)
  then have "sum_list (map length (take m ?xs)) + length (cs ! i) \<le> length (concat ?xs)" by (simp add: length_concat)
  then show "fileWithin (concat (css (f_folder f))) f"
    unfolding fileWithin_def sz f content by simp
qed

text \<open>What a client gets who reads through a reader as it likes: the bytes, and how it goes on.\<close>

fun fileReads :: "fileReader \<Rightarrow> (nat \<times> nat) list \<Rightarrow> byte list \<times> fileReader" where
  "fileReads fr [] = ([], fr)"
| "fileReads fr ((g, m) # ms) =
     (let (bs, err, fr) = fileReaderRead g fr m; (cs, fr) = fileReads fr ms in (bs @ cs, fr))"

definition yields :: "fileReader \<Rightarrow> byte list \<Rightarrow> bool" where
  "yields fr c \<longleftrightarrow>
     (\<forall>ms bs fr'. fileReads fr ms = (bs, fr') \<longrightarrow>
        bs = take (length bs) c
        \<and> (\<forall>g m. 0 < m \<longrightarrow> (\<exists>q fr''.
             fileReaderRead g fr' m = (take q (drop (length bs) c), if length bs = length c then Some EOF else None, fr'')
             \<and> q \<le> m \<and> (length bs < length c \<longrightarrow> 0 < q))))"

lemma frcRead_rc: "rd_rc fr \<noteq> None \<Longrightarrow> fileReaderRead g fr m = (bs, err, fr') \<Longrightarrow> rd_rc fr' \<noteq> None"
  by (auto simp: fileReaderRead_def Let_def split: if_splits prod.splits option.splits)

lemma fileReads_delivered:
  assumes "filesWithin C z" and "delivered C z (fr, cs)" and "rd_rc fr \<noteq> None" and "fileReads fr ms = (bs, fr')"
  shows "delivered C z (fr', cs @ bs) \<and> rd_rc fr' \<noteq> None \<and> rd_f fr' = rd_f fr"
  using assms(2-)
proof (induction fr ms arbitrary: cs bs fr' rule: fileReads.induct)
  case (2 fr g m ms)
  obtain b1 e fr1 where r: "fileReaderRead g fr m = (b1, e, fr1)" by (cases "fileReaderRead g fr m")
  obtain b2 where b: "fileReads fr1 ms = (b2, fr')" "bs = b1 @ b2" using "2.prems"(3) r by (auto simp: split_beta Let_def prod_eq_iff)
  have step: "delivered C z (fr1, cs @ b1) \<and> rd_f fr1 = rd_f fr"
  proof (cases "m = 0")
    case True
    with r "2.prems"(1) show ?thesis by (simp add: fileReaderRead_def)
  next
    case False
    obtain rc where "rd_rc fr = Some rc" using "2.prems"(2) by blast
    from delivered_read [OF "2.prems"(1) assms(1) _ this, of m g] False r show ?thesis by auto
  qed
  have "rd_rc fr1 \<noteq> None" using frcRead_rc [OF "2.prems"(2) r] .
  from "2.IH" [OF r [symmetric] refl refl, of "cs @ b1" b2 fr'] step this b show ?case by auto
qed simp

lemma opened_yields:
  assumes pools: "poolsOk C z" and ok: "contentsOk reg C z" and i: "i < length (z_File z)" and ne: "hasContent (z_File z ! i)"
  shows "\<exists>fr z'. fileOpen reg z i = (Inr (FileReader fr), z') \<and> yields fr (sliceOf C z i)"
proof -
  obtain fr z' where o: "fileOpen reg z i = (Inr (FileReader fr), z')" "sameArchive z z'" "handleOk C z' fr"
    "rd_f fr = i" "rd_n fr = fileSize (z_File z ! i)" "rd_rc fr \<noteq> None"
    using fileOpen_ok [OF pools ok i ne] by blast
  have slice: "sliceOf C z' i = sliceOf C z i" using o(2) by (simp add: sliceOf_def sameArchive_def)
  note ok' = filesWithin_same [OF o(2) contentsOk_within [OF ok]]
  have d: "delivered C z' (fr, [])" using o by (simp add: delivered_def sameArchive_def)
  have "yields fr (sliceOf C z i)"
    unfolding yields_def
  proof (intro allI impI conjI)
    fix ms bs fr' assume r: "fileReads fr ms = (bs, fr')"
    from fileReads_delivered [OF ok' d o(6) r] o(4) have d': "delivered C z' (fr', bs)" "rd_rc fr' \<noteq> None" "rd_f fr' = i" by auto
    then show "bs = take (length bs) (sliceOf C z i)"
      unfolding slice [symmetric] by (simp add: delivered_def min_def take_all_iff)
    fix g m :: nat assume m: "0 < m"
    obtain rc where rc: "rd_rc fr' = Some rc" using d'(2) by blast
    from delivered_read [OF d'(1) ok' m rc, of g] d'(3)
    show "\<exists>q fr''. fileReaderRead g fr' m = (take q (drop (length bs) (sliceOf C z i)),
          if length bs = length (sliceOf C z i) then Some EOF else None, fr'')
        \<and> q \<le> m \<and> (length bs < length (sliceOf C z i) \<longrightarrow> 0 < q)"
      unfolding slice [symmetric] by blast
  qed
  with o(1) show ?thesis by blast
qed

section \<open>The round trip\<close>

lemma initPools_fresh:
  "length (initPools n si fs) = Folders si" "\<forall>p\<in>set (initPools n si fs). p = NoopPool \<or> (\<exists>n. p = Lru (newPool n))"
  by (auto simp: initPools_def)

text \<open>The archive that the reader makes of the tables and the data of a finished run.\<close>

lemma run_archive:
  assumes dec: "decodes en l kc view cache impl" and fin: "finalRun en w cs css outs"
    and small: "length (skBody (w_w w) @ packed) < 2 ^ 63"
  shows "\<exists>fs. initFiles (Some (headerTables w)) 0 0 0 (headerFiles w) = Inr fs \<and> length fs = length cs
    \<and> (let a = \<lparr>z_src = skBody (w_w w) @ packed, z_si = Some (headerTables w), z_p = w_password w, z_File = fs,
                z_pool = initPools n (Some (headerTables w)) fs\<rparr>
       in contentsOk (registerAll impl) (\<lambda>k. concat (css k)) a
          \<and> (\<forall>i<length cs. fh_Name (f_FileHeader (fs ! i)) = fh_Name (dirName (fl_fh (w_files w ! i)))
               \<and> (hasContent (fs ! i) \<longleftrightarrow> hasData (w_files w ! i))
               \<and> (hasData (w_files w ! i) \<longrightarrow> sliceOf (\<lambda>k. concat (css k)) a i = cs ! i)))"
proof -
  note d = finalRunD [OF fin]
  have order: "\<forall>k. 0 \<le> k \<and> k < fileCount (headerTables w) \<longrightarrow> 0 \<le> folderAt (headerTables w) k" by simp
  from initFiles_layout [OF okLookup_built [OF d(1)], of 0 "headerFiles w" 0 0] totalSize_header [OF fin]
  obtain fs where fs: "initFiles (Some (headerTables w)) 0 0 0 (headerFiles w) = Inr fs" "length fs = length cs"
    and nth: "\<And>i. i < length cs \<Longrightarrow> fs ! i = placed (headerTables w) (streamsOf (take i (headerFiles w)))
       (sizesIn (headerTables w) (folderAt (headerTables w) (streamsOf (take i (headerFiles w)))) 0 (take i (headerFiles w)))
       (headerFiles w ! i)"
    using d(3) by (auto simp: Let_def)
  let ?C = "\<lambda>k. concat (css k)"
  define a where "a = \<lparr>z_src = skBody (w_w w) @ packed, z_si = Some (headerTables w), z_p = w_password w, z_File = fs,
      z_pool = initPools n (Some (headerTables w)) fs\<rparr>"
  have z: "z_File a = fs" by (simp add: a_def)
  have folders: "length (z_pool a) = length (w_folders w)"
    by (simp add: a_def initPools_fresh Folders_def normStreamsInfo_def builtStreams_eq(2) [OF d(4)])
  have content: "hasContent (fs ! i) \<longleftrightarrow> hasData (w_files w ! i)" if "i < length cs" for i
    unfolding nth [OF that] placed_simps(4) using storedFile_stream(1) [OF fin that] that d(3) by simp
  have name: "fh_Name (f_FileHeader (fs ! i)) = fh_Name (dirName (fl_fh (w_files w ! i)))" if "i < length cs" for i
    unfolding nth [OF that] placed_simps(5) using that d(3) by (simp add: dirName_stored)
  have slice: "f_folder (fs ! i) < length (w_folders w)" "fileWithin (?C (f_folder (fs ! i))) (fs ! i)"
    "fileSlice (?C (f_folder (fs ! i))) (fs ! i) = cs ! i" if "i < length cs" "hasData (w_files w ! i)" for i
    unfolding nth [OF that(1)] by (rule placed_slice [OF fin that])+
  have files: "f_folder f < length (w_folders w) \<and> fileWithin (?C (f_folder f)) f" if f: "f \<in> set fs" "hasContent f" for f
  proof -
    obtain i where "i < length fs" "fs ! i = f" using f(1) by (auto simp: in_set_conv_nth)
    then show ?thesis using slice [of i] content [of i] f(2) fs(2) by auto
  qed
  have "folderContent (registerAll impl) a k (?C k)" if k: "k < length (w_folders w)" for k
  proof -
    have "fst (archiveFolderReader (registerAll impl) a k) = Inr (newFolderReadCloser (concat (css k), EOF)
        (int (length (concat (css k)))) (fw_isEncrypted (w_folders w ! k)), 0)"
      using folder_of_archive [OF dec fin small k] by (simp add: archiveFolderReader_def a_def split_beta Let_def)
    moreover have "length (concat (css k)) < 2 ^ 63" using folder_content(3) [OF fin k] d(5) by simp
    then have "int (length (concat (css k))) < 2 ^ 63" by simp
    ultimately show ?thesis
      unfolding folderContent_def z using files by blast
  qed
  then have "contentsOk (registerAll impl) ?C a" unfolding contentsOk_def folders z using files by blast
  moreover have "sliceOf ?C a i = cs ! i" if "i < length cs" "hasData (w_files w ! i)" for i
    using slice(3) [OF that] by (simp add: sliceOf_def z)
  ultimately show ?thesis
    using fs content name by (intro exI [of _ fs]) (simp only: Let_def a_def [symmetric], blast)
qed

text \<open>What a writer leaves behind when it has been closed.\<close>

lemma closed_writer:
  assumes run: "writerRun en (newWriter s solid password concurrency) w cs"
    and closed: "\<forall>i<length cs - 1. fr_closed (w_fileWriters w ! i)"
    and fin: "writerClose en w salt iv = Inr w'"
    and data: "w_folders w' \<noteq> []"
    and few: "length cs < 2 ^ 32" "length (concat cs) < 2 ^ 63" "length (sk_data (w_w w')) < 2 ^ 63"
  obtains v css outs bs packed info ms rest
  where "closeStreams en (w\<lparr>w_closed := True\<rparr>) = Inr v" and "w' = v\<lparr>w_w := w_w w'\<rparr>" and "w_password v = password"
    and "finalRun en v cs css outs" and "length (skBody (w_w v) @ packed) < 2 ^ 63"
    and "writeHeader (buildHeader v) = Inr bs" and "writeStreamsInfo info = Inr ms"
    and "encodeHeader en password salt iv (idHeader # bs) (of_nat (length (skBody (w_w v)))) = (packed, info)"
    and "sk_data (w_w w') = archiveBytes (skBody (w_w v) @ packed) (idEncodedHeader # ms) rest"
proof -
  from writerRun_data [OF run] obtain css outs0 where
    pw: "w_password w = password" "\<not> w_closed w" and inv: "dataInv en w cs css outs0" by (auto simp: settings_def)
  obtain v where v: "closeStreams en (w\<lparr>w_closed := True\<rparr>) = Inr v" and fv: "finish en v salt iv = Inr w'"
    using fin pw(2) by (auto simp: writerClose_def split: sum.splits)
  from closeStreams_data [OF writerRun_inv [OF run] inv v closed] pw(1) obtain outs where
    pv: "w_password v = password" and df: "dataFinal en v cs css outs" by blast
  have ef: "entriesFinal v cs" by (rule closeStreams_final [OF writerRun_inv [OF run] v closed])
  have ok: "skOk (w_w v)" using df by (simp add: dataFinal_def)
  from finish_layout [OF fv ok] obtain bs packed info ms rest where
    bs: "writeHeader (buildHeader v) = Inr bs"
    and enc: "encodeHeader en password salt iv (idHeader # bs) (of_nat (length (skBody (w_w v)))) = (packed, info)"
    and ms: "writeStreamsInfo info = Inr ms" and w': "w' = v\<lparr>w_w := w_w w'\<rparr>"
    and r: "sk_data (w_w w') = archiveBytes (skBody (w_w v) @ packed) (idEncodedHeader # ms) rest"
    unfolding pv by blast
  have folders: "w_folders w' = w_folders v" by (subst w') simp
  have small: "length (skBody (w_w v) @ packed) < 2 ^ 63" using few(3) by (simp add: r archiveBytes_def)
  have "w_files v \<noteq> []"
    using ef data folders by (cases "w_folders v") (auto simp: entriesFinal_def tablesOk_def folderTableOk_def)
  then have "finalRun en v cs css outs"
    using ef df few data folders small by (simp add: finalRun_def builtOk_def entriesFinal_def)
  from that [OF v w' pv this small bs ms enc r] show ?thesis .
qed

text \<open>
  C1: The round trip of an archive with at least one entry that is not a directory
  (\<open>w_folders w' \<noteq> []\<close>; theory \<open>Writer_Header\<close> shows that an archive of directories only cannot be read).
  Take any run of a client over a new writer, in solid, sequential or concurrent mode, with or
  without a password, in which the client has closed its files, all of them except perhaps the
  last, and then the writer, without an error. Let the entries be storable: their names are
  UTF-8 without a zero byte and shorter than 64 KiB, and their times are zero or fit into 64 bits of
  nanoseconds. Let there be fewer than \<open>2 ^ 32\<close> entries, let their contents and the archive
  be shorter than \<open>2 ^ 63\<close> bytes and the header than 3 GiB. Then the
  bytes at the destination are opened by the reader with the same password, the archive lists
  every entry in the order of creation under its name, and every entry with data can be
  opened, as the first of the archive, and yields exactly the bytes that were written to it, in
  reads of any sizes, and then the end. (Theory \<open>File_Reader\<close> is about opening several files of
  one archive.)
  This rests on the laws of the LZMA2 library, of the block cipher and the key cache
  (\<open>decodes\<close>), of the UTF-16 decoder and of the file times.
\<close>

theorem written_archive_reads_back:
  assumes run: "writerRun en (newWriter s solid password concurrency) w cs"
    and closed: "\<forall>i<length cs - 1. fr_closed (w_fileWriters w ! i)"
    and fin: "writerClose en w salt iv = Inr w'" and lens: "length salt = 8" "length iv = 16"
    and dec: "decodes en l kc view cache impl" and reg: "re_registry ren = registerAll impl"
    and laws: "utf16_law (utf16Decode (re_ext ren))" "filetime_law (filetimeNanoseconds (re_ext ren))"
    and data: "w_folders w' \<noteq> []" and names: "list_all (\<lambda>fi. storable (fl_fh fi)) (w_files w')"
    and few: "length cs < 2 ^ 32" "length (concat cs) < 2 ^ 63" "length (sk_data (w_w w')) < 2 ^ 63"
    and header: "\<forall>bs. writeHeader (buildHeader w') = Inr bs \<longrightarrow> int (length bs) < 3 * 2 ^ 30"
  shows "\<exists>a. NewReaderWithPassword ren (sk_data (w_w w')) (int (length (sk_data (w_w w')))) password = Inr a
    \<and> length (z_File a) = length cs
    \<and> (\<forall>i<length cs. fh_Name (f_FileHeader (z_File a ! i)) = fh_Name (dirName (fl_fh (w_files w' ! i)))
         \<and> (hasContent (z_File a ! i) \<longleftrightarrow> hasData (w_files w' ! i))
         \<and> (hasData (w_files w' ! i) \<longrightarrow>
              (\<exists>fr a'. fileOpen (registerAll impl) a i = (Inr (FileReader fr), a') \<and> yields fr (cs ! i))))"
proof -
  from closed_writer [OF run closed fin data few] obtain v css outs bs packed info ms rest where
    v: "closeStreams en (w\<lparr>w_closed := True\<rparr>) = Inr v" and w': "w' = v\<lparr>w_w := w_w w'\<rparr>" and pv: "w_password v = password"
    and final: "finalRun en v cs css outs" and small: "length (skBody (w_w v) @ packed) < 2 ^ 63"
    and bs: "writeHeader (buildHeader v) = Inr bs" and ms: "writeStreamsInfo info = Inr ms"
    and enc: "encodeHeader en password salt iv (idHeader # bs) (of_nat (length (skBody (w_w v)))) = (packed, info)"
    and r: "sk_data (w_w w') = archiveBytes (skBody (w_w v) @ packed) (idEncodedHeader # ms) rest" .
  have same: "w_files w' = w_files v" "w_folders w' = w_folders v" "buildHeader w' = buildHeader v"
    by (subst w'; simp add: buildHeader_def)+
  from header_of_run [OF run closed v few(1) data [unfolded same] names [unfolded same] laws] bs
  have h: "\<And>r. readEncodedHeader (re_ext ren) (feed (idHeader # bs) r) = Inr (readBackHeader v, r)" by simp
  from run_archive [OF dec final small, of "re_numCPU ren"] obtain fs where
    fs: "initFiles (Some (headerTables v)) 0 0 0 (headerFiles v) = Inr fs" "length fs = length cs"
    and arch: "let a = \<lparr>z_src = skBody (w_w v) @ packed, z_si = Some (headerTables v), z_p = password, z_File = fs,
                z_pool = initPools (re_numCPU ren) (Some (headerTables v)) fs\<rparr>
       in contentsOk (registerAll impl) (\<lambda>k. concat (css k)) a
          \<and> (\<forall>i<length cs. fh_Name (f_FileHeader (fs ! i)) = fh_Name (dirName (fl_fh (w_files v ! i)))
               \<and> (hasContent (fs ! i) \<longleftrightarrow> hasData (w_files v ! i))
               \<and> (hasData (w_files v ! i) \<longrightarrow> sliceOf (\<lambda>k. concat (css k)) a i = cs ! i))"
    unfolding pv by blast
  define a where "a = \<lparr>z_src = skBody (w_w v) @ packed, z_si = Some (headerTables v), z_p = password, z_File = fs,
                z_pool = initPools (re_numCPU ren) (Some (headerTables v)) fs\<rparr>"
  have c: "contentsOk (registerAll impl) (\<lambda>k. concat (css k)) a"
    and each: "\<And>i. i < length cs \<Longrightarrow> fh_Name (f_FileHeader (fs ! i)) = fh_Name (dirName (fl_fh (w_files v ! i)))
               \<and> (hasContent (fs ! i) \<longleftrightarrow> hasData (w_files v ! i))
               \<and> (hasData (w_files v ! i) \<longrightarrow> sliceOf (\<lambda>k. concat (css k)) a i = cs ! i)"
    using arch unfolding Let_def a_def [symmetric] by blast+
  have z: "z_File a = fs" by (simp add: a_def)
  have "poolsOk (\<lambda>k. concat (css k)) a" using initPools_fresh(2) by (intro fresh_pools) (simp add: a_def)
  note opens = opened_yields [OF this c, unfolded z fs(2)]
  have hb: "int (length (idHeader # bs)) \<le> 3 * 2 ^ 30" using header bs by (simp add: same)
  have "NewReaderWithPassword ren (sk_data (w_w w')) (int (length (sk_data (w_w w')))) password = Inr a"
    using archive_opens [OF dec reg lens enc ms _ hb r few(3) h, of "\<lparr>fi_file = headerFiles v\<rparr>" fs] fs(1)
    by (simp add: readBackHeader_def a_def)
  moreover have "\<exists>fr a'. fileOpen (registerAll impl) a i = (Inr (FileReader fr), a') \<and> yields fr (cs ! i)"
    if "i < length cs" "hasData (w_files v ! i)" for i
    using opens [OF that(1)] each [OF that(1)] that(2) by simp
  ultimately show ?thesis using each fs(2) unfolding same(1) z [symmetric] by blast
qed

text \<open>The example run of \<open>Writer_Invariant\<close>, closed, with a library that stores.\<close>

definition storeLib :: lzma2Lib where
  "storeLib = \<lparr>l2_verify = \<lambda>d. None, l2_open = \<lambda>d s. Inr s\<rparr>"

definition storeDecoders :: "decoder \<Rightarrow> decompressor" where
  "storeDecoders = noDecoders(LZMA2Reader := lzma2Decompressor storeLib, AESReader := aesDecompressor plainCrypto listCache [])"

definition exampleReader :: reader_env where
  "exampleReader = \<lparr>re_registry = registerAll storeDecoders, re_ext = plainExternals, re_numCPU = 1\<rparr>"

definition closedRun :: "unit writer" where
  "closedRun = getOk (writerClose plainEnv exampleRun (replicate 8 0) (replicate 16 0))"

lemma lzRun_store: "lzRun storeLzma z ps = (z, concat ps)"
  by (induction ps arbitrary: z) (simp_all add: storeLzma_def)

lemma lzma2_law_store: "lzma2_law storeLzma storeLib"
proof -
  have "decodeDictCap storeLzma b = lzma2DictCap b" if "b \<le> 39" for b
  proof -
    have "b \<le> 40" using that by (simp add: word_le_nat_alt)
    then show ?thesis by (simp add: storeLzma_def lzma2DictCap_eq(1))
  qed
  moreover have "lzma2DictCap 22 = 8388608" "lzma2DictCap 39 = 3221225472"
    using lzma2DictCap_eq(1) [of 22] lzma2DictCap_eq(1) [of 39] by simp_all
  moreover have "lzAll storeLzma d c ps = concat ps" for d c ps
    by (simp add: lzAll_def lzRun_store) (simp add: storeLzma_def)
  ultimately show ?thesis
    by (simp add: lzma2_law_def storeLib_def) (simp add: storeLzma_def)
qed

lemma decodes_store: "decodes plainEnv storeLib listCache map_of [] storeDecoders"
proof -
  have "en_lzma plainEnv = storeLzma" "en_crypto plainEnv = plainCrypto" by (simp_all add: plainEnv_def)
  then show ?thesis
    using lzma2_law_store plain_laws by (simp add: decodes_def storeDecoders_def)
qed

lemma length_seekWrite: "length (sk_data (seekWrite s bs)) = max (length (sk_data s)) (sk_pos s + length bs)"
  by (auto simp: seekWrite_def)

text \<open>\<open>Close\<close> succeeds once the header is written, and adds the two headers to the archive.\<close>

lemma finish_done:
  assumes law: "lzma2_law (en_lzma en) l" and lens: "length salt = 8" "length iv = 16"
    and bs: "writeHeader (buildHeader w) = Inr bs" and small: "int (length bs) < 3 * 2 ^ 30"
  shows "\<exists>w' packed info. finish en w salt iv = Inr w' \<and> w_folders w' = w_folders w \<and> w_files w' = w_files w
    \<and> encodeHeader en (w_password w) salt iv (idHeader # bs) (of_int (int (sk_pos (w_w w)) - 32)) = (packed, info)
    \<and> length (sk_data (w_w w')) \<le> length (sk_data (w_w w)) + sk_pos (w_w w) + length packed + 8192"
proof -
  let ?pos = "of_int (int (sk_pos (w_w w)) - 32) :: u64"
  have hb: "int (length (idHeader # bs)) \<le> 3 * 2 ^ 30" "idHeader # bs \<noteq> []" using small by simp_all
  from encodeHeader_coded [OF law lens hb, of "w_password w" ?pos]
  obtain b packed and cb :: "byte list" where enc: "encodeHeader en (w_password w) salt iv (idHeader # bs) ?pos
      = (packed, headerStreams (w_password w \<noteq> []) (aesProps salt iv) b (length cb) (idHeader # bs) (length packed) ?pos)"
    by blast
  let ?info = "headerStreams (w_password w \<noteq> []) (aesProps salt iv) b (length cb) (idHeader # bs) (length packed) ?pos"
  obtain ms where ms: "writeStreamsInfo ?info = Inr ms"
    using readStreamsInfo_write [OF okStreamsInfo_header [OF lens]] by (rule readsBackE)
  have short: "length ms < 4096" by (rule metadata_short [OF lens ms])
  have "\<exists>w'. finish en w salt iv = Inr w' \<and> w_folders w' = w_folders w \<and> w_files w' = w_files w
      \<and> length (sk_data (w_w w')) \<le> length (sk_data (w_w w)) + sk_pos (w_w w) + length packed + 8192"
    unfolding finish_def bs sum.case Let_def enc prod.case ms using short
    by (simp add: length_seekWrite) (simp add: seekWrite_def)
  with enc show ?thesis by blast
qed

text \<open>The entry of one file with a name of one letter.\<close>

lemma files_short:
  assumes "fi_file f = [fh]" and "\<not> fh_isEmptyStream fh" and "fh_Created fh = zeroTime" "fh_Accessed fh = zeroTime"
    "fh_Modified fh = zeroTime" and "fh_Attributes fh = 0" and "fh_Name fh = [b]"
  shows "length (writeFilesInfo f) \<le> 100"
proof -
  have u: "length (writeUint64 v) \<le> 9" for v using length_writeUint64 by simp
  let ?n = "utf16le (utf16Encode (runes [b]))"
  have "length ?n \<le> 4 * length (runes [b])" by (rule length_utf16)
  also have "\<dots> \<le> 4" using length_runes [of "[b]"] by simp
  finally have n: "length ?n \<le> 4" .
  have "length (writeNames f) \<le> 20"
    using n u [of "of_nat (length (0 # ?n @ [0, 0]))"] by (simp add: writeNames_def propBytes_def assms)
  then show ?thesis
    using u [of "of_nat (length (fi_file f))"] assms
    by (simp add: writeFilesInfo_def writeEmptyStreams_def writeAttributes_def hasTime_def)
qed

theorem written_archive_reads_back_witness:
  "\<exists>a fr a'. NewReaderWithPassword exampleReader (sk_data (w_w closedRun)) (int (length (sk_data (w_w closedRun)))) [] = Inr a
    \<and> fileOpen (registerAll storeDecoders) a 0 = (Inr (FileReader fr), a') \<and> yields fr [7]"
proof -
  let ?salt = "replicate 8 (0::byte)" and ?iv = "replicate 16 (0::byte)"
  define v where "v = getOk (closeStreams plainEnv (exampleRun\<lparr>w_closed := True\<rparr>))"
  have all: "(case closeStreams plainEnv (exampleRun\<lparr>w_closed := True\<rparr>) of
       Inr w \<Rightarrow> \<not> w_closed exampleRun \<and> length (w_folders w) = 1 \<and> length (sk_data (w_w w)) = 33 \<and> sk_pos (w_w w) = 33 \<and> w_password w = []
         \<and> (case writeStreamsInfo (the (hd_streamsInfo (buildHeader w))) of Inr bs \<Rightarrow> length bs < 1000 | Inl _ \<Rightarrow> False)
         \<and> map (\<lambda>fi. (hasData fi, fh_Name (fl_fh fi), fh_Created (fl_fh fi), fh_Accessed (fl_fh fi), fh_Modified (fl_fh fi), fh_Attributes (fl_fh fi))) (w_files w)
           = [(True, [0x61], zeroTime, zeroTime, zeroTime, 0)]
     | Inl _ \<Rightarrow> False)" by code_simp
  then have v: "closeStreams plainEnv (exampleRun\<lparr>w_closed := True\<rparr>) = Inr v"
    unfolding v_def by (intro getOk_ok) (simp split: sum.splits)
  with all obtain sb where run: "\<not> w_closed exampleRun" "length (w_folders v) = 1" "length (sk_data (w_w v)) = 33" "sk_pos (w_w v) = 33"
    "w_password v = []" "writeStreamsInfo (builtStreams v) = Inr sb" "length sb < 1000"
    "map (\<lambda>fi. (hasData fi, fh_Name (fl_fh fi), fh_Created (fl_fh fi), fh_Accessed (fl_fh fi), fh_Modified (fl_fh fi), fh_Attributes (fl_fh fi))) (w_files v)
           = [(True, [0x61], zeroTime, zeroTime, zeroTime, 0)]" by (auto simp: builtStreams_def split: sum.splits)
  then obtain fi where fi: "w_files v = [fi]" "hasData fi" "fh_Name (fl_fh fi) = [0x61]" "fh_Created (fl_fh fi) = zeroTime"
    "fh_Accessed (fl_fh fi) = zeroTime" "fh_Modified (fl_fh fi) = zeroTime" "fh_Attributes (fl_fh fi) = 0"
    by (auto simp: map_eq_Cons_conv)
  define bs where "bs = (idMainStreamsInfo # sb) @ (idFilesInfo # writeFilesInfo \<lparr>fi_file = [fl_fh fi]\<rparr>) @ [idEnd]"
  have bs: "writeHeader (buildHeader v) = Inr bs"
    using builtStreams_eq(1) [of v] run(6) fi(1) by (simp add: writeHeader_def bs_def)
  have short: "length bs < 2000"
    using files_short [where f = "\<lparr>fi_file = [fl_fh fi]\<rparr>" and fh = "fl_fh fi"] fi run(7) by (simp add: bs_def)
  have law: "lzma2_law (en_lzma plainEnv) storeLib" using decodes_store by (simp add: decodes_def)
  from finish_done [OF law _ _ bs, where salt = ?salt and iv = ?iv] short obtain w' packed info where
    fin: "finish plainEnv v ?salt ?iv = Inr w'" "w_folders w' = w_folders v" "w_files w' = w_files v"
      "encodeHeader plainEnv [] ?salt ?iv (idHeader # bs) (of_int (int (sk_pos (w_w v)) - 32)) = (packed, info)"
      "length (sk_data (w_w w')) \<le> 33 + 33 + length packed + 8192"
    unfolding run(3-5) by auto
  have packed: "length packed \<le> 2000"
    using fin(4) short by (auto simp: encodeHeader_def compressHeaderLZMA2_def plainEnv_def storeLzma_def Let_def)
  have "writerClose plainEnv exampleRun ?salt ?iv = Inr w'" using run(1) v fin(1) by (simp add: writerClose_def)
  then have close: "writerClose plainEnv exampleRun ?salt ?iv = Inr closedRun" by (simp add: closedRun_def getOk_def)
  then have w': "w' = closedRun" using \<open>writerClose plainEnv exampleRun ?salt ?iv = Inr w'\<close> by simp
  have data: "w_folders closedRun \<noteq> []" "hasData (w_files closedRun ! 0)"
    using run(2) fi(1,2) fin(2,3) by (auto simp: w')
  have names: "list_all (\<lambda>fi. storable (fl_fh fi)) (w_files closedRun)"
    using fi fin(3) okName_a by (auto simp: w' storable_def okTime_def)
  have "buildHeader closedRun = buildHeader v" using fin(2,3) by (simp add: w' buildHeader_def)
  then have header: "\<forall>bs. writeHeader (buildHeader closedRun) = Inr bs \<longrightarrow> int (length bs) < 3 * 2 ^ 30"
    using bs short by simp
  have len: "length (sk_data (w_w closedRun)) < 2 ^ 63" using fin(5) packed by (simp add: w')
  have reg: "re_registry exampleReader = registerAll storeDecoders" "re_ext exampleReader = plainExternals"
    by (simp_all add: exampleReader_def)
  from written_archive_reads_back [OF exampleRun_run _ close _ _ decodes_store reg(1) _ _ data(1) names _ _ len header]
    plainExternals_laws data(2) reg(2)
  show ?thesis by fastforce
qed

end
