(* ===== verification/Header_Typing.thy ===== *)
theory Header_Typing
  imports Streams_RoundTrip Streams_Lookup
begin

unbundle bit_operations_syntax

text \<open>
  What the parser of the streams guarantees: a typing judgement for parsers, with one rule per
  combinator and one per function of \<open>types.go\<close>, says that whatever they accept has tables of
  the right lengths and counts that have not wrapped around; and tables like that do not make
  the lookup of a file panic.
\<close>

section \<open>Well-formed tables\<close>

definition wfCoder :: "coder \<Rightarrow> bool" where
  "wfCoder c \<longleftrightarrow>
     length (co_id c) \<le> 15 \<and> co_in c \<noteq> 0 \<and> unat (co_in c) < 2 ^ 32 \<and> co_out c \<noteq> 0 \<and> unat (co_out c) < 2 ^ 32"

text \<open>Without the sizes, which are read later.\<close>

definition wfFolderShape :: "folder \<Rightarrow> bool" where
  "wfFolderShape f \<longleftrightarrow>
     fo_coder f \<noteq> [] \<and> list_all wfCoder (fo_coder f)
     \<and> unat (fo_in f) = sum_list (map (unat \<circ> co_in) (fo_coder f)) \<and> unat (fo_in f) < 2 ^ 32
     \<and> unat (fo_out f) = sum_list (map (unat \<circ> co_out) (fo_coder f)) \<and> fo_out f \<le> fo_in f
     \<and> Suc (length (fo_bindPair f)) = unat (fo_out f)
     \<and> unat (fo_packedStreams f) + length (fo_bindPair f) = unat (fo_in f)
     \<and> (fo_packedStreams f = 1 \<or> length (fo_packed f) = unat (fo_packedStreams f))"

definition wfFolder :: "folder \<Rightarrow> bool" where
  "wfFolder f \<longleftrightarrow> wfFolderShape f \<and> length (fo_size f) = unat (fo_out f)"

definition wfPackInfo :: "packInfo \<Rightarrow> bool" where
  "wfPackInfo p \<longleftrightarrow>
     pi_streams p \<noteq> 0 \<and> unat (pi_streams p) < 2 ^ 32
     \<and> (pi_size p = [] \<or> length (pi_size p) = unat (pi_streams p))
     \<and> (pi_digest p = [] \<or> length (pi_digest p) = unat (pi_streams p))"

definition wfUnpackInfo :: "unpackInfo \<Rightarrow> bool" where
  "wfUnpackInfo u \<longleftrightarrow>
     ui_folder u \<noteq> [] \<and> list_all wfFolder (ui_folder u)
     \<and> (ui_digest u = [] \<or> length (ui_digest u) = length (ui_folder u))"

definition wfSubStreamsInfo :: "folder list \<Rightarrow> subStreamsInfo \<Rightarrow> bool" where
  "wfSubStreamsInfo fs s \<longleftrightarrow>
     length (ss_streams s) = length fs
     \<and> (ss_size s = [] \<or> length (ss_size s) = unat (sum_list (ss_streams s)))
     \<and> (ss_digest s = [] \<or> length (ss_digest s) = unat (sum_list (ss_streams s)))"

definition wfStreamsInfo :: "streamsInfo \<Rightarrow> bool" where
  "wfStreamsInfo si \<longleftrightarrow>
     (case si_packInfo si of None \<Rightarrow> True | Some p \<Rightarrow> wfPackInfo p)
     \<and> (case si_unpackInfo si of None \<Rightarrow> si_subStreamsInfo si = None
        | Some u \<Rightarrow> wfUnpackInfo u
            \<and> (case si_subStreamsInfo si of None \<Rightarrow> True | Some s \<Rightarrow> wfSubStreamsInfo (ui_folder u) s))"

section \<open>The judgement\<close>

definition produces :: "'a parser \<Rightarrow> ('a \<Rightarrow> bool) \<Rightarrow> bool" where
  "produces p P \<longleftrightarrow> (\<forall>r x r'. p r = Inr (x, r') \<longrightarrow> P x)"

lemma producesI: "(\<And>r x r'. p r = Inr (x, r') \<Longrightarrow> P x) \<Longrightarrow> produces p P"
  by (simp add: produces_def)

lemma producesD: "produces p P \<Longrightarrow> p r = Inr (x, r') \<Longrightarrow> P x"
  by (auto simp: produces_def)

lemma produces_True: "produces p (\<lambda>x. True)"
  by (simp add: produces_def)

lemma produces_mono: "produces p P \<Longrightarrow> (\<And>x. P x \<Longrightarrow> Q x) \<Longrightarrow> produces p Q"
  by (auto simp: produces_def)

lemma produces_preturn: "P x \<Longrightarrow> produces (preturn x) P"
  by (simp add: produces_def)

lemma produces_pfail: "produces (pfail e) P"
  by (simp add: produces_def)

lemma produces_if: "(b \<Longrightarrow> produces p P) \<Longrightarrow> (\<not> b \<Longrightarrow> produces q P) \<Longrightarrow> produces (if b then p else q) P"
  by simp

lemma produces_pbind: "produces p P \<Longrightarrow> (\<And>x. P x \<Longrightarrow> produces (f x) Q) \<Longrightarrow> produces (pbind p f) Q"
  unfolding produces_def by (blast elim: pbind_InrE)

lemma produces_pcheck: "(c = None \<Longrightarrow> produces (f ()) Q) \<Longrightarrow> produces (pbind (pcheck c) f) Q"
  by (cases c) (simp_all add: produces_pfail)

lemma produces_prepeat:
  assumes "produces p P"
  shows "produces (prepeat n p) (\<lambda>xs. length xs = n \<and> list_all P xs)"
proof (induction n)
  case (Suc n)
  show ?case
    unfolding prepeat.simps
    by (rule produces_pbind [OF assms], rule produces_pbind [OF Suc], rule produces_preturn) simp
qed (simp add: produces_preturn)

lemma produces_ptraverse:
  assumes "\<And>x. x \<in> set xs \<Longrightarrow> produces (f x) (P x)"
  shows "produces (ptraverse f xs) (\<lambda>ys. list_all2 P xs ys)"
  using assms
proof (induction xs)
  case (Cons x xs)
  have "produces (f x) (P x)" "produces (ptraverse f xs) (list_all2 P xs)" using Cons by simp_all
  then show ?case
    unfolding ptraverse.simps
    by (intro produces_pbind [where P = "P x"] produces_pbind [where P = "list_all2 P xs"] produces_preturn) simp_all
qed (simp add: produces_preturn)

lemma produces_optSection:
  assumes "produces p P" and "P a"
  shows "produces (optSection got want p a) (\<lambda>(x, id). P x)"
proof (cases "got = want")
  case True
  then show ?thesis
    unfolding optSection_def if_P [OF True]
    by (intro produces_pbind [OF assms(1)] produces_pbind [OF produces_True] produces_preturn) simp
qed (use assms in \<open>simp add: optSection_def produces_preturn\<close>)

section \<open>Numbers and vectors\<close>

lemma checkUint64_bounds: "checkUint64 v nz = None \<Longrightarrow> unat v < 2 ^ 32 \<and> (nz \<longrightarrow> v \<noteq> 0)"
  by (auto simp: checkUint64_def word_less_nat_alt not_less split: if_splits)

lemma produces_bounded: "produces (readUint64Bounded nz) (\<lambda>v. unat v < 2 ^ 32 \<and> (nz \<longrightarrow> v \<noteq> 0))"
  unfolding readUint64Bounded_def
  by (rule produces_pbind [OF produces_True], rule produces_pcheck, rule produces_preturn, rule checkUint64_bounds)

lemma produces_readSizes: "produces (readSizes n) (\<lambda>xs. length xs = unat n)"
  unfolding readSizes_def
  by (rule produces_pcheck, rule produces_mono [OF produces_prepeat [OF produces_True]]) simp

lemma produces_readBoolLoop: "produces (readBoolLoop n b m) (\<lambda>xs. length xs = n)"
proof (induction n b m rule: readBoolLoop.induct)
  case (2 n b m)
  show ?case
  proof (cases "m = 0")
    case True
    with 2(1) show ?thesis
      by (auto intro!: produces_pbind [where P = "\<lambda>x. True"] produces_pbind [where P = "\<lambda>xs. length xs = n"]
          produces_True produces_preturn)
  next
    case False
    with 2(2) show ?thesis
      by (auto intro!: produces_pbind [where P = "\<lambda>xs. length xs = n"] produces_preturn)
  qed
qed (simp add: produces_preturn)

lemma produces_readOptionalBool: "produces (readOptionalBool n) (\<lambda>xs. length xs = unat n)"
proof -
  have "produces (readBool n) (\<lambda>xs. length xs = unat n)"
    unfolding readBool_def by (rule produces_pcheck, rule produces_readBoolLoop)
  then show ?thesis
    unfolding readOptionalBool_def
    by (auto intro!: produces_pcheck produces_pbind [OF produces_True] produces_preturn)
qed

lemma produces_readCRC: "produces (readCRC n) (\<lambda>xs. length xs = unat n)"
  unfolding readCRC_def readDefined_def
  by (rule produces_pcheck, rule produces_pbind [OF produces_readOptionalBool],
      rule produces_mono [OF produces_ptraverse [where P = "\<lambda>d x. True"]])
    (auto simp: produces_True dest: list_all2_lengthD)

section \<open>The functions of the parser\<close>

lemma produces_readPackInfo: "produces readPackInfo wfPackInfo"
proof -
  have "produces (if id \<noteq> idEnd then pfail ErrUnexpectedID
      else preturn \<lparr>pi_position = pos, pi_streams = n, pi_size = xs, pi_digest = ds\<rparr>) wfPackInfo"
    if "unat n < 2 ^ 32 \<and> (True \<longrightarrow> n \<noteq> 0)" "xs = [] \<or> length xs = unat n" "ds = [] \<or> length ds = unat n" for id pos n xs ds
    using that by (simp add: produces_pfail produces_preturn wfPackInfo_def)
  note last = this
  have sec: "produces (optSection got want (readSizes n) []) (\<lambda>(xs, id). xs = [] \<or> length xs = unat n)"
    "produces (optSection got want (readCRC n) []) (\<lambda>(xs, id). xs = [] \<or> length xs = unat n)" for got want n
    by (rule produces_optSection [OF produces_mono [OF produces_readSizes]], simp_all)
      (rule produces_optSection [OF produces_mono [OF produces_readCRC]], simp_all)
  show ?thesis
    unfolding readPackInfo_def
    by (rule produces_pbind [OF produces_True], rule produces_pbind [OF produces_bounded], rule produces_pbind [OF produces_True],
        rule produces_pbind [OF sec(1)], clarify, rule produces_pbind [OF sec(2)], clarify, rule last) simp_all
qed

lemma produces_readExact: "produces (readExact n) (\<lambda>bs. length bs = n)"
  unfolding readExact_def
  by (rule produces_pbind [OF produces_True]) (simp add: produces_pfail produces_preturn)

lemma produces_readCoder: "produces readCoder wfCoder"
proof -
  have nibble: "unat (v AND 0x0F :: byte) \<le> 15" for v
    using word_and_le1 [where a = "0x0F :: byte" and y = v] by (simp add: word_le_nat_alt)
  have counts: "produces (if b then pbind (readUint64Bounded True) (\<lambda>cin.
                 pbind (readUint64Bounded True) (\<lambda>cout. preturn (cin, cout)))
            else preturn (1, 1)) (\<lambda>(i, j). (unat i < 2 ^ 32 \<and> i \<noteq> 0) \<and> unat j < 2 ^ 32 \<and> j \<noteq> 0)" for b
    by (rule produces_if, rule produces_pbind [OF produces_bounded], rule produces_pbind [OF produces_bounded],
        rule produces_preturn, simp, rule produces_preturn, simp)
  show ?thesis
    unfolding readCoder_def
    by (rule produces_pbind [OF produces_True], rule produces_pbind [OF produces_readExact],
        rule produces_pbind [OF counts], clarify, rule produces_pbind [OF produces_True], rule produces_preturn)
      (auto simp: wfCoder_def intro: nibble)
qed

text \<open>Fewer than \<open>2 ^ 32\<close> summands below \<open>2 ^ 32\<close> do not wrap around.\<close>

lemma sum_no_wrap:
  assumes "length ws < 2 ^ 32" and "list_all (\<lambda>w. unat w < 2 ^ 32) ws"
  shows "unat (sum_list (ws :: u64 list)) = sum_list (map unat ws)"
proof -
  have "sum_list (map unat ws) \<le> length ws * (2 ^ 32 - 1)"
    using assms(2) by (induction ws) auto
  also have "\<dots> \<le> (2 ^ 32 - 1) * (2 ^ 32 - 1)" using assms(1) by (intro mult_le_mono1) simp
  finally have "sum_list (map unat ws) < 2 ^ 64" by simp
  then show ?thesis by (rule unat_sum_list_less)
qed

lemma coder_sums:
  assumes "length cs < 2 ^ 32" and "list_all wfCoder cs"
  shows "unat (sum_list (map co_in cs)) = sum_list (map (unat \<circ> co_in) cs)"
    and "unat (sum_list (map co_out cs)) = sum_list (map (unat \<circ> co_out) cs)"
  using assms sum_no_wrap [of "map co_in cs"] sum_no_wrap [of "map co_out cs"]
  by (simp_all add: list_all_iff wfCoder_def)

lemma coders_positive: "list_all wfCoder cs \<Longrightarrow> length cs \<le> sum_list (map (unat \<circ> co_out) cs)"
proof (induction cs)
  case (Cons c cs)
  then have "0 < unat (co_out c)" by (simp add: wfCoder_def unat_gt_0)
  with Cons show ?case by simp
qed simp

lemma wfFolder_made:
  assumes cs: "length cs < 2 ^ 32" "cs \<noteq> []" "list_all wfCoder cs"
    and i: "i = sum_list (map co_in cs)" "unat i < 2 ^ 32" and out: "out = sum_list (map co_out cs)" "out \<noteq> 0" "out \<le> i"
    and b: "length bps = unat (out - 1)" and p: "i - (out - 1) = 1 \<or> length packed = unat (i - (out - 1))"
  shows "wfFolderShape \<lparr>fo_in = i, fo_out = out, fo_packedStreams = i - (out - 1), fo_coder = cs,
          fo_bindPair = bps, fo_size = [], fo_packed = packed\<rparr>"
proof -
  have u: "unat (out - 1) = unat out - 1" "0 < unat out" "unat out \<le> unat i"
    using out by (simp_all add: unat_minus_one unat_gt_0 word_le_nat_alt)
  then have "out - 1 \<le> i" by (simp add: word_le_nat_alt)
  then have "unat (i - (out - 1)) = unat i - (unat out - 1)" using u(1) by (simp add: unat_sub)
  with p b cs i(2) out(3) u coder_sums [OF cs(1,3)] show ?thesis
    by (auto simp: wfFolderShape_def i(1) out(1))
qed

lemma produces_readFolder: "produces readFolder wfFolderShape"
  unfolding readFolder_def Let_def
proof (rule produces_pbind [OF produces_bounded], rule produces_pbind [OF produces_prepeat [OF produces_readCoder]],
    rule produces_pcheck, rule produces_pcheck, rule produces_if, rule produces_pfail,
    rule produces_pbind [OF produces_prepeat [OF produces_True]], rule produces_if, rule produces_preturn)
  fix n :: u64 and cs :: "coder list" and bps :: "bindPair list"
  let ?i = "sum_list (map co_in cs)" and ?o = "sum_list (map co_out cs)"
  assume n: "unat n < 2 ^ 32 \<and> (True \<longrightarrow> n \<noteq> 0)" and cs: "length cs = unat n \<and> list_all wfCoder cs"
    and c: "checkUint64 ?i True = None" "checkUint64 ?o True = None" "\<not> ?i < ?o"
    and b: "length bps = unat (?o - 1) \<and> list_all (\<lambda>x. True) bps"
  have "cs \<noteq> []" using n cs by (auto simp: unat_eq_zero)
  moreover have "unat ?i < 2 ^ 32" "?o \<noteq> 0" using c(1,2) checkUint64_bounds by blast+
  ultimately have wf: "wfFolderShape \<lparr>fo_in = ?i, fo_out = ?o, fo_packedStreams = ?i - (?o - 1), fo_coder = cs,
          fo_bindPair = bps, fo_size = [], fo_packed = packed\<rparr>"
    if "?i - (?o - 1) = 1 \<or> length packed = unat (?i - (?o - 1))" for packed
    using n cs c(3) b that by (intro wfFolder_made) simp_all
  let ?f = "\<lparr>fo_in = ?i, fo_out = ?o, fo_packedStreams = ?i - (?o - 1), fo_coder = cs,
            fo_bindPair = bps, fo_size = [], fo_packed = []\<rparr>"
  show "wfFolderShape (?f\<lparr>fo_packed := filter (\<lambda>i. findInBindPair ?f i = None) (map of_nat [0..<unat ?i])\<rparr>)"
    if "?i - (?o - 1) = 1" using wf that by simp
  show "produces (pbind (prepeat (unat (?i - (?o - 1))) readUint64) (\<lambda>packed. preturn (?f\<lparr>fo_packed := packed\<rparr>))) wfFolderShape"
    by (rule produces_pbind [OF produces_prepeat [OF produces_True]], rule produces_preturn) (simp add: wf)
qed

lemma wfFolder_counts:
  assumes "wfFolderShape f"
  shows "unat (sum_list (map co_out (fo_coder f))) = unat (fo_out f)"
    and "length (fo_coder f) \<le> unat (fo_out f)"
proof -
  have f: "list_all wfCoder (fo_coder f)" "unat (fo_out f) = sum_list (map (unat \<circ> co_out) (fo_coder f))"
    "unat (fo_in f) < 2 ^ 32" "fo_out f \<le> fo_in f"
    using assms by (simp_all add: wfFolderShape_def)
  show le: "length (fo_coder f) \<le> unat (fo_out f)" using coders_positive [OF f(1)] f(2) by simp
  then have "length (fo_coder f) < 2 ^ 32" using f(3,4) by (simp add: word_le_nat_alt)
  from coder_sums(2) [OF this f(1)] f(2) show "unat (sum_list (map co_out (fo_coder f))) = unat (fo_out f)" by simp
qed

lemma produces_readFolderSize:
  assumes "wfFolderShape f"
  shows "produces (readFolderSize f) wfFolder"
  unfolding readFolderSize_def Let_def
  by (rule produces_pcheck, rule produces_pbind [OF produces_prepeat [OF produces_True]], rule produces_preturn)
    (use assms wfFolder_counts(1) [OF assms] in \<open>simp add: wfFolder_def wfFolderShape_def\<close>)

lemma produces_readUnpackInfo: "produces readUnpackInfo wfUnpackInfo"
proof -
  have sec: "produces (optSection got want (readCRC n) []) (\<lambda>(xs, id). xs = [] \<or> length xs = unat n)" for got want n
    by (rule produces_optSection [OF produces_mono [OF produces_readCRC]]) simp_all
  have trav: "produces (ptraverse readFolderSize fs) (\<lambda>gs. length gs = length fs \<and> list_all wfFolder gs)"
    if "list_all wfFolderShape fs" for fs
  proof (rule produces_mono [OF produces_ptraverse [where P = "\<lambda>f g. wfFolder g"]])
    show "produces (readFolderSize f) wfFolder" if "f \<in> set fs" for f
      using that \<open>list_all wfFolderShape fs\<close> by (intro produces_readFolderSize) (simp add: list_all_iff)
    show "length gs = length fs \<and> list_all wfFolder gs" if "list_all2 (\<lambda>f. wfFolder) fs gs" for gs
      using that by (auto simp: list_all2_conv_all_nth list_all_length)
  qed
  show ?thesis
    unfolding readUnpackInfo_def
  proof (rule produces_pbind [OF produces_True], rule produces_if, rule produces_pfail, rule produces_pbind [OF produces_bounded],
      rule produces_pbind [OF produces_True], rule produces_if, rule produces_pfail,
      rule produces_pbind [OF produces_prepeat [OF produces_readFolder]], rule produces_pbind [OF produces_True],
      rule produces_if, rule produces_pfail)
    fix n :: u64 and fs :: "folder list"
    assume n: "unat n < 2 ^ 32 \<and> (True \<longrightarrow> n \<noteq> 0)" and fs: "length fs = unat n \<and> list_all wfFolderShape fs"
    have "wfUnpackInfo \<lparr>ui_folder = gs, ui_digest = ds\<rparr>"
      if "length gs = length fs \<and> list_all wfFolder gs" "ds = [] \<or> length ds = unat n" for gs ds
      using that n fs by (auto simp: wfUnpackInfo_def unat_eq_zero)
    then show "produces (pbind (ptraverse readFolderSize fs) (\<lambda>folder.
       pbind readByte (\<lambda>id.
       pbind (optSection id idCRC (readCRC n) []) (\<lambda>(digest, id).
       if id \<noteq> idEnd then pfail ErrUnexpectedID
       else preturn \<lparr>ui_folder = folder, ui_digest = digest\<rparr>)))) wfUnpackInfo"
      using fs by (intro produces_pbind [OF trav] produces_pbind [OF produces_True] produces_pbind [OF sec])
        (auto intro!: produces_pfail produces_preturn)
  qed
qed

text \<open>Storing keeps the length of the array of sizes.\<close>

lemma produces_readSubSizesOf: "produces (readSubSizesOf n tot k xs) (\<lambda>(tot, k, ys). length ys = length xs)"
proof (induction n tot k xs rule: readSubSizesOf.induct)
  case (2 n tot k xs)
  have "produces (plift (storeAt xs k v)) (\<lambda>ys. length ys = length xs)" for v
    by (simp add: storeAt_def produces_preturn produces_pfail)
  then show ?case
    unfolding readSubSizesOf.simps
    by (intro produces_if produces_pfail produces_pbind [OF produces_True] produces_pbind)
      (assumption, rule produces_mono [OF 2], auto)
qed (simp add: produces_preturn)

lemma produces_storeAt: "produces (plift (storeAt xs k v)) (\<lambda>ys. length ys = length xs)"
  by (simp add: storeAt_def produces_preturn produces_pfail)

lemma produces_readSubSizes: "produces (readSubSizes nfs k xs) (\<lambda>ys. length ys = length xs)"
proof (induction nfs k xs rule: readSubSizes.induct)
  case (2 n f rest k xs)
  show ?case
    unfolding readSubSizes.simps
  proof (rule produces_if)
    show "produces (readSubSizes rest k xs) (\<lambda>ys. length ys = length xs)" if "n = 0" using 2(1) [OF that] .
    assume nz: "n \<noteq> 0"
    show "produces (pbind (readSubSizesOf (unat n - 1) 0 k xs) (\<lambda>(tot, k, sizes).
      pbind (plift (storeAt sizes k (unpackSize f - tot))) (\<lambda>sizes.
      readSubSizes rest (Suc k) sizes))) (\<lambda>ys. length ys = length xs)"
    proof (rule produces_pbind [OF produces_readSubSizesOf], clarify)
      fix tot j and zs :: "u64 list" assume z: "length zs = length xs"
      show "produces (pbind (plift (storeAt zs j (unpackSize f - tot))) (\<lambda>sizes. readSubSizes rest (Suc j) sizes))
          (\<lambda>ys. length ys = length xs)"
        by (rule produces_pbind [OF produces_storeAt], rule produces_mono [OF 2(2) [OF nz]]) (auto simp: z)
    qed
  qed
qed (simp add: produces_preturn)

lemma produces_readSubStreamsInfo: "produces (readSubStreamsInfo fs) (wfSubStreamsInfo fs)"
proof -
  have counts: "produces (optSection got want (prepeat (length fs) readUint64) (replicate (length fs) 1))
      (\<lambda>(ns, id). length ns = length fs)" for got want
    by (rule produces_optSection [OF produces_mono [OF produces_prepeat [OF produces_True]]]) simp_all
  have sizes: "produces (optSection got want (readSubSizes nfs 0 (replicate n 0)) []) (\<lambda>(xs, id). xs = [] \<or> length xs = n)"
    for got want nfs n
    by (rule produces_optSection [OF produces_mono [OF produces_readSubSizes]]) simp_all
  have crcs: "produces (optSection got want (readCRC n) []) (\<lambda>(xs, id). xs = [] \<or> length xs = unat n)" for got want n
    by (rule produces_optSection [OF produces_mono [OF produces_readCRC]]) simp_all
  show ?thesis
    unfolding readSubStreamsInfo_def Let_def
    by (rule produces_pbind [OF produces_True], rule produces_pbind [OF counts], clarify, rule produces_pcheck,
        rule produces_pbind [OF sizes], clarify, rule produces_pbind [OF crcs], clarify, rule produces_if, rule produces_pfail,
        rule produces_preturn) (auto simp: wfSubStreamsInfo_def)
qed

lemma produces_pSome: "produces p P \<Longrightarrow> produces (pSome p) (\<lambda>x. case x of None \<Rightarrow> True | Some y \<Rightarrow> P y)"
  unfolding pSome_def by (erule produces_pbind) (simp add: produces_preturn)

lemma produces_readStreamsInfo: "produces readStreamsInfo wfStreamsInfo"
proof -
  have pack: "produces (optSection got want (pSome readPackInfo) None) (\<lambda>(p, id). case p of None \<Rightarrow> True | Some p \<Rightarrow> wfPackInfo p)"
    and unpack: "produces (optSection got want (pSome readUnpackInfo) None) (\<lambda>(u, id). case u of None \<Rightarrow> True | Some u \<Rightarrow> wfUnpackInfo u)"
    for got want
    by (rule produces_optSection [OF produces_pSome [OF produces_readPackInfo]], simp)
      (rule produces_optSection [OF produces_pSome [OF produces_readUnpackInfo]], simp)
  have sub: "produces (optSection got want
              (case u of None \<Rightarrow> pfail ErrMissingUnpackInfo | Some u \<Rightarrow> pSome (readSubStreamsInfo (ui_folder u))) None)
      (\<lambda>(s, id). case u of None \<Rightarrow> s = None | Some u \<Rightarrow> (case s of None \<Rightarrow> True | Some s \<Rightarrow> wfSubStreamsInfo (ui_folder u) s))"
    for got want and u :: "unpackInfo option"
    by (cases u) (auto intro: produces_optSection produces_pfail produces_optSection [OF produces_pSome [OF produces_readSubStreamsInfo]])
  show ?thesis
    unfolding readStreamsInfo_def
    by (rule produces_pbind [OF produces_True], rule produces_pbind [OF pack], clarify, rule produces_pbind [OF unpack], clarify,
        rule produces_pbind [OF sub], clarify, rule produces_if, rule produces_pfail, rule produces_preturn)
      (auto simp: wfStreamsInfo_def split: option.splits)
qed

section \<open>Well-formed tables do not get stuck\<close>

lemma wf_okFolderSizes: "wfFolder f \<Longrightarrow> okFolderSizes f"
  using wfFolder_counts(2) [of f] by (simp add: wfFolder_def okFolderSizes_def wfFolderShape_def)

text \<open>The counts do not wrap around, and there are sizes where a folder has several files.\<close>

definition countsGiven :: "streamsInfo \<Rightarrow> bool" where
  "countsGiven si \<longleftrightarrow>
     fileCount si < 2 ^ 32
     \<and> (case si_subStreamsInfo si of None \<Rightarrow> False
        | Some s \<Rightarrow> list_ex (\<lambda>n. 1 < n) (ss_streams s) \<longrightarrow> ss_size s \<noteq> [])"

lemma wf_okLookup:
  assumes "wfStreamsInfo si" and "countsGiven si"
  shows "okLookup si"
proof -
  obtain s u where s: "si_subStreamsInfo si = Some s" "si_unpackInfo si = Some u"
    using assms by (auto simp: wfStreamsInfo_def countsGiven_def split: option.splits)
  have small: "sum_list (map unat (ss_streams s)) < 2 ^ 32" using assms(2) s by (simp add: countsGiven_def fileCount_def)
  then have "unat (sum_list (ss_streams s)) = sum_list (map unat (ss_streams s))" by (intro unat_sum_list_less) simp
  with assms s small show ?thesis
    by (auto simp: okLookup_def wfStreamsInfo_def wfUnpackInfo_def wfSubStreamsInfo_def countsGiven_def list_all_iff
        intro: wf_okFolderSizes)
qed

text \<open>
  C8: What the parser accepts is well-formed: in every streams section that \<open>readStreamsInfo\<close> reads, whatever
  the bytes, all tables have the lengths that the counts say, the counts of a folder are sums that
  have not wrapped around, it has at least one packed stream and a size for each output;
  and as long as the numbers of files do not overflow and sizes are given where a folder has
  several files, looking up any file finds its entry and does not panic.
\<close>

theorem parsed_streams_well_formed:
  assumes "readStreamsInfo r = Inr (si, r')"
  shows "wfStreamsInfo si
    \<and> (countsGiven si \<longrightarrow> (\<forall>k<fileCount si. FileFolderAndSize si k = Inr (fileEntry si k)))"
  using producesD [OF produces_readStreamsInfo assms] wf_okLookup FileFolderAndSize_entry by blast

theorem parsed_streams_well_formed_witness:
  "\<exists>bs si. writeStreamsInfo twoFolders = Inr bs \<and> readStreamsInfo (feed bs (newBytesReader [])) = Inr (si, newBytesReader [])
    \<and> wfStreamsInfo si \<and> FileFolderAndSize si 1 = Inr (0, 18, 8)"
proof -
  have "okStreamsInfo twoFolders"
    by (simp add: okStreamsInfo_def twoFolders_def Let_def okPackInfo_def checkUint64_def okUnpackInfo_def okFolder_def
        okCoder_def findInBindPair_def okSubStreamsInfo_def unpackSize_def findOutBindPair_def)
  from readStreamsInfo_write [OF this] obtain bs where bs: "writeStreamsInfo twoFolders = Inr bs"
    "readStreamsInfo (feed bs (newBytesReader [])) = Inr (normStreamsInfo twoFolders, newBytesReader [])"
    by (rule readsBackE) blast
  let ?si = "normStreamsInfo twoFolders"
  have "countsGiven ?si" "1 < fileCount ?si" "fileEntry ?si 1 = (0, 18, 8)"
    by (simp_all add: countsGiven_def fileCount_def fileEntry_def normStreamsInfo_def normSubStreams_def hasSubSizes_def
        twoFolders_def Let_def nth_append)
  with parsed_streams_well_formed [OF bs(2)] bs show ?thesis by auto
qed

end
