(* ===== verification/Volumes.thy ===== *)
theory Volumes
  imports Archive_Bytes
begin

text \<open>
  Opening an archive by its file name, \<open>reader.go\<close>: a name that ends in \<open>.001\<close> is the first of
  several volumes, which are opened one after the other until one does not exist, and read as one
  archive. The file system (\<open>afero\<close>) and the reader over several sections (\<open>readerutil\<close>) are
  arguments. A file does not change while it is open. Open files are numbered, and
  the numbers of the files that were closed are recorded, in order.
\<close>

section \<open>Names\<close>

text \<open>\<open>filepath.Ext\<close>, with the separator of Unix, and \<open>strings.TrimSuffix\<close>.\<close>

definition pathExt :: "gostring \<Rightarrow> gostring" where
  "pathExt name =
     (let base = rev (takeWhile (\<lambda>c. c \<noteq> slash) (rev name))
      in if dot \<in> set base then dot # rev (takeWhile (\<lambda>c. c \<noteq> dot) (rev base)) else [])"

definition trimSuffix :: "gostring \<Rightarrow> gostring \<Rightarrow> gostring" where
  "trimSuffix s suf =
     (let n = length s - length suf in if length suf \<le> length s \<and> drop n s = suf then take n s else s)"

text \<open>The verb \<open>%03d\<close> of \<open>fmt\<close>.\<close>

fun decimal :: "nat \<Rightarrow> gostring" where
  "decimal n = (if n < 10 then [0x30 + of_nat n] else decimal (n div 10) @ [0x30 + of_nat (n mod 10)])"

declare decimal.simps [simp del]

definition decimal03 :: "nat \<Rightarrow> gostring" where
  "decimal03 n = replicate (3 - length (decimal n)) 0x30 @ decimal n"

definition volumeName :: "gostring \<Rightarrow> nat \<Rightarrow> gostring" where
  "volumeName stem i = stem @ dot # decimal03 i"

section \<open>Files\<close>

record volume =
  vo_data :: "byte list"
  vo_statError :: "sz_error option"
  vo_closeError :: "sz_error option"

text \<open>An error of \<open>Open\<close> comes with the answer to \<open>errors.Is(err, fs.ErrNotExist)\<close>.\<close>

record fileSystem =
  fs_Open :: "gostring \<Rightarrow> (bool \<times> sz_error) + volume"
  fs_multi :: "byte list list \<Rightarrow> byte list"

record handles =
  hs_open :: "(gostring \<times> volume) list"
  hs_closed :: "nat list"

definition noHandles :: handles where
  "noHandles = \<lparr>hs_open = [], hs_closed = []\<rparr>"

definition fsOpen :: "fileSystem \<Rightarrow> gostring \<Rightarrow> handles \<Rightarrow> ((bool \<times> sz_error) + nat) \<times> handles" where
  "fsOpen fs name h =
     (case fs_Open fs name of
        Inl e \<Rightarrow> (Inl e, h)
      | Inr v \<Rightarrow> (Inr (length (hs_open h)), h\<lparr>hs_open := hs_open h @ [(name, v)]\<rparr>))"

definition volumeOf :: "handles \<Rightarrow> nat \<Rightarrow> volume" where
  "volumeOf h k = snd (hs_open h ! k)"

definition fsClose :: "nat \<Rightarrow> handles \<Rightarrow> sz_error option \<times> handles" where
  "fsClose k h = (vo_closeError (volumeOf h k), h\<lparr>hs_closed := hs_closed h @ [k]\<rparr>)"

text \<open>The loops \<open>for _, file := range files\<close> that close files and collect the errors.\<close>

fun closeAll :: "nat list \<Rightarrow> handles \<Rightarrow> sz_error option list \<times> handles" where
  "closeAll [] h = ([], h)"
| "closeAll (k # ks) h =
     (let (e, h) = fsClose k h; (es, h) = closeAll ks h in (e # es, h))"

section \<open>Opening\<close>

datatype volume_error =
    OpeningFailed "sz_error option"
  | InfoFailed "sz_error option"
  | InitialisingFailed "sz_error option"
  | ClosingFailed "sz_error option"

text \<open>The loop over the volumes from number \<open>i\<close> on. It ends only when a volume cannot be opened.\<close>

partial_function (option) volumeLoop ::
    "fileSystem \<Rightarrow> gostring \<Rightarrow> nat \<Rightarrow> nat list \<Rightarrow> handles \<Rightarrow> ((volume_error + nat list) \<times> handles) option" where
  "volumeLoop fs stem i files h =
     (case fsOpen fs (volumeName stem i) h of
        (Inl (notExist, e), h) \<Rightarrow>
          if notExist then Some (Inr files, h)
          else (case closeAll files h of (es, h) \<Rightarrow> Some (Inl (OpeningFailed (errorsJoin (Some e # es))), h))
      | (Inr k, h) \<Rightarrow>
          (case vo_statError (volumeOf h k) of
             Some e \<Rightarrow>
               (case closeAll (files @ [k]) h of
                  (es, h) \<Rightarrow> Some (Inl (InfoFailed (errorsJoin (Some e # es))), h))
           | None \<Rightarrow> volumeLoop fs stem (Suc i) (files @ [k]) h))"

declare volumeLoop.simps [code]

definition firstSuffix :: gostring where
  "firstSuffix = [dot, 0x30, 0x30, 0x31]"

definition openReader ::
    "fileSystem \<Rightarrow> gostring \<Rightarrow> handles \<Rightarrow> ((volume_error + (byte list \<times> nat list)) \<times> handles) option" where
  "openReader fs name h =
     (case fsOpen fs (pathClean name) h of
        (Inl (_, e), h) \<Rightarrow> Some (Inl (OpeningFailed (Some e)), h)
      | (Inr k, h) \<Rightarrow>
          (case vo_statError (volumeOf h k) of
             Some e \<Rightarrow> (case fsClose k h of (c, h) \<Rightarrow> Some (Inl (InfoFailed (errorsJoin [Some e, c])), h))
           | None \<Rightarrow>
               if pathExt name = firstSuffix then
                 (case volumeLoop fs (trimSuffix name firstSuffix) 2 [k] h of
                    None \<Rightarrow> None
                  | Some (Inl e, h) \<Rightarrow> Some (Inl e, h)
                  | Some (Inr files, h) \<Rightarrow>
                      Some (Inr (fs_multi fs (map (\<lambda>k. vo_data (volumeOf h k)) files), files), h))
               else Some (Inr (vo_data (volumeOf h k), [k]), h)))"

record readCloserArchive =
  ac_f :: "nat list"
  ac_Reader :: archive

text \<open>A panic of \<open>init\<close> leaves the files open.\<close>

definition OpenReaderWithPassword ::
    "reader_env \<Rightarrow> fileSystem \<Rightarrow> gostring \<Rightarrow> gostring \<Rightarrow> handles \<Rightarrow>
       ((volume_error + readCloserArchive) \<times> handles) option" where
  "OpenReaderWithPassword ren fs name password h =
     (case openReader fs name h of
        None \<Rightarrow> None
      | Some (Inl e, h) \<Rightarrow> Some (Inl e, h)
      | Some (Inr (r, files), h) \<Rightarrow>
          (case readerInit ren r (int (length r)) password of
             Inl e \<Rightarrow>
               if e = Panic then Some (Inl (InitialisingFailed (Some Panic)), h)
               else (case closeAll files h of
                       (es, h) \<Rightarrow> Some (Inl (InitialisingFailed (errorsJoin (Some e # es))), h))
           | Inr a \<Rightarrow> Some (Inr \<lparr>ac_f = files, ac_Reader = a\<rparr>, h)))"

definition OpenReader ::
    "reader_env \<Rightarrow> fileSystem \<Rightarrow> gostring \<Rightarrow> handles \<Rightarrow> ((volume_error + readCloserArchive) \<times> handles) option" where
  "OpenReader ren fs name h = OpenReaderWithPassword ren fs name [] h"

definition Volumes :: "readCloserArchive \<Rightarrow> handles \<Rightarrow> gostring list" where
  "Volumes rc h = map (\<lambda>k. fst (hs_open h ! k)) (ac_f rc)"

text \<open>\<open>ReadCloser.Close\<close>. Closing folder readers does not fail.\<close>

definition archiveClose ::
    "readCloserArchive \<Rightarrow> handles \<Rightarrow> volume_error option \<times> readCloserArchive \<times> handles" where
  "archiveClose rc h =
     (let rc = rc\<lparr>ac_Reader := ReleasePool (ac_Reader rc)\<rparr>;
          (es, h) = closeAll (ac_f rc) h
      in (case errorsJoin (None # es) of None \<Rightarrow> None | Some e \<Rightarrow> Some (ClosingFailed (Some e)), rc, h))"

section \<open>Numbered names\<close>

text \<open>The number that a string of digits stands for.\<close>

definition digitsValue :: "gostring \<Rightarrow> nat" where
  "digitsValue ds = foldl (\<lambda>a c. 10 * a + unat (c - 0x30)) 0 ds"

lemma digit_value: "n < 10 \<Longrightarrow> unat ((0x30 + of_nat n :: byte) - 0x30) = n"
  by (simp add: unat_of_nat)

lemma digitsValue_decimal: "digitsValue (decimal n) = n"
proof (induction n rule: decimal.induct)
  case (1 n)
  show ?case
  proof (cases "n < 10")
    case True
    then show ?thesis by (subst decimal.simps) (simp add: digitsValue_def unat_of_nat)
  next
    case False
    with 1 show ?thesis by (subst decimal.simps) (simp add: digitsValue_def unat_of_nat)
  qed
qed

lemma digitsValue_zeros: "digitsValue (replicate m 0x30 @ ds) = digitsValue ds"
  by (induction m) (simp_all add: digitsValue_def)

lemma volumeName_inject: "volumeName stem i = volumeName stem j \<longleftrightarrow> i = j"
proof
  assume "volumeName stem i = volumeName stem j"
  then have "decimal03 i = decimal03 j" by (simp add: volumeName_def)
  then have "digitsValue (decimal03 i) = digitsValue (decimal03 j)" by simp
  then show "i = j" by (simp add: decimal03_def digitsValue_zeros digitsValue_decimal)
qed simp

lemma volumeName_ext:
  "volumeName stem 1 = stem @ firstSuffix"
  "pathExt (volumeName stem 1) = firstSuffix"
  "trimSuffix (volumeName stem 1) firstSuffix = stem"
proof -
  show v: "volumeName stem 1 = stem @ firstSuffix"
    by (simp add: volumeName_def firstSuffix_def decimal03_def decimal.simps [of "Suc 0"] numeral_eq_Suc)
  show "pathExt (volumeName stem 1) = firstSuffix"
    by (simp add: v pathExt_def firstSuffix_def dot_def slash_def del: One_nat_def)
  show "trimSuffix (volumeName stem 1) firstSuffix = stem"
    by (simp add: v trimSuffix_def firstSuffix_def del: One_nat_def)
qed

section \<open>Which files are open\<close>

lemma closeAll_eq:
  "closeAll ks h = (map (\<lambda>k. vo_closeError (volumeOf h k)) ks, h\<lparr>hs_closed := hs_closed h @ ks\<rparr>)"
  by (induction ks arbitrary: h) (simp_all add: fsClose_def volumeOf_def)

text \<open>All files that were opened so far are open, and these are the files at hand.\<close>

definition allOpen :: "nat list \<Rightarrow> handles \<Rightarrow> bool" where
  "allOpen files h \<longleftrightarrow> files = [0..<length (hs_open h)] \<and> hs_closed h = []"

text \<open>Every file that was opened has been closed, and only once.\<close>

definition allClosed :: "handles \<Rightarrow> bool" where
  "allClosed h \<longleftrightarrow> hs_closed h = [0..<length (hs_open h)]"

lemma allOpen_close: "allOpen files h \<Longrightarrow> allClosed (snd (closeAll files h))"
  by (simp add: allOpen_def allClosed_def closeAll_eq)

lemma allOpen_open:
  assumes "allOpen files h" and "fsOpen fs name h = (Inr k, h')"
  shows "allOpen (files @ [k]) h'"
  using assms by (auto simp: allOpen_def fsOpen_def split: sum.splits)

lemma fsOpen_fails: "fsOpen fs name h = (Inl e, h') \<Longrightarrow> h' = h"
  by (auto simp: fsOpen_def split: sum.splits)

text \<open>What opening leaves behind.\<close>

definition tidy :: "(volume_error + nat list) \<times> handles \<Rightarrow> bool" where
  "tidy res = (case res of (Inl _, h) \<Rightarrow> allClosed h | (Inr files, h) \<Rightarrow> allOpen files h)"

lemma volumeLoop_tidy:
  assumes "volumeLoop fs stem i files h = Some res" and "allOpen files h"
  shows "tidy res"
proof -
  have "allOpen files h \<longrightarrow> tidy res"
  proof (rule volumeLoop.raw_induct [OF _ assms(1), where P = "\<lambda>fs stem i files h res. allOpen files h \<longrightarrow> tidy res"],
      intro impI, goal_cases)
    case (1 loop fs stem i files h res)
    note IH = 1(1) and eq = 1(2) and avail = 1(3)
    show ?case
    proof (cases "fsOpen fs (volumeName stem i) h")
      case (Pair r h1)
      show ?thesis
      proof (cases r)
        case (Inl e)
        with Pair have "h1 = h" using fsOpen_fails by blast
        with eq Pair Inl avail allOpen_close [OF avail] show ?thesis
          by (auto simp: tidy_def split: prod.splits if_splits)
      next
        case (Inr k)
        with Pair have o: "allOpen (files @ [k]) h1" using allOpen_open [OF avail] by blast
        show ?thesis
        proof (cases "vo_statError (volumeOf h1 k)")
          case None
          with eq Pair Inr have "loop fs stem (Suc i) (files @ [k]) h1 = Some res" by simp
          from IH [OF this] o show ?thesis by blast
        next
          case (Some e)
          with eq Pair Inr allOpen_close [OF o] show ?thesis by (auto simp: tidy_def split: prod.splits)
        qed
      qed
    qed
  qed
  with assms(2) show ?thesis by blast
qed

section \<open>The loop over the volumes ends\<close>

definition opens :: "fileSystem \<Rightarrow> gostring \<Rightarrow> nat \<Rightarrow> bool" where
  "opens fs stem j \<longleftrightarrow> (\<exists>v. fs_Open fs (volumeName stem j) = Inr v \<and> vo_statError v = None)"

lemma volumeLoop_step:
  assumes "fs_Open fs (volumeName stem i) = Inr v" and "vo_statError v = None"
  shows "volumeLoop fs stem i files h =
    volumeLoop fs stem (Suc i) (files @ [length (hs_open h)]) (h\<lparr>hs_open := hs_open h @ [(volumeName stem i, v)]\<rparr>)"
  using assms by (subst volumeLoop.simps) (simp add: fsOpen_def volumeOf_def nth_append)

lemma volumeLoop_stops: "\<not> opens fs stem i \<Longrightarrow> volumeLoop fs stem i files h \<noteq> None"
  by (subst volumeLoop.simps) (auto simp: opens_def fsOpen_def volumeOf_def closeAll_eq split: sum.split option.split)

lemma volumeLoop_returns: "\<not> opens fs stem (i + n) \<Longrightarrow> volumeLoop fs stem i files h \<noteq> None"
proof (induction n arbitrary: i files h)
  case 0
  then show ?case using volumeLoop_stops [of fs stem i] by simp
next
  case (Suc n)
  then have "volumeLoop fs stem (Suc i) files h \<noteq> None" for files h by simp
  with volumeLoop_stops [of fs stem i] volumeLoop_step [of fs stem i] show ?case
    by (cases "opens fs stem i") (auto simp: opens_def)
qed

lemma volumeLoop_stopped:
  assumes "volumeLoop fs stem i files h = Some res"
  shows "\<exists>j\<ge>i. \<not> opens fs stem j"
  using _ assms
proof (rule volumeLoop.raw_induct [of "\<lambda>fs stem i files h res. \<exists>j\<ge>i. \<not> opens fs stem j"], goal_cases)
  case (1 loop fs stem i files h res)
  note IH = 1(1) and eq = 1(2)
  show ?case
  proof (cases "opens fs stem i")
    case True
    then obtain v where "fs_Open fs (volumeName stem i) = Inr v" "vo_statError v = None" by (auto simp: opens_def)
    with eq have "loop fs stem (Suc i) (files @ [length (hs_open h)]) (h\<lparr>hs_open := hs_open h @ [(volumeName stem i, v)]\<rparr>) = Some res"
      by (simp add: fsOpen_def volumeOf_def nth_append)
    from IH [OF this] show ?thesis by (meson Suc_leD)
  qed blast
qed

lemma volumeLoop_None: "volumeLoop fs stem i files h = None \<longleftrightarrow> (\<forall>j\<ge>i. opens fs stem j)"
  using volumeLoop_returns [of fs stem i] volumeLoop_stopped [of fs stem i files h]
  by (metis le_add_diff_inverse not_None_eq)

text \<open>All volumes up to the first that does not exist.\<close>

lemma volumeLoop_all:
  assumes "\<forall>j<n. fs_Open fs (volumeName stem (i + j)) = Inr (v (i + j)) \<and> vo_statError (v (i + j)) = None"
    and "fs_Open fs (volumeName stem (i + n)) = Inl (True, e)"
  shows "volumeLoop fs stem i files h =
    Some (Inr (files @ [length (hs_open h)..<length (hs_open h) + n]),
          h\<lparr>hs_open := hs_open h @ map (\<lambda>j. (volumeName stem j, v j)) [i..<i + n]\<rparr>)"
  using assms
proof (induction n arbitrary: i files h)
  case 0
  then show ?case by (subst volumeLoop.simps) (simp add: fsOpen_def)
next
  case (Suc n)
  have "\<forall>j<n. fs_Open fs (volumeName stem (Suc i + j)) = Inr (v (Suc i + j)) \<and> vo_statError (v (Suc i + j)) = None"
    using Suc.prems(1) by (metis Suc_less_eq add_Suc_shift)
  moreover have "fs_Open fs (volumeName stem (Suc i + n)) = Inl (True, e)" using Suc.prems(2) by simp
  ultimately have IH: "volumeLoop fs stem (Suc i) files h =
    Some (Inr (files @ [length (hs_open h)..<length (hs_open h) + n]),
          h\<lparr>hs_open := hs_open h @ map (\<lambda>j. (volumeName stem j, v j)) [Suc i..<Suc i + n]\<rparr>)" for files h
    by (rule Suc.IH)
  have u: "[k..<Suc (k + n)] = k # [Suc k..<Suc (k + n)]" for k by (simp add: upt_conv_Cons del: upt_Suc)
  have "fs_Open fs (volumeName stem i) = Inr (v i)" "vo_statError (v i) = None"
    using Suc.prems(1) [rule_format, of 0] by simp_all
  then show ?case by (simp add: volumeLoop_step IH u del: upt_Suc)
qed

text \<open>Opening the file, with the volumes when there are several.\<close>

lemma openReader_tidy:
  assumes "openReader fs name noHandles = Some (res, h)"
  shows "case res of Inl _ \<Rightarrow> allClosed h | Inr (r, files) \<Rightarrow> allOpen files h"
proof (cases "fsOpen fs (pathClean name) noHandles")
  case (Pair r h1)
  have none: "allOpen [] noHandles" by (simp add: allOpen_def noHandles_def)
  show ?thesis
  proof (cases r)
    case (Inl e)
    with Pair have "h1 = noHandles" using fsOpen_fails by blast
    with assms Pair Inl show ?thesis by (auto simp: openReader_def allClosed_def noHandles_def split: prod.splits)
  next
    case (Inr k)
    have avail: "allOpen [k] h1" using allOpen_open [OF none] Pair Inr by fastforce
    have k: "k = 0" "length (hs_open h1) = 1" "hs_closed h1 = []"
      using Pair Inr by (auto simp: fsOpen_def noHandles_def split: sum.splits)
    show ?thesis
    proof (cases "vo_statError (volumeOf h1 k)")
      case (Some e)
      with assms Pair Inr k show ?thesis by (auto simp: openReader_def fsClose_def allClosed_def split: prod.splits)
    next
      case None
      with assms Pair Inr avail volumeLoop_tidy [OF _ avail] show ?thesis
        by (fastforce simp: openReader_def tidy_def split: if_splits option.splits prod.splits sum.splits)
    qed
  qed
qed

lemma archiveClose_tidy:
  assumes "allOpen (ac_f rc) h" and "archiveClose rc h = (err, rc', h')"
  shows "allClosed h'" and "err = None \<longleftrightarrow> (\<forall>k<length (hs_open h). vo_closeError (volumeOf h k) = None)"
proof -
  show "allClosed h'"
    using assms by (auto simp: archiveClose_def closeAll_eq allOpen_def allClosed_def)
  have "err = None \<longleftrightarrow> errorsJoin (None # map (\<lambda>k. vo_closeError (volumeOf h k)) [0..<length (hs_open h)]) = None"
    using assms by (auto simp: archiveClose_def closeAll_eq allOpen_def split: option.splits)
  also have "\<dots> \<longleftrightarrow> (\<forall>k\<in>set [0..<length (hs_open h)]. vo_closeError (volumeOf h k) = None)"
    by (simp add: errorsJoin_def Let_def filter_empty_conv del: set_upt)
  finally show "err = None \<longleftrightarrow> (\<forall>k<length (hs_open h). vo_closeError (volumeOf h k) = None)" by auto
qed

lemma readerInit_new: "NewReaderWithPassword ren r (int (length r)) password = readerInit ren r (int (length r)) password"
  by (simp add: NewReaderWithPassword_def)

lemma OpenReader_None:
  "OpenReaderWithPassword ren fs name password h = None \<longleftrightarrow> openReader fs name h = None"
  by (auto simp: OpenReaderWithPassword_def split: option.split sum.split prod.split)

lemma errorsJoin_some: "\<exists>x. errorsJoin (Some e # es) = Some (Joined x)"
  by (simp add: errorsJoin_def Let_def)

section \<open>Properties\<close>

text \<open>
  C10: No file is left open. Whatever the file system answers, and whatever the files hold, when
  opening an archive by name fails, every file opened on the way has been closed, once,
  unless \<open>init\<close> panicked; when it succeeds all of them are open and known to the reader, and closing the reader
  closes each of them once, and reports an error exactly if closing one of them did.
\<close>

theorem no_file_left_open:
  assumes "OpenReaderWithPassword ren fs name password noHandles = Some (res, h)"
  shows "case res of
      Inl e \<Rightarrow> allClosed h \<or> e = InitialisingFailed (Some Panic)
    | Inr rc \<Rightarrow> allOpen (ac_f rc) h \<and>
        (case archiveClose rc h of (err, rc', h') \<Rightarrow>
           allClosed h' \<and> (err = None \<longleftrightarrow> (\<forall>k<length (hs_open h). vo_closeError (volumeOf h k) = None)))"
proof -
  obtain res' h1 where o: "openReader fs name noHandles = Some (res', h1)"
    using assms by (auto simp: OpenReaderWithPassword_def split: option.splits)
  note t = openReader_tidy [OF o]
  show ?thesis
  proof (cases res')
    case (Inl e)
    with assms o t show ?thesis by (auto simp: OpenReaderWithPassword_def)
  next
    case (Inr rf)
    obtain r files where rf: "rf = (r, files)" by (cases rf)
    have avail: "allOpen files h1" using t Inr rf by simp
    show ?thesis
    proof (cases "readerInit ren r (int (length r)) password")
      case (Inl e)
      with assms o Inr rf allOpen_close [OF avail] show ?thesis
        by (auto simp: OpenReaderWithPassword_def split: if_splits prod.splits)
    next
      case i: (Inr a)
      with assms o Inr rf have r: "res = Inr \<lparr>ac_f = files, ac_Reader = a\<rparr>" "h = h1"
        by (simp_all add: OpenReaderWithPassword_def)
      with avail archiveClose_tidy [of "\<lparr>ac_f = files, ac_Reader = a\<rparr>" h] show ?thesis
        by (auto split: prod.split)
    qed
  qed
qed

text \<open>The smallest archive, with an empty header.\<close>

definition tinyEnv :: reader_env where
  "tinyEnv = \<lparr>re_registry = Map.empty, re_ext = plainExternals, re_numCPU = 1\<rparr>"

definition tinyArchive :: "byte list" where
  "tinyArchive = archiveBytes [] [idHeader, idEnd] []"

definition emptyArchive :: archive where
  "emptyArchive = \<lparr>z_src = [], z_si = None, z_p = [], z_File = [], z_pool = []\<rparr>"

lemma tiny_opens: "NewReaderWithPassword tinyEnv tinyArchive (int (length tinyArchive)) [] = Inr emptyArchive"
proof -
  let ?m = "[idHeader, idEnd]"
  have len: "length tinyArchive = 34" by (simp add: tinyArchive_def archiveBytes_def)
  note f = archive_found [of "[]" ?m "[]", folded tinyArchive_def]
  have s: "sectionBytes tinyArchive 32 0 = []" "sectionBytes tinyArchive 32 2 = ?m"
    using archive_sections [of "[]" ?m "[]", folded tinyArchive_def] by simp_all
  have r: "readMetadata tinyEnv src (newBufReader ?m) = Inr (Inl \<lparr>hd_streamsInfo = None, hd_filesInfo = None\<rparr>, newBufReader [])" for src
    by (simp add: readMetadata_def readHeader_def pbind_def readByte_def newBufReader_def bufSize_def
        optSection_def preturn_def)
  show ?thesis
    using r f s
    by (simp add: NewReaderWithPassword_def readerInit_def len archiveStart_def emptyArchive_def initPools_def content_def
        newBufReader_def int64_def Folders_def CRC32Equal_sum)
qed

text \<open>It is cut into two volumes, the second of which cannot be closed, and a third has no information.\<close>

definition tinyVolumes :: "bool \<Rightarrow> fileSystem" where
  "tinyVolumes third =
     \<lparr>fs_Open = (\<lambda>name.
        if name = volumeName [0x61] 1 then
          Inr \<lparr>vo_data = take 20 tinyArchive, vo_statError = None, vo_closeError = None\<rparr>
        else if name = volumeName [0x61] 2 then
          Inr \<lparr>vo_data = drop 20 tinyArchive, vo_statError = None, vo_closeError = Some (ErrDecoder 0)\<rparr>
        else if third \<and> name = volumeName [0x61] 3 then
          Inr \<lparr>vo_data = [], vo_statError = Some (ErrDecoder 1), vo_closeError = None\<rparr>
        else Inl (True, ErrDecoder 2)),
      fs_multi = concat\<rparr>"

text \<open>
  C39: Opening ends. \<open>OpenReader\<close> fails to return only when the name is that of a first volume and
  every further number can be opened; so it returns in every file system with finitely
  many files, since different numbers give different names.
\<close>

theorem opening_ends:
  "(OpenReaderWithPassword ren fs name password h = None \<longleftrightarrow>
      (\<exists>v. fs_Open fs (pathClean name) = Inr v \<and> vo_statError v = None) \<and> pathExt name = firstSuffix
      \<and> (\<forall>j\<ge>2. opens fs (trimSuffix name firstSuffix) j))
   \<and> (finite {n. \<exists>v. fs_Open fs n = Inr v} \<longrightarrow> OpenReaderWithPassword ren fs name password h \<noteq> None)"
proof -
  let ?stem = "trimSuffix name firstSuffix"
  have loop: "OpenReaderWithPassword ren fs name password h = None \<longleftrightarrow>
      (\<exists>v. fs_Open fs (pathClean name) = Inr v \<and> vo_statError v = None) \<and> pathExt name = firstSuffix
      \<and> (\<forall>j\<ge>2. opens fs ?stem j)"
    unfolding OpenReader_None
    by (auto simp: volumeLoop_None openReader_def fsOpen_def volumeOf_def fsClose_def dest!: volumeLoop_stopped
        split: sum.splits option.splits prod.splits if_splits)
  have "infinite {n. \<exists>v. fs_Open fs n = Inr v}" if "\<forall>j\<ge>2. opens fs ?stem j"
  proof
    assume "finite {n. \<exists>v. fs_Open fs n = Inr v}"
    moreover have "volumeName ?stem ` {2..} \<subseteq> {n. \<exists>v. fs_Open fs n = Inr v}" using that by (auto simp: opens_def)
    ultimately have "finite (volumeName ?stem ` {2..})" by (rule rev_finite_subset)
    then have "finite {2 :: nat..}" by (rule finite_imageD) (simp add: inj_on_def volumeName_inject)
    then show False by (simp add: infinite_Ici)
  qed
  with loop show ?thesis by blast
qed

theorem opening_ends_witness:
  "OpenReaderWithPassword tinyEnv (tinyVolumes False) (volumeName [0x61] 1) [] noHandles \<noteq> None"
proof -
  have "{n. \<exists>v. fs_Open (tinyVolumes False) n = Inr v} \<subseteq> {volumeName [0x61] 1, volumeName [0x61] 2}"
    by (auto simp: tinyVolumes_def split: if_splits)
  then have "finite {n. \<exists>v. fs_Open (tinyVolumes False) n = Inr v}" by (rule finite_subset) simp
  then show ?thesis using opening_ends [of tinyEnv "tinyVolumes False"] by blast
qed

text \<open>
  C9: The volumes are one archive. When the files with the numbers 1 to n of a name exist and the
  next one does not, opening the first opens all of them, gives their names in order, and reads the archive, or
  fails, exactly as \<open>NewReaderWithPassword\<close> does for the bytes of all of them in one piece, however the
  archive was cut.
\<close>

theorem volumes_are_joined:
  assumes multi: "\<forall>sr. fs_multi fs sr = concat sr"
    and first: "fs_Open fs (pathClean (volumeName stem 1)) = Inr (v 1)" "vo_statError (v 1) = None"
    and rest: "\<forall>i\<in>{2..n}. fs_Open fs (volumeName stem i) = Inr (v i) \<and> vo_statError (v i) = None"
    and last: "1 \<le> n" "fs_Open fs (volumeName stem (Suc n)) = Inl (True, e)"
    and opened: "OpenReaderWithPassword ren fs (volumeName stem 1) password noHandles = r"
  shows "let bytes = concat (map (\<lambda>i. vo_data (v i)) [1..<Suc n]) in
    (case NewReaderWithPassword ren bytes (int (length bytes)) password of
       Inr a \<Rightarrow> (\<exists>rc h. r = Some (Inr rc, h) \<and> ac_Reader rc = a
         \<and> Volumes rc h = pathClean (volumeName stem 1) # map (volumeName stem) [2..<Suc n])
     | Inl e \<Rightarrow> (\<exists>es h. r = Some (Inl (InitialisingFailed es), h)))"
proof -
  let ?bytes = "concat (map (\<lambda>i. vo_data (v i)) [1..<Suc n])"
  define h0 where "h0 = \<lparr>hs_open = [(pathClean (volumeName stem 1), v 1)], hs_closed = []\<rparr>"
  define h where "h = h0\<lparr>hs_open := (pathClean (volumeName stem 1), v 1) # map (\<lambda>j. (volumeName stem j, v j)) [2..<Suc n]\<rparr>"
  obtain m where n: "n = Suc m" using last(1) by (cases n) simp_all
  have "volumeLoop fs stem 2 [0] h0 = Some (Inr ([0] @ [1..<1 + m]),
      h0\<lparr>hs_open := hs_open h0 @ map (\<lambda>j. (volumeName stem j, v j)) [2..<2 + m]\<rparr>)"
    using volumeLoop_all [where n = m and i = 2 and fs = fs and stem = stem and v = v and e = e and h = h0 and files = "[0]"]
      rest last(2) unfolding n by (auto simp: h0_def simp del: upt_Suc)
  moreover have "[0] @ [1..<1 + m] = [0..<n]" by (simp add: n upt_conv_Cons del: upt_Suc)
  ultimately have loop: "volumeLoop fs stem 2 [0] h0 = Some (Inr [0..<n], h)" by (simp add: n h_def h0_def del: upt_Suc)
  have data: "map (\<lambda>k. vo_data (volumeOf h k)) [0..<n] = map (\<lambda>i. vo_data (v i)) [1..<Suc n]"
    by (rule nth_equalityI) (auto simp: h_def volumeOf_def nth_Cons' simp del: upt_Suc)
  have "openReader fs (volumeName stem 1) noHandles = Some (Inr (?bytes, [0..<n]), h)"
  proof -
    have "fsOpen fs (pathClean (volumeName stem 1)) noHandles = (Inr 0, h0)" "volumeOf h0 0 = v 1"
      using first(1) by (simp_all add: fsOpen_def noHandles_def h0_def volumeOf_def)
    then show ?thesis using first(2) loop multi data by (simp only: openReader_def volumeName_ext(2,3) prod.case sum.case option.case if_True simp_thms)
  qed
  moreover have "Volumes \<lparr>ac_f = [0..<n], ac_Reader = a\<rparr> h = pathClean (volumeName stem 1) # map (volumeName stem) [2..<Suc n]" for a
    by (rule nth_equalityI) (use last(1) in \<open>auto simp: Volumes_def h_def nth_Cons' simp del: upt_Suc\<close>)
  ultimately show ?thesis
    using opened unfolding readerInit_new Let_def
    by (auto simp: OpenReaderWithPassword_def simp del: upt_Suc split: sum.splits prod.splits if_splits)
qed

theorem volumes_are_joined_witness:
  "\<exists>rc h. OpenReaderWithPassword tinyEnv (tinyVolumes False) (volumeName [0x61] 1) [] noHandles = Some (Inr rc, h)
    \<and> ac_Reader rc = emptyArchive \<and> Volumes rc h = [volumeName [0x61] 1, volumeName [0x61] 2]"
proof -
  let ?fs = "tinyVolumes False" and ?stem = "[0x61] :: gostring"
  define v where "v i = (case fs_Open ?fs (volumeName ?stem i) of Inr x \<Rightarrow> x)" for i
  have clean: "pathClean (volumeName ?stem 1) = volumeName ?stem 1"
    unfolding volumeName_ext firstSuffix_def by code_simp
  have v: "v 1 = \<lparr>vo_data = take 20 tinyArchive, vo_statError = None, vo_closeError = None\<rparr>"
    "v 2 = \<lparr>vo_data = drop 20 tinyArchive, vo_statError = None, vo_closeError = Some (ErrDecoder 0)\<rparr>"
    "fs_Open ?fs (volumeName ?stem 1) = Inr (v 1)" "fs_Open ?fs (volumeName ?stem 2) = Inr (v 2)"
    "fs_Open ?fs (volumeName ?stem (Suc 2)) = Inl (True, ErrDecoder 2)"
    by (simp_all add: v_def tinyVolumes_def volumeName_inject)
  have up: "[1..<Suc 2] = [1, 2]" "[2..<Suc 2] = [2]" by (simp_all add: upt_rec)
  have "concat (map (\<lambda>i. vo_data (v i)) [1..<Suc 2]) = tinyArchive"
    by (simp only: up list.map v(1,2) volume.simps concat.simps append_take_drop_id append_Nil2)
  with volumes_are_joined [of ?fs ?stem v 2 "ErrDecoder 2" tinyEnv "[]", OF _ _ _ _ _ _ refl] v tiny_opens clean
  show ?thesis by (auto simp: up tinyVolumes_def Let_def simp del: upt_Suc)
qed

text \<open>A third volume without information: all three are closed.\<close>

theorem no_file_left_open_witness:
  "\<exists>e h. OpenReaderWithPassword tinyEnv (tinyVolumes True) (volumeName [0x61] 1) [] noHandles = Some (Inl (InfoFailed e), h)
    \<and> hs_closed h = [0, 1, 2]"
proof -
  let ?fs = "tinyVolumes True" and ?stem = "[0x61] :: gostring"
  have clean: "pathClean (volumeName ?stem 1) = volumeName ?stem 1"
    unfolding volumeName_ext firstSuffix_def by code_simp
  define v where "v i = (case fs_Open ?fs (volumeName ?stem i) of Inr x \<Rightarrow> x)" for i
  have v: "fs_Open ?fs (volumeName ?stem 1) = Inr (v 1)" "fs_Open ?fs (volumeName ?stem 2) = Inr (v 2)"
    "fs_Open ?fs (volumeName ?stem 3) = Inr (v 3)" "vo_statError (v 1) = None" "vo_statError (v 2) = None"
    "vo_statError (v 3) = Some (ErrDecoder 1)"
    by (simp_all add: v_def tinyVolumes_def volumeName_inject)
  have "volumeLoop ?fs ?stem 2 [0] \<lparr>hs_open = [(n, x)], hs_closed = []\<rparr> =
      volumeLoop ?fs ?stem 3 [0, 1] \<lparr>hs_open = [(n, x), (volumeName ?stem 2, v 2)], hs_closed = []\<rparr>" for n x
    using volumeLoop_step [OF v(2,5)] by simp
  moreover have "\<exists>e. volumeLoop ?fs ?stem 3 [0, 1] \<lparr>hs_open = [a, b], hs_closed = []\<rparr> =
      Some (Inl (InfoFailed e), \<lparr>hs_open = [a, b, (volumeName ?stem 3, v 3)], hs_closed = [0, 1, 2]\<rparr>)" for a b
    by (subst volumeLoop.simps) (simp add: fsOpen_def v volumeOf_def closeAll_eq)
  ultimately obtain e where loop: "volumeLoop ?fs ?stem 2 [0] \<lparr>hs_open = [(volumeName ?stem 1, v 1)], hs_closed = []\<rparr> =
      Some (Inl (InfoFailed e), \<lparr>hs_open = [(volumeName ?stem 1, v 1), (volumeName ?stem 2, v 2), (volumeName ?stem 3, v 3)],
        hs_closed = [0, 1, 2]\<rparr>)" by metis
  let ?h = "\<lparr>hs_open = [(volumeName ?stem 1, v 1)], hs_closed = []\<rparr>"
  have "fsOpen ?fs (volumeName ?stem 1) noHandles = (Inr 0, ?h)" "volumeOf ?h 0 = v 1"
    using v(1) by (simp_all add: fsOpen_def noHandles_def volumeOf_def)
  then have "\<exists>e h. openReader ?fs (volumeName ?stem 1) noHandles = Some (Inl (InfoFailed e), h) \<and> length (hs_open h) = 3"
    using v(4) loop
    by (simp add: openReader_def clean volumeName_ext(2,3) del: One_nat_def)
  then have "\<exists>e h. OpenReaderWithPassword tinyEnv ?fs (volumeName ?stem 1) [] noHandles = Some (Inl (InfoFailed e), h)
      \<and> length (hs_open h) = 3"
    by (auto simp: OpenReaderWithPassword_def)
  then obtain e h where o: "OpenReaderWithPassword tinyEnv ?fs (volumeName ?stem 1) [] noHandles = Some (Inl (InfoFailed e), h)"
    "length (hs_open h) = 3" by blast
  have "hs_closed h = [0..<3]" using no_file_left_open [OF o(1)] o(2) by (simp add: allClosed_def)
  also have "\<dots> = [0, 1, 2]" by (simp add: upt_rec)
  finally show ?thesis using o(1) by blast
qed

end
