(* ===== verification/Encoder_Pool.thy ===== *)
theory Encoder_Pool
  imports Writer_Data "HOL-Library.Multiset"
begin

text \<open>
  The pools of LZMA2 encoders of \<open>writer.go\<close>: used encoders are kept by their dictionary size and
  concurrency, and are reset to another writer when they are taken again. The encoder of the library is an
  argument, named by numbers here as the pool holds pointers; what
  is relied on is that a reset encoder behaves as a new one of the same configuration. Theory \<open>Writer\<close> works
  with new encoders only; here it is shown that this makes no difference to the bytes.
\<close>

section \<open>Encoders\<close>

record 'e encoderLib =
  e_new :: "int \<Rightarrow> int \<Rightarrow> 'e result"
  e_reset :: "'e \<Rightarrow> 'e"
  e_write :: "'e \<Rightarrow> byte list \<Rightarrow> 'e \<times> byte list"
  e_close :: "'e \<Rightarrow> 'e \<times> byte list"

record poolKey =
  ky_dictCap :: int
  ky_concurrency :: int

text \<open>The pools are created on demand; one that does not exist is an empty one.\<close>

record 'e encoders =
  en_all :: "'e list"
  en_pools :: "poolKey \<Rightarrow> nat list"

definition noEncoders :: "'e encoders" where
  "noEncoders = \<lparr>en_all = [], en_pools = (\<lambda>_. [])\<rparr>"

text \<open>\<open>sync.Pool.Get\<close> may return any element, or none, which is the argument \<open>g\<close>.\<close>

definition getLZMAWriter ::
    "'e encoderLib \<Rightarrow> nat option \<Rightarrow> int \<Rightarrow> int \<Rightarrow> 'e encoders \<Rightarrow> nat result \<times> 'e encoders" where
  "getLZMAWriter L g dictCap concurrency s =
     (let key = \<lparr>ky_dictCap = dictCap, ky_concurrency = concurrency\<rparr>; pool = en_pools s key in
      case g of
        Some i \<Rightarrow>
          if i < length pool then
            let k = pool ! i in
            (Inr k, s\<lparr>en_pools := (en_pools s)(key := take i pool @ drop (Suc i) pool),
                      en_all := (en_all s)[k := e_reset L (en_all s ! k)]\<rparr>)
          else
            (case e_new L dictCap concurrency of
               Inl e \<Rightarrow> (Inl e, s)
             | Inr z \<Rightarrow> (Inr (length (en_all s)), s\<lparr>en_all := en_all s @ [z]\<rparr>))
      | None \<Rightarrow>
          (case e_new L dictCap concurrency of
             Inl e \<Rightarrow> (Inl e, s)
           | Inr z \<Rightarrow> (Inr (length (en_all s)), s\<lparr>en_all := en_all s @ [z]\<rparr>)))"

definition putLZMAWriter :: "nat \<Rightarrow> int \<Rightarrow> int \<Rightarrow> 'e encoders \<Rightarrow> 'e encoders" where
  "putLZMAWriter k dictCap concurrency s =
     (let key = \<lparr>ky_dictCap = dictCap, ky_concurrency = concurrency\<rparr> in s\<lparr>en_pools := (en_pools s)(key := k # en_pools s key)\<rparr>)"

text \<open>The life of an encoder for its folder: \<open>Write\<close>, and \<open>Close\<close>, after which it is put back.\<close>

definition encoderWrite :: "'e encoderLib \<Rightarrow> nat \<Rightarrow> byte list \<Rightarrow> 'e encoders \<Rightarrow> byte list \<times> 'e encoders" where
  "encoderWrite L k p s =
     (let (z, out) = e_write L (en_all s ! k) p in (out, s\<lparr>en_all := (en_all s)[k := z]\<rparr>))"

definition encoderClose ::
    "'e encoderLib \<Rightarrow> nat \<Rightarrow> int \<Rightarrow> int \<Rightarrow> 'e encoders \<Rightarrow> byte list \<times> 'e encoders" where
  "encoderClose L k dictCap concurrency s =
     (let (z, out) = e_close L (en_all s ! k);
          s = s\<lparr>en_all := (en_all s)[k := z]\<rparr>
      in (out, putLZMAWriter k dictCap concurrency s))"

section \<open>Behaviour\<close>

text \<open>What a sequence of writes, and the close after it, hand to the writer underneath.\<close>

fun encWrites :: "'e encoderLib \<Rightarrow> 'e \<Rightarrow> byte list list \<Rightarrow> 'e \<times> byte list list" where
  "encWrites L z [] = (z, [])"
| "encWrites L z (p # ps) =
     (let (z, out) = e_write L z p; (z, outs) = encWrites L z ps in (z, out # outs))"

definition encClosed :: "'e encoderLib \<Rightarrow> 'e \<Rightarrow> byte list list \<Rightarrow> byte list" where
  "encClosed L z ps = snd (e_close L (fst (encWrites L z ps)))"

definition alike :: "'e encoderLib \<Rightarrow> 'e \<Rightarrow> 'e \<Rightarrow> bool" where
  "alike L y z \<longleftrightarrow> (\<forall>ps. snd (encWrites L y ps) = snd (encWrites L z ps) \<and> encClosed L y ps = encClosed L z ps)"

text \<open>What an encoder can become.\<close>

inductive becomes :: "'e encoderLib \<Rightarrow> 'e \<Rightarrow> 'e \<Rightarrow> bool" for L z where
  new: "becomes L z z"
| writes: "becomes L z y \<Longrightarrow> becomes L z (fst (e_write L y p))"
| close: "becomes L z y \<Longrightarrow> becomes L z (fst (e_close L y))"
| reset: "becomes L z y \<Longrightarrow> becomes L z (e_reset L y)"

text \<open>The documentation of \<open>Reset\<close>: whatever an encoder was used for, it is then like a new one.\<close>

definition reset_law :: "'e encoderLib \<Rightarrow> bool" where
  "reset_law L \<longleftrightarrow> (\<forall>d c z y. e_new L d c = Inr z \<longrightarrow> becomes L z y \<longrightarrow> alike L (e_reset L y) z)"

lemma encWrites_Cons [simp]:
  "encWrites L z (p # ps) =
     (fst (encWrites L (fst (e_write L z p)) ps), snd (e_write L z p) # snd (encWrites L (fst (e_write L z p)) ps))"
  by (simp add: split_def Let_def)

declare encWrites.simps(2) [simp del]

lemma encWrites_snoc [simp]:
  "encWrites L z (ps @ [p]) =
     (fst (e_write L (fst (encWrites L z ps)) p), snd (encWrites L z ps) @ [snd (e_write L (fst (encWrites L z ps)) p)])"
  by (induction ps arbitrary: z) simp_all

lemma alike_write:
  assumes "alike L y z"
  shows "snd (e_write L y p) = snd (e_write L z p)" and "alike L (fst (e_write L y p)) (fst (e_write L z p))"
proof -
  have all: "snd (encWrites L y (p # ps)) = snd (encWrites L z (p # ps))" "encClosed L y (p # ps) = encClosed L z (p # ps)" for ps
    using assms unfolding alike_def by blast+
  show "snd (e_write L y p) = snd (e_write L z p)" using all(1) [of "[]"] by simp
  show "alike L (fst (e_write L y p)) (fst (e_write L z p))"
    unfolding alike_def using all by (simp add: encClosed_def)
qed

lemma alike_close: "alike L y z \<Longrightarrow> snd (e_close L y) = snd (e_close L z)"
  unfolding alike_def encClosed_def by (metis encWrites.simps(1) fst_conv)

section \<open>All uses of the pools\<close>

text \<open>An encoder in use, what was written to it and what it has produced.\<close>

record encUse =
  us_enc :: nat
  us_dictCap :: int
  us_concurrency :: int
  us_writes :: "byte list list"
  us_out :: "byte list list"
  us_closed :: bool

text \<open>The runs: encoders are taken, written to and closed in any order; the collector may empty the pools.\<close>

inductive encRun :: "'e encoderLib \<Rightarrow> 'e encoders \<Rightarrow> encUse list \<Rightarrow> bool" for L where
  start: "encRun L noEncoders []"
| get: "encRun L s us \<Longrightarrow> getLZMAWriter L g d c s = (Inr k, s') \<Longrightarrow>
    encRun L s' (us @ [\<lparr>us_enc = k, us_dictCap = d, us_concurrency = c, us_writes = [], us_out = [], us_closed = False\<rparr>])"
| fails: "encRun L s us \<Longrightarrow> getLZMAWriter L g d c s = (Inl e, s') \<Longrightarrow> encRun L s' us"
| writes: "encRun L s us \<Longrightarrow> i < length us \<Longrightarrow> u = us ! i \<Longrightarrow> \<not> us_closed u \<Longrightarrow>
    encoderWrite L (us_enc u) p s = (out, s') \<Longrightarrow>
    encRun L s' (us[i := u\<lparr>us_writes := us_writes u @ [p], us_out := us_out u @ [out]\<rparr>])"
| close: "encRun L s us \<Longrightarrow> i < length us \<Longrightarrow> u = us ! i \<Longrightarrow> \<not> us_closed u \<Longrightarrow>
    encoderClose L (us_enc u) (us_dictCap u) (us_concurrency u) s = (out, s') \<Longrightarrow>
    encRun L s' (us[i := u\<lparr>us_out := us_out u @ [out], us_closed := True\<rparr>])"
| collect: "encRun L s us \<Longrightarrow> encRun L (s\<lparr>en_pools := (\<lambda>key. filter (P key) (en_pools s key))\<rparr>) us"

section \<open>The invariant\<close>

text \<open>
  Encoders in use are distinct and not in a pool, pools are disjoint; an encoder in the pool of a
  configuration was made for it, and one in use behaves as a new one would after the same writes.
\<close>

definition heldBy :: "encUse list \<Rightarrow> nat multiset" where
  "heldBy us = image_mset us_enc (filter_mset (\<lambda>u. \<not> us_closed u) (mset us))"

definition madeFor :: "'e encoderLib \<Rightarrow> poolKey \<Rightarrow> 'e \<Rightarrow> bool" where
  "madeFor L key y \<longleftrightarrow> (\<exists>z. e_new L (ky_dictCap key) (ky_concurrency key) = Inr z \<and> becomes L z y)"

definition asNew :: "'e encoderLib \<Rightarrow> encUse \<Rightarrow> 'e \<Rightarrow> bool" where
  "asNew L u y \<longleftrightarrow>
     (\<exists>z. e_new L (us_dictCap u) (us_concurrency u) = Inr z \<and> becomes L z y
        \<and> alike L y (fst (encWrites L z (us_writes u))) \<and> us_out u = snd (encWrites L z (us_writes u)))"

definition finishedAsNew :: "'e encoderLib \<Rightarrow> encUse \<Rightarrow> bool" where
  "finishedAsNew L u \<longleftrightarrow>
     (\<exists>z. e_new L (us_dictCap u) (us_concurrency u) = Inr z
        \<and> us_out u = snd (encWrites L z (us_writes u)) @ [encClosed L z (us_writes u)])"

definition exclusively :: "'e encoders \<Rightarrow> encUse list \<Rightarrow> bool" where
  "exclusively s us \<longleftrightarrow>
     (\<forall>k. count (heldBy us) k \<le> 1)
     \<and> (\<forall>key. distinct (en_pools s key) \<and> set (en_pools s key) \<inter> set_mset (heldBy us) = {})
     \<and> (\<forall>key key'. key \<noteq> key' \<longrightarrow> set (en_pools s key) \<inter> set (en_pools s key') = {})
     \<and> (\<forall>k\<in>#heldBy us. k < length (en_all s)) \<and> (\<forall>key. \<forall>k\<in>set (en_pools s key). k < length (en_all s))"

definition faithful :: "'e encoderLib \<Rightarrow> 'e encoders \<Rightarrow> encUse list \<Rightarrow> bool" where
  "faithful L s us \<longleftrightarrow>
     (\<forall>u\<in>set us. if us_closed u then finishedAsNew L u else asNew L u (en_all s ! us_enc u))
     \<and> (\<forall>key. \<forall>k\<in>set (en_pools s key). madeFor L key (en_all s ! k))"

lemma heldBy_append: "heldBy (us @ vs) = heldBy us + heldBy vs"
  by (simp add: heldBy_def)

lemma heldBy_single [simp]: "heldBy [] = {#}" "heldBy [u] = (if us_closed u then {#} else {#us_enc u#})"
  by (simp_all add: heldBy_def)

lemma heldBy_mem: "u \<in> set us \<Longrightarrow> \<not> us_closed u \<Longrightarrow> us_enc u \<in># heldBy us"
  by (simp add: heldBy_def)

text \<open>All the others, when one encoder in use is set aside.\<close>

lemma heldBy_update:
  assumes "i < length us" and "\<not> us_closed (us ! i)"
  shows "heldBy us = add_mset (us_enc (us ! i)) (heldBy (take i us @ drop (Suc i) us))"
    and "heldBy (us[i := v]) = heldBy [v] + heldBy (take i us @ drop (Suc i) us)"
proof -
  have "heldBy (take i us @ us ! i # drop (Suc i) us) = heldBy [us ! i] + heldBy (take i us @ drop (Suc i) us)"
    using heldBy_append [of "take i us" "us ! i # drop (Suc i) us"] heldBy_append [of "[us ! i]" "drop (Suc i) us"]
      heldBy_append [of "take i us" "drop (Suc i) us"] by simp
  with assms show "heldBy us = add_mset (us_enc (us ! i)) (heldBy (take i us @ drop (Suc i) us))"
    by (simp add: id_take_nth_drop [symmetric])
  show "heldBy (us[i := v]) = heldBy [v] + heldBy (take i us @ drop (Suc i) us)"
    using assms(1) heldBy_append [of "take i us" "v # drop (Suc i) us"] heldBy_append [of "[v]" "drop (Suc i) us"]
      heldBy_append [of "take i us" "drop (Suc i) us"] by (simp add: upd_conv_take_nth_drop)
qed

lemma set_update_cases: "i < length us \<Longrightarrow> u \<in> set (us[i := v]) \<Longrightarrow> u = v \<or> u \<in> set (take i us @ drop (Suc i) us)"
  by (auto simp: upd_conv_take_nth_drop)

lemma set_others: "u \<in> set (take i us @ drop (Suc i) us) \<Longrightarrow> u \<in> set us"
  by (auto dest: in_set_takeD in_set_dropD)

text \<open>The parts of the invariant.\<close>

lemma exclusivelyD:
  assumes "exclusively s us"
  shows "count (heldBy us) k \<le> 1" and "distinct (en_pools s key)"
    and "k \<in> set (en_pools s key) \<Longrightarrow> k \<notin># heldBy us"
    and "k \<in> set (en_pools s key) \<Longrightarrow> k \<in> set (en_pools s key') \<Longrightarrow> key = key'"
    and "k \<in># heldBy us \<Longrightarrow> k < length (en_all s)"
    and "k \<in> set (en_pools s key) \<Longrightarrow> k < length (en_all s)"
  using assms unfolding exclusively_def by blast+

lemma exclusivelyI:
  assumes "\<And>k. count (heldBy us) k \<le> 1" and "\<And>key. distinct (en_pools s key)"
    and "\<And>k key. k \<in> set (en_pools s key) \<Longrightarrow> k \<notin># heldBy us"
    and "\<And>k key key'. k \<in> set (en_pools s key) \<Longrightarrow> k \<in> set (en_pools s key') \<Longrightarrow> key = key'"
    and "\<And>k. k \<in># heldBy us \<Longrightarrow> k < length (en_all s)"
    and "\<And>k key. k \<in> set (en_pools s key) \<Longrightarrow> k < length (en_all s)"
  shows "exclusively s us"
  using assms unfolding exclusively_def by blast

text \<open>The encoder of an open use belongs to it alone.\<close>

lemma exclusively_others:
  assumes "exclusively s us" and "i < length us" and "\<not> us_closed (us ! i)"
    and "u \<in> set (take i us @ drop (Suc i) us)" and "\<not> us_closed u"
  shows "us_enc u \<noteq> us_enc (us ! i)"
proof
  assume same: "us_enc u = us_enc (us ! i)"
  have "us_enc u \<in># heldBy (take i us @ drop (Suc i) us)" using assms(4,5) by (rule heldBy_mem)
  then have "2 \<le> count (heldBy us) (us_enc u)"
    by (simp add: heldBy_update(1) [OF assms(2,3)] same Suc_le_eq del: count_greater_zero_iff flip: count_greater_zero_iff)
  with exclusivelyD(1) [OF assms(1), of "us_enc u"] show False by simp
qed

lemma exclusively_pooled:
  assumes "exclusively s us" and "u \<in> set us" and "\<not> us_closed u"
  shows "us_enc u \<notin> set (en_pools s key)" and "us_enc u < length (en_all s)"
  using exclusivelyD(3,5) [OF assms(1)] heldBy_mem [OF assms(2,3)] by blast+

section \<open>Steps\<close>

lemma getLZMAWriter_cases:
  assumes "getLZMAWriter L g d c s = (Inr k, s')"
  obtains (pooled) i key where "key = \<lparr>ky_dictCap = d, ky_concurrency = c\<rparr>"
      "i < length (en_pools s key)" "k = en_pools s key ! i"
      "s' = s\<lparr>en_pools := (en_pools s)(key := take i (en_pools s key) @ drop (Suc i) (en_pools s key)),
              en_all := (en_all s)[k := e_reset L (en_all s ! k)]\<rparr>"
    | (fresh) z where "e_new L d c = Inr z" "k = length (en_all s)" "s' = s\<lparr>en_all := en_all s @ [z]\<rparr>"
  using assms by (auto simp: getLZMAWriter_def Let_def split: option.splits if_splits sum.splits)

lemma getLZMAWriter_fails: "getLZMAWriter L g d c s = (Inl e, s') \<Longrightarrow> s' = s"
  by (auto simp: getLZMAWriter_def Let_def split: option.splits if_splits sum.splits)

lemma distinct_without:
  assumes "distinct xs" and "i < length xs"
  shows "distinct (take i xs @ drop (Suc i) xs)" and "set (take i xs @ drop (Suc i) xs) = set xs - {xs ! i}"
proof -
  have xs: "xs = take i xs @ xs ! i # drop (Suc i) xs" using assms(2) by (rule id_take_nth_drop)
  with assms(1) have d: "distinct (take i xs @ xs ! i # drop (Suc i) xs)" by metis
  then show "distinct (take i xs @ drop (Suc i) xs)" by simp
  have "set (take i xs @ xs ! i # drop (Suc i) xs) - {xs ! i} = set (take i xs @ drop (Suc i) xs)" using d by auto
  with xs show "set (take i xs @ drop (Suc i) xs) = set xs - {xs ! i}" by metis
qed

text \<open>Taking an encoder: it was in one pool at most and is in none afterwards.\<close>

lemma get_takes_all:
  assumes "exclusively s us" and "getLZMAWriter L g d c s = (Inr k, s')"
  shows "k \<notin># heldBy us \<and> k < length (en_all s') \<and> length (en_all s) \<le> length (en_all s')
    \<and> (\<forall>key. distinct (en_pools s' key) \<and> set (en_pools s' key) = set (en_pools s key) - {k})
    \<and> (\<forall>j<length (en_all s). j \<noteq> k \<longrightarrow> en_all s' ! j = en_all s ! j)"
  using assms(2)
proof (cases rule: getLZMAWriter_cases)
  case (pooled i key0)
  note w = distinct_without [OF exclusivelyD(2) [OF assms(1)] pooled(2)]
  have k: "k \<in> set (en_pools s key0)" using pooled(2,3) by simp
  have "distinct (en_pools s' key) \<and> set (en_pools s' key) = set (en_pools s key) - {k}" for key
  proof (cases "key = key0")
    case True
    with w show ?thesis by (simp add: pooled(4)) (simp add: pooled(3))
  next
    case False
    then have "k \<notin> set (en_pools s key)" using exclusivelyD(4) [OF assms(1) k, of key] by blast
    with False exclusivelyD(2) [OF assms(1), of key] show ?thesis by (simp add: pooled(4))
  qed
  moreover have "length (en_all s') = length (en_all s)" "\<forall>j<length (en_all s). j \<noteq> k \<longrightarrow> en_all s' ! j = en_all s ! j"
    by (simp_all add: pooled(4))
  ultimately show ?thesis using exclusivelyD(3,6) [OF assms(1) k] by simp
next
  case (fresh z)
  have "k \<notin> set (en_pools s key)" "k \<notin># heldBy us" for key
    using exclusivelyD(5,6) [OF assms(1), of k] fresh(2) by blast+
  then show ?thesis
    using exclusivelyD(2) [OF assms(1)] by (simp add: fresh nth_append)
qed

lemma get_takes:
  assumes "exclusively s us" and "getLZMAWriter L g d c s = (Inr k, s')"
  shows "k \<notin># heldBy us" and "k < length (en_all s')" and "length (en_all s) \<le> length (en_all s')"
    and "distinct (en_pools s' key)" and "set (en_pools s' key) = set (en_pools s key) - {k}"
    and "j < length (en_all s) \<Longrightarrow> j \<noteq> k \<Longrightarrow> en_all s' ! j = en_all s ! j"
  using get_takes_all [OF assms] by blast+

lemma exclusively_get:
  assumes "exclusively s us" and "getLZMAWriter L g d c s = (Inr k, s')" and "\<not> us_closed u" and "us_enc u = k"
  shows "exclusively s' (us @ [u])"
proof -
  note t = get_takes [OF assms(1,2)] and d = exclusivelyD [OF assms(1)]
  have h: "heldBy (us @ [u]) = add_mset k (heldBy us)" using assms(3,4) by (simp add: heldBy_append)
  show ?thesis
  proof (rule exclusivelyI)
    show "count (heldBy (us @ [u])) j \<le> 1" for j using t(1) d(1) [of j] by (auto simp: h not_in_iff)
    show "j \<in># heldBy (us @ [u]) \<Longrightarrow> j < length (en_all s')" for j using t(2,3) d(5) [of j] by (auto simp: h)
    show "distinct (en_pools s' key)" for key by (rule t(4))
    show "j \<notin># heldBy (us @ [u])" if "j \<in> set (en_pools s' key)" for j key
      using that d(3) [of j key] by (auto simp: h t(5))
    show "key = key'" if "j \<in> set (en_pools s' key)" "j \<in> set (en_pools s' key')" for j key key'
      using that d(4) [of j key key'] by (simp add: t(5))
    show "j < length (en_all s')" if "j \<in> set (en_pools s' key)" for j key
      using that d(6) [of j key] t(3) by (simp add: t(5))
  qed
qed

lemma exclusively_same:
  assumes "exclusively s us" and "heldBy us' = heldBy us" and "en_pools s' = en_pools s"
    and "length (en_all s') = length (en_all s)"
  shows "exclusively s' us'"
  using assms by (simp add: exclusively_def)

lemma exclusively_collect:
  assumes "exclusively s us"
  shows "exclusively (s\<lparr>en_pools := (\<lambda>key. filter (P key) (en_pools s key))\<rparr>) us"
  using exclusivelyD [OF assms] by (intro exclusivelyI) auto

lemma exclusively_close:
  assumes "exclusively s us" and "i < length us" and "u = us ! i" and "\<not> us_closed u" and "us_closed v"
    and "en_pools s' = (en_pools s)(key0 := us_enc u # en_pools s key0)" and "length (en_all s') = length (en_all s)"
  shows "exclusively s' (us[i := v])"
proof -
  note d = exclusivelyD [OF assms(1)]
  have h: "heldBy us = add_mset (us_enc u) (heldBy (us[i := v]))"
    using heldBy_update [OF assms(2)] assms(3-5) by simp
  have new: "us_enc u \<notin># heldBy (us[i := v])" using d(1) [of "us_enc u"] by (simp add: h not_in_iff)
  have p: "us_enc u \<notin> set (en_pools s key)" "us_enc u < length (en_all s)" for key
    using exclusively_pooled [OF assms(1) _ assms(4)] assms(2,3) by simp_all
  have mem: "k \<in> set (en_pools s' key) \<longleftrightarrow> key = key0 \<and> k = us_enc u \<or> k \<in> set (en_pools s key)" for k key
    by (auto simp: assms(6))
  show ?thesis
  proof (rule exclusivelyI)
    show "count (heldBy (us[i := v])) k \<le> 1" for k using d(1) [of k] by (simp add: h split: if_splits)
    show "distinct (en_pools s' key)" for key using d(2) p(1) by (simp add: assms(6))
    show "k \<notin># heldBy (us[i := v])" if "k \<in> set (en_pools s' key)" for k key
      using that new d(3) [of k key] by (auto simp: mem h)
    show "key = key'" if "k \<in> set (en_pools s' key)" "k \<in> set (en_pools s' key')" for k key key'
      using that d(4) [of k key key'] p(1) by (auto simp: mem)
    show "k < length (en_all s')" if "k \<in># heldBy (us[i := v])" for k using that d(5) [of k] by (simp add: h assms(7))
    show "k < length (en_all s')" if "k \<in> set (en_pools s' key)" for k key
      using that d(6) [of k key] p(2) by (auto simp: mem assms(7))
  qed
qed

section \<open>Encoders are like new\<close>

text \<open>Of one use, in a state.\<close>

definition usedAsNew :: "'e encoderLib \<Rightarrow> 'e encoders \<Rightarrow> encUse \<Rightarrow> bool" where
  "usedAsNew L s u \<longleftrightarrow> (if us_closed u then finishedAsNew L u else asNew L u (en_all s ! us_enc u))"

lemma usedAsNew_same: "usedAsNew L s u \<Longrightarrow> us_closed u \<or> en_all s' ! us_enc u = en_all s ! us_enc u \<Longrightarrow> usedAsNew L s' u"
  by (auto simp: usedAsNew_def)

lemma faithful_iff:
  "faithful L s us \<longleftrightarrow> (\<forall>u\<in>set us. usedAsNew L s u) \<and> (\<forall>key. \<forall>k\<in>set (en_pools s key). madeFor L key (en_all s ! k))"
  by (simp add: faithful_def usedAsNew_def)

lemma faithful_get:
  assumes law: "reset_law L" and ok: "exclusively s us" "faithful L s us"
    and get: "getLZMAWriter L g d c s = (Inr k, s')"
    and u: "u = \<lparr>us_enc = k, us_dictCap = d, us_concurrency = c, us_writes = [], us_out = [], us_closed = False\<rparr>"
  shows "faithful L s' (us @ [u])"
proof -
  note t = get_takes [OF ok(1) get]
  have "asNew L u (en_all s' ! k)" using get
  proof (cases rule: getLZMAWriter_cases)
    case (pooled i key)
    have k: "k \<in> set (en_pools s key)" using pooled(2,3) by simp
    then have "madeFor L key (en_all s ! k)" "k < length (en_all s)"
      using ok(2) exclusivelyD(6) [OF ok(1) k] by (auto simp: faithful_iff)
    then show ?thesis
      using law by (auto simp: asNew_def madeFor_def reset_law_def pooled(1,4) u intro: becomes.reset)
  next
    case (fresh z)
    then show ?thesis by (auto simp: asNew_def u alike_def intro: becomes.new)
  qed
  then have "usedAsNew L s' u" by (simp add: usedAsNew_def u)
  moreover have "usedAsNew L s' v" if v: "v \<in> set us" for v
  proof (rule usedAsNew_same [of L s])
    show "usedAsNew L s v" using ok(2) v by (simp add: faithful_iff)
    show "us_closed v \<or> en_all s' ! us_enc v = en_all s ! us_enc v"
      using heldBy_mem [OF v] exclusively_pooled(2) [OF ok(1) v] t(1) t(6) [of "us_enc v"] by metis
  qed
  moreover have "madeFor L key (en_all s' ! j)" if "j \<in> set (en_pools s' key)" for key j
    using that ok(2) exclusivelyD(6) [OF ok(1), of j key] t(6) [of j] by (simp add: t(5) faithful_iff)
  ultimately show ?thesis by (auto simp: faithful_iff)
qed

text \<open>A write or a close touches the encoder of one use only.\<close>

lemma faithful_use:
  assumes ok: "exclusively s us" "faithful L s us" and i: "i < length us" "u = us ! i" "\<not> us_closed u"
    and s': "en_all s' = (en_all s)[us_enc u := y]" and v: "usedAsNew L s' v"
    and pools: "\<And>key k. k \<in> set (en_pools s' key) \<Longrightarrow> k = us_enc u \<and> madeFor L key y \<or> k \<in> set (en_pools s key)"
  shows "faithful L s' (us[i := v])"
proof -
  have u: "us_enc u \<notin> set (en_pools s key)" "us_enc u < length (en_all s)" for key
    using exclusively_pooled [OF ok(1) _ i(3)] i(1,2) by simp_all
  have "usedAsNew L s' x" if x: "x \<in> set (us[i := v])" for x
    using set_update_cases [OF i(1) x]
  proof
    assume o: "x \<in> set (take i us @ drop (Suc i) us)"
    have "us_closed x \<or> us_enc x \<noteq> us_enc u" using exclusively_others [OF ok(1) i(1) _ o] i(2,3) by blast
    moreover have "usedAsNew L s x" using ok(2) set_others [OF o] by (simp add: faithful_iff)
    ultimately show ?thesis by (rule_tac usedAsNew_same) (auto simp: s')
  qed (use v in simp)
  moreover have "madeFor L key (en_all s' ! k)" if "k \<in> set (en_pools s' key)" for key k
    using pools [OF that]
  proof
    assume "k = us_enc u \<and> madeFor L key y"
    with u(2) show ?thesis by (simp add: s')
  next
    assume k: "k \<in> set (en_pools s key)"
    with u(1) have "k \<noteq> us_enc u" by metis
    with k ok(2) show ?thesis by (simp add: s' faithful_iff)
  qed
  ultimately show ?thesis by (simp add: faithful_iff)
qed

lemma faithful_write:
  assumes ok: "exclusively s us" "faithful L s us" and i: "i < length us" "u = us ! i" "\<not> us_closed u"
    and wr: "encoderWrite L (us_enc u) p s = (out, s')"
  shows "faithful L s' (us[i := u\<lparr>us_writes := us_writes u @ [p], us_out := us_out u @ [out]\<rparr>])"
proof (rule faithful_use [OF ok i])
  let ?y = "en_all s ! us_enc u"
  have s': "s' = s\<lparr>en_all := (en_all s)[us_enc u := fst (e_write L ?y p)]\<rparr>" and out: "out = snd (e_write L ?y p)"
    using wr by (auto simp: encoderWrite_def split: prod.splits)
  show "en_all s' = (en_all s)[us_enc u := fst (e_write L ?y p)]" by (simp add: s')
  have "us_enc u < length (en_all s)" using exclusively_pooled(2) [OF ok(1) _ i(3)] i(1,2) by simp
  moreover have "asNew L u ?y" using ok(2) i by (auto simp: faithful_def)
  then have "asNew L (u\<lparr>us_writes := us_writes u @ [p], us_out := us_out u @ [out]\<rparr>) (fst (e_write L ?y p))"
    by (auto simp: asNew_def out alike_write intro: becomes.writes)
  ultimately show "usedAsNew L s' (u\<lparr>us_writes := us_writes u @ [p], us_out := us_out u @ [out]\<rparr>)"
    using i(3) by (simp add: usedAsNew_def s')
qed (use wr in \<open>auto simp: encoderWrite_def split: prod.splits\<close>)

lemma faithful_close:
  assumes ok: "exclusively s us" "faithful L s us" and i: "i < length us" "u = us ! i" "\<not> us_closed u"
    and cl: "encoderClose L (us_enc u) (us_dictCap u) (us_concurrency u) s = (out, s')"
  shows "faithful L s' (us[i := u\<lparr>us_out := us_out u @ [out], us_closed := True\<rparr>])"
proof (rule faithful_use [OF ok i])
  let ?y = "en_all s ! us_enc u" and ?key = "\<lparr>ky_dictCap = us_dictCap u, ky_concurrency = us_concurrency u\<rparr>"
  have s': "s' = s\<lparr>en_all := (en_all s)[us_enc u := fst (e_close L ?y)],
      en_pools := (en_pools s)(?key := us_enc u # en_pools s ?key)\<rparr>" and out: "out = snd (e_close L ?y)"
    using cl by (auto simp: encoderClose_def putLZMAWriter_def Let_def split: prod.splits)
  show "en_all s' = (en_all s)[us_enc u := fst (e_close L ?y)]" by (simp add: s')
  have new: "asNew L u ?y" using ok(2) i by (auto simp: faithful_def)
  then show "usedAsNew L s' (u\<lparr>us_out := us_out u @ [out], us_closed := True\<rparr>)"
    by (auto simp: usedAsNew_def finishedAsNew_def asNew_def out encClosed_def alike_close)
  show "k = us_enc u \<and> madeFor L key (fst (e_close L ?y)) \<or> k \<in> set (en_pools s key)"
    if "k \<in> set (en_pools s' key)" for key k
    using that new by (auto simp: s' asNew_def madeFor_def intro: becomes.close split: if_splits)
qed

lemma encRun_invariant:
  assumes "encRun L s us" and "reset_law L"
  shows "exclusively s us \<and> faithful L s us"
  using assms(1)
proof (induction rule: encRun.induct)
  case start
  then show ?case by (auto simp: exclusively_def faithful_def noEncoders_def)
next
  case (get s us g d c k s')
  then show ?case using exclusively_get [OF _ get.hyps(2)] faithful_get [OF assms(2) _ _ get.hyps(2) refl] by simp
next
  case (fails s us g d c e s')
  then show ?case using getLZMAWriter_fails by blast
next
  case (writes s us i u p out s')
  let ?v = "u\<lparr>us_writes := us_writes u @ [p], us_out := us_out u @ [out]\<rparr>"
  have "heldBy (us[i := ?v]) = heldBy us"
    using heldBy_update [of i us] writes.hyps by simp
  moreover have "en_pools s' = en_pools s" "length (en_all s') = length (en_all s)"
    using writes.hyps(5) by (auto simp: encoderWrite_def split: prod.splits)
  ultimately show ?case
    using exclusively_same [of s us] faithful_write [OF _ _ writes.hyps(2-5)] writes.IH by simp
next
  case (close s us i u out s')
  have "en_pools s' = (en_pools s)(\<lparr>ky_dictCap = us_dictCap u, ky_concurrency = us_concurrency u\<rparr> :=
      us_enc u # en_pools s \<lparr>ky_dictCap = us_dictCap u, ky_concurrency = us_concurrency u\<rparr>)"
    "length (en_all s') = length (en_all s)"
    using close.hyps(5) by (auto simp: encoderClose_def putLZMAWriter_def Let_def split: prod.splits)
  from exclusively_close [OF _ close.hyps(2-4) _ this] faithful_close [OF _ _ close.hyps(2-5)] close.IH show ?case by simp
next
  case (collect s us P)
  then show ?case using exclusively_collect by (auto simp: faithful_iff usedAsNew_def)
qed

text \<open>
  The encoders as theory \<open>Writer\<close> uses them: always new. A closed use has handed on what \<open>lzAll\<close> says,
  on which the invariants of the writer are built.
\<close>

definition newEncoders :: "'e encoderLib \<Rightarrow> 'e lzmaLib \<Rightarrow> 'e lzmaLib" where
  "newEncoders L M =
     M\<lparr>lzNew := (\<lambda>d c. case e_new L d c of Inr z \<Rightarrow> z), lzWrite := e_write L, lzClose := (\<lambda>z. snd (e_close L z))\<rparr>"

lemma lzRun_encWrites: "lzRun (newEncoders L M) z ps = (fst (encWrites L z ps), concat (snd (encWrites L z ps)))"
  by (induction ps arbitrary: z) (simp_all add: newEncoders_def split_beta Let_def)

lemma finished_lzAll:
  assumes "finishedAsNew L u"
  shows "concat (us_out u) = lzAll (newEncoders L M) (us_dictCap u) (us_concurrency u) (us_writes u)"
proof -
  obtain z where z: "e_new L (us_dictCap u) (us_concurrency u) = Inr z"
    "us_out u = snd (encWrites L z (us_writes u)) @ [encClosed L z (us_writes u)]"
    using assms by (auto simp: finishedAsNew_def)
  then have "lzNew (newEncoders L M) (us_dictCap u) (us_concurrency u) = z" by (simp add: newEncoders_def)
  then show ?thesis by (simp add: lzAll_def lzRun_encWrites z(2) encClosed_def) (simp add: newEncoders_def)
qed

section \<open>Property\<close>

text \<open>
  C11: Reusing encoders does not show. In every run of the pools, with encoders taken, written to and closed
  in any order and the pools emptied at any time, two open folders never share an encoder, none of
  theirs is in a pool, and what an encoder hands on is what a new encoder of the same dictionary size
  and concurrency would for the same writes: while it is in use, and with its close. In particular a folder
  is compressed to exactly the bytes that the model of the writer says.
\<close>

theorem pooled_encoders_like_new:
  assumes "encRun L s us" and "reset_law L" and "i < length us"
  shows "(\<exists>z. e_new L (us_dictCap (us ! i)) (us_concurrency (us ! i)) = Inr z
      \<and> us_out (us ! i) = snd (encWrites L z (us_writes (us ! i)))
          @ (if us_closed (us ! i) then [encClosed L z (us_writes (us ! i))] else []))
    \<and> (us_closed (us ! i) \<longrightarrow> concat (us_out (us ! i)) =
        lzAll (newEncoders L M) (us_dictCap (us ! i)) (us_concurrency (us ! i)) (us_writes (us ! i)))
    \<and> (\<not> us_closed (us ! i) \<longrightarrow>
        (\<forall>j<length us. j \<noteq> i \<and> \<not> us_closed (us ! j) \<longrightarrow> us_enc (us ! j) \<noteq> us_enc (us ! i))
        \<and> (\<forall>key. us_enc (us ! i) \<notin> set (en_pools s key)))"
proof -
  have ok: "exclusively s us" "faithful L s us" using encRun_invariant [OF assms(1,2)] by simp_all
  have "usedAsNew L s (us ! i)" using ok(2) assms(3) by (simp add: faithful_iff)
  moreover have "us ! j \<in> set (take i us @ drop (Suc i) us)" if "j < length us" "j \<noteq> i" for j
  proof (cases "j < i")
    case True
    with that show ?thesis by (auto simp: in_set_conv_nth intro!: exI [of _ j])
  next
    case False
    with that show ?thesis by (auto simp: in_set_conv_nth intro!: exI [of _ "j - Suc i"])
  qed
  ultimately show ?thesis
    using exclusively_others [OF ok(1) assms(3)] exclusively_pooled(1) [OF ok(1)] assms(3)
      finished_lzAll [of L "us ! i" M]
    by (cases "us_closed (us ! i)") (auto simp: usedAsNew_def asNew_def finishedAsNew_def)
qed

text \<open>An encoder that stores, and at its close repeats everything it was given since it was new.\<close>

definition storeEncoder :: "byte list encoderLib" where
  "storeEncoder =
     \<lparr>e_new = (\<lambda>d c. Inr []), e_reset = (\<lambda>z. []), e_write = (\<lambda>z p. (z @ p, p)), e_close = (\<lambda>z. (z, z))\<rparr>"

text \<open>It is used for one folder, put back and used for another.\<close>

theorem pooled_encoders_like_new_witness:
  "\<exists>s us. encRun storeEncoder s us \<and> map us_enc us = [0, 0] \<and> us_out (us ! 0) = [[7], [7]] \<and> us_out (us ! 1) = [[8]]"
proof -
  define use where "use ps outs closed =
    \<lparr>us_enc = 0, us_dictCap = 1, us_concurrency = 1, us_writes = ps, us_out = outs, us_closed = closed\<rparr>"
    for ps outs :: "byte list list" and closed
  define st where "st z pool = \<lparr>en_all = [z], en_pools = (\<lambda>_. [])(\<lparr>ky_dictCap = 1, ky_concurrency = 1\<rparr> := pool)\<rparr>"
    for z :: "byte list" and pool
  note defs = storeEncoder_def st_def use_def getLZMAWriter_def putLZMAWriter_def encoderWrite_def encoderClose_def noEncoders_def
  have "getLZMAWriter storeEncoder None 1 1 noEncoders = (Inr 0, st [] [])" by (simp add: defs fun_upd_idem)
  from encRun.get [OF encRun.start this] have r1: "encRun storeEncoder (st [] []) [use [] [] False]" by (simp add: use_def)
  have "encoderWrite storeEncoder 0 [7] (st [] []) = ([7], st [7] [])" by (simp add: defs)
  with encRun.writes [OF r1, of 0 _ "[7]"] have r2: "encRun storeEncoder (st [7] []) [use [[7]] [[7]] False]"
    by (simp add: use_def)
  have "encoderClose storeEncoder 0 1 1 (st [7] []) = ([7], st [7] [0])" by (simp add: defs)
  with encRun.close [OF r2, of 0] have r3: "encRun storeEncoder (st [7] [0]) [use [[7]] [[7], [7]] True]"
    by (simp add: use_def)
  have "getLZMAWriter storeEncoder (Some 0) 1 1 (st [7] [0]) = (Inr 0, st [] [])" by (simp add: defs)
  from encRun.get [OF r3 this] have r4: "encRun storeEncoder (st [] []) [use [[7]] [[7], [7]] True, use [] [] False]"
    by (simp add: use_def)
  have "encoderWrite storeEncoder 0 [8] (st [] []) = ([8], st [8] [])" by (simp add: defs)
  with encRun.writes [OF r4, of 1 _ "[8]"]
  have r5: "encRun storeEncoder (st [8] []) [use [[7]] [[7], [7]] True, use [[8]] [[8]] False]" by (simp add: use_def)
  have law: "reset_law storeEncoder" by (auto simp: reset_law_def storeEncoder_def alike_def)
  let ?us = "[use [[7]] [[7], [7]] True, use [[8]] [[8]] False]"
  have "us_out (?us ! 0) = [[7], [7]]" "us_out (?us ! 1) = [[8]]"
    using pooled_encoders_like_new [OF r5 law, of 0] pooled_encoders_like_new [OF r5 law, of 1]
    by (auto simp: use_def storeEncoder_def encClosed_def)
  with r5 show ?thesis by (intro exI [of _ "st [8] []"] exI [of _ ?us]) (simp add: use_def)
qed

end
