(* ===== verification/File_Info.thy ===== *)
theory File_Info
  imports Archive_Open
begin

text \<open>
  What the file system of an archive says about its entries: the \<open>fs.FileInfo\<close> and \<open>fs.DirEntry\<close> methods of
  \<open>fileListEntry\<close> in \<open>reader.go\<close> and of \<open>headerFileInfo\<close> in \<open>struct.go\<close>, and \<open>Stat\<close> of an opened
  directory or file. A time is an instant, so \<open>UTC()\<close> is the identity.
\<close>

section \<open>Information on an entry\<close>

text \<open>\<open>path.Base\<close>.\<close>

definition pathBase :: "gostring \<Rightarrow> gostring" where
  "pathBase p =
     (if p = [] then [dot]
      else
        let q = dropWhile (\<lambda>c. c = slash) (rev p);
            b = rev (takeWhile (\<lambda>c. c \<noteq> slash) q)
        in if b = [] then [slash] else b)"

text \<open>A header stands for \<open>headerFileInfo\<close>, an entry of the list for itself.\<close>

datatype fileInfoDirEntry = HeaderInfo fileHeader | EntryInfo fileListEntry

datatype stat_error = StatDuplicate gostring | StatPanic

fun infoName :: "fileInfoDirEntry \<Rightarrow> gostring" where
  "infoName (HeaderInfo h) = pathBase (fh_Name h)"
| "infoName (EntryInfo e) = snd (splitName (le_name e))"

fun infoSize :: "fileInfoDirEntry \<Rightarrow> int" where
  "infoSize (HeaderInfo h) = sint (fh_UncompressedSize h)"
| "infoSize (EntryInfo e) = 0"

fun infoMode :: "fileInfoDirEntry \<Rightarrow> fileMode" where
  "infoMode (HeaderInfo h) = Mode h"
| "infoMode (EntryInfo e) = 0x80000000 OR 0x16D"

fun infoIsDir :: "fileInfoDirEntry \<Rightarrow> bool" where
  "infoIsDir (HeaderInfo h) = modeIsDir (Mode h)"
| "infoIsDir (EntryInfo e) = True"

text \<open>\<open>fs.ModeType\<close>: the bits for directories, links, pipes, sockets, devices and irregular files.\<close>

definition modeType :: "fileMode \<Rightarrow> fileMode" where
  "modeType m = m AND 0x8F280000"

fun infoType :: "fileInfoDirEntry \<Rightarrow> fileMode" where
  "infoType (HeaderInfo h) = modeType (Mode h)"
| "infoType (EntryInfo e) = 0x80000000"

fun infoModTime :: "sz_file list \<Rightarrow> fileInfoDirEntry \<Rightarrow> time" where
  "infoModTime files (HeaderInfo h) = fh_Modified h"
| "infoModTime files (EntryInfo e) =
     (case le_file e of None \<Rightarrow> zeroTime | Some j \<Rightarrow> fh_Modified (f_FileHeader (files ! j)))"

fun infoSys :: "fileInfoDirEntry \<Rightarrow> fileHeader option" where
  "infoSys (HeaderInfo h) = Some h"
| "infoSys (EntryInfo e) = None"

text \<open>\<open>stat\<close>: an entry that is no directory has a file; without one it would be a nil pointer.\<close>

definition entryStat :: "sz_file list \<Rightarrow> fileListEntry \<Rightarrow> stat_error + fileInfoDirEntry" where
  "entryStat files e =
     (if le_isDup e then Inl (StatDuplicate (le_name e))
      else if \<not> le_isDir e then
        (case le_file e of None \<Rightarrow> Inl StatPanic | Some j \<Rightarrow> Inr (HeaderInfo (f_FileHeader (files ! j))))
      else Inr (EntryInfo e))"

text \<open>\<open>Stat\<close> of what \<open>Reader.Open\<close> returns; the root is the entry \<open>dotFile\<close>.\<close>

definition dotFile :: fileListEntry where
  "dotFile = \<lparr>le_name = [dot, slash], le_file = None, le_isDir = True, le_isDup = False\<rparr>"

fun lookedUp :: "fileListEntry list \<Rightarrow> lookup \<Rightarrow> fileListEntry" where
  "lookedUp es DotFile = dotFile"
| "lookedUp es (Entry i) = es ! i"

definition openDirStat :: "sz_file list \<Rightarrow> fileListEntry list \<Rightarrow> lookup \<Rightarrow> stat_error + fileInfoDirEntry" where
  "openDirStat files es l = entryStat files (lookedUp es l)"

definition fileReaderStat :: "archive \<Rightarrow> fileReader \<Rightarrow> fileInfoDirEntry" where
  "fileReaderStat z fr = HeaderInfo (f_FileHeader (z_File z ! rd_f fr))"

text \<open>\<open>Read\<close> of a directory fails, with its name.\<close>

definition openDirRead :: "fileListEntry list \<Rightarrow> lookup \<Rightarrow> nat \<times> gostring" where
  "openDirRead es l = (0, le_name (lookedUp es l))"

section \<open>Modes and names\<close>

lemma modeIsDir_or [simp]: "modeIsDir (m OR 0x80000000)"
proof -
  have "bit (m OR 0x80000000) 31" by (simp add: bit_simps)
  then have "bit ((m OR 0x80000000) AND 0x80000000 :: u32) 31" by (simp add: bit_simps)
  then show ?thesis unfolding modeIsDir_def by (metis bit_0_eq bot_apply bot_bool_def)
qed

lemma modeType_IsDir: "modeIsDir (modeType m) = modeIsDir m"
  by (simp add: modeIsDir_def modeType_def and.assoc)

text \<open>A directory is a name that ends with a slash, once \<open>init\<close> has completed the names.\<close>

lemma Mode_dirName: "modeIsDir (Mode (dirName h)) = isDirName (fh_Name (dirName h))"
proof (cases "isDirName (fh_Name h)")
  case True
  then have "dirName h = h" "modeIsDir (Mode h)" by (auto simp: dirName_def isDirName_def Mode_def Let_def)
  with True show ?thesis by simp
next
  case False
  show ?thesis
  proof (cases "modeIsDir (Mode h)")
    case True
    with False have "dirName h = h\<lparr>fh_Name := fh_Name h @ [slash]\<rparr>" by (auto simp: dirName_def isDirName_def)
    then show ?thesis by (simp add: isDirName_def Mode_def Let_def)
  next
    case f: False
    with False show ?thesis by (simp add: dirName_def)
  qed
qed

lemma Mode_stream: "Mode (h\<lparr>fh_Stream := k\<rparr>) = Mode h"
  by (simp add: Mode_def)

lemma initFiles_modes:
  assumes "initFiles si folder offset j fhs = Inr files" and "f \<in> set files"
  shows "modeIsDir (Mode (f_FileHeader f)) = isDirName (fh_Name (f_FileHeader f))"
  using assms
proof (induction si folder offset j fhs arbitrary: files rule: initFiles.induct)
  case (2 si folder offset j fh fhs)
  show ?case
  proof (cases "\<not> fh_isEmptyStream fh \<and> \<not> fh_isEmptyFile fh")
    case True
    with 2 show ?thesis
      by (auto simp: rbind_def deref_def Mode_stream Mode_dirName Let_def split: sum.splits option.splits)
  next
    case False
    with 2 show ?thesis by (auto simp: rbind_def Mode_dirName split: sum.splits)
  qed
qed simp

lemma pathBase_good:
  assumes "goodPath ps"
  shows "pathBase (joinSlash ps) = last ps"
proof -
  obtain qs p where ps: "ps = qs @ [p]" using assms by (cases ps rule: rev_cases) (auto simp: goodPath_def)
  have p: "p \<noteq> []" "slash \<notin> set p" using assms by (auto simp: ps goodPath_def goodPart_def)
  note lst = goodPath_last [OF assms] goodPath_hd [OF assms]
  then have "dropWhile (\<lambda>c. c = slash) (rev (joinSlash ps)) = rev (joinSlash ps)"
    by (cases "joinSlash ps" rule: rev_cases) simp_all
  moreover have "takeWhile (\<lambda>c. c \<noteq> slash) (rev (joinSlash ps)) = rev p"
  proof (cases "qs = []")
    case True
    with p(2) show ?thesis by (auto simp: ps takeWhile_eq_all_conv)
  next
    case False
    with takeWhile_rev_plain(1) [OF p(2), of "joinSlash qs"] show ?thesis by (simp add: ps joinSlash_append)
  qed
  ultimately show ?thesis using lst p by (simp add: pathBase_def ps Let_def)
qed

lemma pathBase_valid:
  assumes "validPath name" and "backslash \<notin> set name" and "name \<noteq> [dot]"
  shows "pathBase name = snd (splitName (toValidName name))"
proof -
  obtain ps where ps: "goodPath ps" "name = joinSlash ps" using validPath_good [OF assms(1,3)] by blast
  then show ?thesis using toValidName_valid [OF assms(1,2)] by (simp add: pathBase_good splitName_good)
qed

text \<open>A backslash in the name of a file is a separator to the list, but not to the information on the file.\<close>

lemma backslash_entry_renamed:
  assumes "mapOrder order" and "fh_Name h = [0x61, backslash, 0x62]"
  shows "\<exists>es e. initFileList order [fh_Name h] = Some es \<and> e \<in> set es \<and> le_file e = Some 0
    \<and> splitName (le_name e) = ([0x61], [0x62]) \<and> infoName (HeaderInfo h) = [0x61, backslash, 0x62]"
proof -
  let ?n = "[0x61, slash, 0x62] :: gostring"
  obtain es where es: "initFileList order [fh_Name h] = Some es" "le_name ` set es = shownNames [fh_Name h]"
    "\<forall>e\<in>set es. entryOf [fh_Name h] e"
    using initFileList_props [OF assms(1), of "[fh_Name h]"] by metis
  have v: "toValidName (fh_Name h) = ?n"
    unfolding assms(2) by (simp add: toValidName_def pathClean_def stripDotDot.simps dot_def slash_def backslash_def)
  then have "?n \<in> le_name ` set es" unfolding es(2) by (simp add: shownNames_def Let_def)
  then obtain e where e: "e \<in> set es" "le_name e = ?n" by auto
  with es(3) v have "le_file e = Some 0" by (auto simp: entryOf_def split: option.splits)
  moreover have "splitName ?n = ([0x61], [0x62])" by (simp add: splitName_def slash_def)
  moreover have "infoName (HeaderInfo h) = [0x61, backslash, 0x62]"
    by (simp add: assms(2) pathBase_def backslash_def slash_def)
  ultimately show ?thesis using es(1) e by auto
qed

section \<open>Properties\<close>

text \<open>
  C40: The file system agrees with itself. For every entry of an opened archive, \<open>stat\<close> fails exactly when
  the entry is marked as a duplicate; otherwise what it returns is a directory, by its method, by its mode and
  by its type, exactly when the list says so, it has the time of the file behind it,
  and its name is the last element under which the entry is listed, for every directory and every file
  whose name in the archive is a valid path without backslashes.
\<close>

theorem stat_agrees_with_listing:
  assumes "mapOrder order" and "initFiles si 0 0 0 fhs = Inr files"
    and "initFileList order (map (\<lambda>f. fh_Name (f_FileHeader f)) files) = Some es" and "e \<in> set es"
  shows "if le_isDup e then entryStat files e = Inl (StatDuplicate (le_name e))
    else \<exists>info. entryStat files e = Inr info \<and> infoIsDir info = le_isDir e
      \<and> modeIsDir (infoMode info) = le_isDir e \<and> modeIsDir (infoType info) = le_isDir e
      \<and> (\<forall>j. le_file e = Some j \<longrightarrow> infoModTime files info = fh_Modified (f_FileHeader (files ! j)))
      \<and> (le_isDir e \<or> (\<exists>j. le_file e = Some j \<and> validPath (fh_Name (f_FileHeader (files ! j)))
            \<and> backslash \<notin> set (fh_Name (f_FileHeader (files ! j))))
          \<longrightarrow> infoName info = snd (splitName (le_name e)))"
proof -
  let ?names = "map (\<lambda>f. fh_Name (f_FileHeader f)) files"
  have o: "entryOf ?names e" using initFileList_props [OF assms(1), of ?names] assms(3,4) by (metis option.inject)
  consider "le_isDup e" | "\<not> le_isDup e" "le_isDir e" | "\<not> le_isDup e" "\<not> le_isDir e" by blast
  then show ?thesis
  proof cases
    case 1
    then show ?thesis by (simp add: entryStat_def)
  next
    case 2
    then have st: "entryStat files e = Inr (EntryInfo e)" by (simp add: entryStat_def)
    have facts: "infoIsDir (EntryInfo e) = le_isDir e" "modeIsDir (infoMode (EntryInfo e)) = le_isDir e"
      "modeIsDir (infoType (EntryInfo e)) = le_isDir e" "infoName (EntryInfo e) = snd (splitName (le_name e))"
      "\<forall>j. le_file e = Some j \<longrightarrow> infoModTime files (EntryInfo e) = fh_Modified (f_FileHeader (files ! j))"
      using 2 by (simp_all add: modeIsDir_def)
    show ?thesis unfolding if_not_P [OF 2(1)] by (intro exI [of _ "EntryInfo e"] conjI impI st facts)
  next
    case 3
    then have "le_file e \<noteq> None" using o by (simp add: entryOf_def split: option.splits)
    then obtain j where e: "le_file e = Some j" by blast
    have l: "j < length files" using o by (simp add: entryOf_def e)
    with o e have j: "le_file e = Some j" "j < length files" "toValidName (fh_Name (f_FileHeader (files ! j))) = le_name e"
      "le_isDir e = isDirName (fh_Name (f_FileHeader (files ! j)))"
      by (simp_all add: entryOf_def)
    let ?h = "f_FileHeader (files ! j)"
    have "\<not> modeIsDir (Mode ?h)" using initFiles_modes [OF assms(2), of "files ! j"] j 3(2) by simp
    moreover have "pathBase (fh_Name ?h) = snd (splitName (le_name e))"
      if "validPath (fh_Name ?h)" "backslash \<notin> set (fh_Name ?h)"
    proof (cases "fh_Name ?h = [dot]")
      case True
      have "pathBase [dot] = [dot]" by (simp add: pathBase_def dot_def slash_def)
      moreover have "le_name e = [dot]" using toValidName_valid [OF that] j(3) True by simp
      ultimately show ?thesis by (simp only: True splitName_dots snd_conv)
    next
      case False
      with pathBase_valid [OF that] j(3) show ?thesis by simp
    qed
    ultimately show ?thesis using 3 j(1) by (simp add: entryStat_def modeType_IsDir)
  qed
qed

text \<open>One file in a directory.\<close>

definition fileInDir :: fileHeader where
  "fileInDir = \<lparr>fh_Name = [0x61, slash, 0x62], fh_Created = zeroTime, fh_Accessed = zeroTime, fh_Modified = 7,
    fh_Attributes = 0, fh_CRC32 = 0, fh_UncompressedSize = 0, fh_Stream = 0, fh_isEmptyStream = True, fh_isEmptyFile = True\<rparr>"

theorem stat_agrees_with_listing_witness:
  "\<exists>files es e info. initFiles None 0 0 0 [fileInDir] = Inr files
     \<and> initFileList rev (map (\<lambda>f. fh_Name (f_FileHeader f)) files) = Some es \<and> e \<in> set es
     \<and> le_name e = [0x61, slash, 0x62] \<and> entryStat files e = Inr info
     \<and> infoName info = [0x62] \<and> infoModTime files info = 7 \<and> \<not> infoIsDir info"
proof -
  have "dirName fileInDir = fileInDir"
    by (simp add: dirName_def Mode_def msdosModeToFileMode_def modeIsDir_def fileInDir_def slash_def)
  then have f: "initFiles None 0 0 0 [fileInDir] = Inr [\<lparr>f_FileHeader = fileInDir, f_folder = 0, f_offset = 0\<rparr>]"
    by (simp add: fileInDir_def rbind_def)
  let ?files = "[\<lparr>f_FileHeader = fileInDir, f_folder = 0, f_offset = 0\<rparr>]" and ?n = "[0x61, slash, 0x62] :: gostring"
  let ?e = "\<lparr>le_name = ?n, le_file = Some 0, le_isDir = False, le_isDup = False\<rparr>"
  have es: "initFileList rev [?n] = Some [\<lparr>le_name = [0x61], le_file = None, le_isDir = True, le_isDup = False\<rparr>, ?e]"
    by code_simp
  have valid: "validPath ?n" "backslash \<notin> set ?n" by (simp_all add: backslash_def slash_def) code_simp
  have "snd (splitName ?n) = [0x62]" by (simp add: splitName_def slash_def)
  with stat_agrees_with_listing [OF _ f, of rev _ ?e] es valid
  obtain info where "entryStat ?files ?e = Inr info" "infoName info = [0x62]" "infoModTime ?files info = 7" "\<not> infoIsDir info"
    by (auto simp: fileInDir_def)
  with f es show ?thesis
    by (intro exI [of _ ?files] exI conjI) (auto simp: fileInDir_def)
qed

end
