(* ===== verification/Bra_Stream.thy ===== *)
theory Bra_Stream
  imports Bra Io_Reader
begin

unbundle bit_operations_syntax

text \<open>
  The filter reader over any converter. A converter handles a prefix of what it is given and
  may be called again with the rest and more data; the result is that of one call on
  everything. Under this contract the reader delivers exactly the conversion of its source.
\<close>

section \<open>The contract\<close>

text \<open>
  \<open>good s n\<close>: the state is fit for \<open>n\<close> more bytes (the ARM converter resets an instruction
  pointer of zero, which is harmless only before the pointer wraps around).
\<close>

locale converter =
  fixes sz :: nat
    and convert :: "'s \<Rightarrow> byte list \<Rightarrow> 's \<times> byte list \<times> nat"
    and good :: "'s \<Rightarrow> nat \<Rightarrow> bool"
  assumes sz_pos: "0 < sz"
    and short: "length b < sz \<Longrightarrow> convert s b = (s, b, 0)"
    and result: "sz \<le> length b \<Longrightarrow> convert s b = (s', out, k) \<Longrightarrow>
      length out = length b \<and> 0 < k \<and> k \<le> length b \<and> length b < k + sz \<and> drop k out = drop k b"
    and more: "good s (length xs + length ws) \<Longrightarrow> convert s xs = (s1, out, k) \<Longrightarrow>
      convert s (xs @ ws) =
        (let (s2, out2, k2) = convert s1 (drop k out @ ws) in (s2, take k out @ out2, k + k2))"
    and good_after: "good s (length xs + n) \<Longrightarrow> convert s xs = (s1, out, k) \<Longrightarrow> good s1 (length xs - k + n)"
    and good_less: "good s n \<Longrightarrow> m \<le> n \<Longrightarrow> good s m"
begin

definition full :: "'s \<Rightarrow> byte list \<Rightarrow> byte list" where
  "full s b = fst (snd (convert s b))"

lemma result':
  assumes "convert s b = (s', out, k)"
  shows "length out = length b \<and> k \<le> length b \<and> drop k out = drop k b"
  using assms short [of b s] result [of b s s' out k] by (cases "length b < sz") auto

lemma full_more:
  "good s (length xs + length ws) \<Longrightarrow> convert s xs = (s1, out, k) \<Longrightarrow>
   full s (xs @ ws) = take k out @ full s1 (drop k out @ ws)"
  using more [of s xs ws s1 out k] by (simp add: full_def split_beta Let_def)

lemma length_full: "length (full s b) = length b"
  using result' [of s b] by (cases "convert s b") (simp add: full_def)

text \<open>What the reader still has to deliver.\<close>

definition pending :: "'s braReader \<Rightarrow> byte list" where
  "pending r = take (br_n r) (br_buf r)
     @ full (br_conv r) (drop (br_n r) (br_buf r) @ (case br_rc r of None \<Rightarrow> [] | Some rc \<Rightarrow> rc))"

definition readerOk :: "'s braReader \<Rightarrow> bool" where
  "readerOk r \<longleftrightarrow>
     br_n r \<le> length (br_buf r)
     \<and> (case br_rc r of None \<Rightarrow> False
        | Some rc \<Rightarrow> good (br_conv r) (length (br_buf r) - br_n r + length rc))"

lemma braRead_pending:
  assumes ok: "readerOk r" and m: "0 < m"
  shows "\<exists>q r'. braRead sz convert r m
      = (take q (pending r), if pending r = [] then Some BraEOF else None, r')
    \<and> q \<le> m \<and> (pending r \<noteq> [] \<longrightarrow> 0 < q) \<and> pending r' = drop q (pending r) \<and> readerOk r'"
proof -
  obtain rc where rc: "br_rc r = Some rc" and n: "br_n r \<le> length (br_buf r)"
    and good: "good (br_conv r) (length (br_buf r) - br_n r + length rc)"
    using ok by (auto simp: readerOk_def split: option.splits)
  define want where "want = max m sz - length (br_buf r)"
  define buf where "buf = br_buf r @ take want rc"
  define eof where "eof = (length rc < want)"
  define nn where "nn = (if eof \<and> length buf < sz then length buf else br_n r)"
  define r1 where "r1 = r\<lparr>br_rc := Some (drop want rc), br_buf := buf\<rparr>"
  have s: "br_conv r1 = br_conv r" "br_n r1 = br_n r" by (simp_all add: r1_def)
  have R: "braRead sz convert r m =
     (if eof \<and> buf = [] then ([], Some BraEOF, r1)
      else let (conv, out, k) = convert (br_conv r) (drop nn buf); B = take nn buf @ out; n = nn + k; q = min n m
           in (take q B, None, r1\<lparr>br_conv := conv, br_buf := drop q B, br_n := n - q\<rparr>))"
    unfolding braRead_def rc option.case Let_def want_def [symmetric] buf_def [symmetric] eof_def [symmetric]
      r1_def [symmetric] s nn_def [symmetric] by (rule refl)
  have P: "pending r = take (br_n r) buf @ full (br_conv r) (drop (br_n r) buf @ drop want rc)"
    using n by (simp add: pending_def rc buf_def)
  show ?thesis
  proof (cases "eof \<and> buf = []")
    case True
    then have "br_buf r = []" "rc = []" by (auto simp: buf_def eof_def)
    then have "pending r = []" using n rc length_full [of "br_conv r" "[]"]
      by (simp add: pending_def)
    moreover have "braRead sz convert r m = ([], Some BraEOF, r1)" using True by (simp add: R)
    moreover have "r1 = r" using True rc by (auto simp: r1_def buf_def eof_def)
    ultimately show ?thesis using ok by (intro exI [of _ 0] exI [of _ r]) simp
  next
    case False
    obtain s' out k where c: "convert (br_conv r) (drop nn buf) = (s', out, k)"
      by (cases "convert (br_conv r) (drop nn buf)") auto
    note res = result' [OF c]
    define q where "q = min (nn + k) m"
    define r' where "r' = r\<lparr>br_rc := Some (drop want rc), br_conv := s', br_buf := drop q (take nn buf @ out),
      br_n := nn + k - q\<rparr>"
    have nn: "nn \<le> length buf" using n by (auto simp: nn_def buf_def)
    define B where "B = take nn buf @ out"
    define rest where "rest = drop want rc"
    have lenB: "length B = length buf" "nn + k \<le> length B" "drop (nn + k) B = drop k out"
      using nn res by (auto simp: B_def)
    have main: "pending r = take (nn + k) B @ full s' (drop k out @ rest)
      \<and> good (br_conv r) (length (drop nn buf) + length rest) \<and> 0 < nn + k"
    proof (cases "eof \<and> length buf < sz")
      case True
      then have e: "nn = length buf" "rest = []" by (auto simp: nn_def eof_def rest_def)
      then have c': "s' = br_conv r" "out = []" "k = 0" using c short [of "[]" "br_conv r"] sz_pos by auto
      have "full (br_conv r) (drop (br_n r) buf) = drop (br_n r) buf"
        using True short [of "drop (br_n r) buf" "br_conv r"] by (simp add: full_def less_imp_diff_less)
      then have "pending r = buf" using e P by (simp add: rest_def)
      moreover have "full (br_conv r) [] = []" using length_full [of "br_conv r" "[]"] by simp
      moreover have "buf \<noteq> []" using False True by simp
      ultimately show ?thesis using e c' good good_less by (simp add: B_def)
    next
      case long: False
      then have e: "nn = br_n r" by (auto simp: nn_def)
      have len: "length (drop nn buf) + length rest = length (br_buf r) - br_n r + length rc"
        using n by (simp add: e buf_def rest_def)
      have "sz \<le> length buf" using long by (auto simp: eof_def buf_def want_def)
      then have "0 < nn + k" using c result [of "drop nn buf" "br_conv r" s' out k] by (cases nn) auto
      moreover have "take (nn + k) B = take nn buf @ take k out" using nn by (simp add: B_def min_def)
      ultimately show ?thesis
        using full_more [of "br_conv r" "drop nn buf" rest, OF _ c] good P len by (simp add: e rest_def)
    qed
    have q: "q \<le> nn + k" "q \<le> m" "0 < q" using main m by (auto simp: q_def)
    have read: "braRead sz convert r m = (take q B, None, r')"
      using False by (simp add: R c Let_def q_def r'_def r1_def B_def)
    have tk: "take q (pending r) = take q B" using main q lenB by (simp add: min_def)
    have ne: "pending r \<noteq> []" using main q lenB by auto
    have "pending r' = drop q (take (nn + k) B) @ full s' (drop (nn + k) B @ rest)"
      using q by (simp add: pending_def r'_def B_def [symmetric] rest_def drop_take)
    then have dr: "pending r' = drop q (pending r)" using main q lenB by simp
    have "good s' (length out - k + length rest)"
      using good_after [of "br_conv r" "drop nn buf" "length rest", OF _ c] main res by simp
    moreover have "length B - q - (nn + k - q) = length out - k"
      using q nn res by (simp add: B_def)
    ultimately have "readerOk r'"
      using q lenB by (simp add: readerOk_def r'_def B_def [symmetric] rest_def)
    with read tk ne dr q show ?thesis by (intro exI [of _ q] exI [of _ r']) simp
  qed
qed

end

text \<open>The filter reader keeps the contract of a reader.\<close>

context converter
begin

sublocale io_reader "braRead sz convert" pending readerOk BraEOF
  by unfold_locales (rule braRead_pending)

lemma fresh_reader:
  assumes "good s (length src)"
  shows "readerOk \<lparr>br_rc = Some src, br_buf = [], br_n = 0, br_conv = s\<rparr>
    \<and> pending \<lparr>br_rc = Some src, br_buf = [], br_n = 0, br_conv = s\<rparr> = full s src"
  using assms by (simp add: readerOk_def pending_def)

lemma braReads_all:
  assumes good: "good s (length src)" and ms: "list_all (\<lambda>m. 0 < m) ms" and enough: "length src \<le> length ms"
  shows "fst (reads (braRead sz convert) \<lparr>br_rc = Some src, br_buf = [], br_n = 0, br_conv = s\<rparr> ms)
    = fst (snd (convert s src))"
  using fresh_reader [OF good] reads_all [OF _ ms] enough length_full by (simp add: full_def)

end

section \<open>Converters over words\<close>

text \<open>
  A converter that runs \<open>f\<close> over whole words after adjusting its state with \<open>g\<close>.
\<close>

locale word_converter =
  fixes f :: "'s \<Rightarrow> byte list \<Rightarrow> 's \<times> byte list"
    and g :: "'s \<Rightarrow> 's"
    and good :: "'s \<Rightarrow> nat \<Rightarrow> bool"
  assumes word_length: "length w = 4 \<Longrightarrow> length (snd (f s w)) = 4"
    and adjust_twice: "good s (4 + n) \<Longrightarrow> length w = 4 \<Longrightarrow> g (fst (f (g s) w)) = fst (f (g s) w)"
    and good_step: "good s (4 + n) \<Longrightarrow> length w = 4 \<Longrightarrow> good (fst (f (g s) w)) n"
    and good_anti: "good s n \<Longrightarrow> m \<le> n \<Longrightarrow> good s m"
begin

definition conv :: "'s \<Rightarrow> byte list \<Rightarrow> 's \<times> byte list \<times> nat" where
  "conv s b =
     (if length b < 4 then (s, b, 0)
      else let (s', out) = wordLoop f (g s) b in (s', out, 4 * (length b div 4)))"

lemma wordLoop_short: "length b < 4 \<Longrightarrow> wordLoop f s b = (s, b)"
  by (cases "(f, s, b)" rule: wordLoop.cases) auto

lemma wordLoop_long:
  assumes "4 \<le> length b"
  shows "wordLoop f s b = (fst (wordLoop f (fst (f s (take 4 b))) (drop 4 b)),
    snd (f s (take 4 b)) @ snd (wordLoop f (fst (f s (take 4 b))) (drop 4 b)))"
  using assms by (cases "(f, s, b)" rule: wordLoop.cases) (auto simp: split_beta Let_def)

lemma wordLoop_length:
  "length (snd (wordLoop f s b)) = length b
   \<and> drop (4 * (length b div 4)) (snd (wordLoop f s b)) = drop (4 * (length b div 4)) b"
proof (induction "length b" arbitrary: s b rule: less_induct)
  case less
  show ?case
  proof (cases "length b < 4")
    case False
    define s' where "s' = fst (f s (take 4 b))"
    have "length (snd (f s (take 4 b))) = 4" using False by (intro word_length) simp
    moreover have "length b div 4 = Suc (length (drop 4 b) div 4)" using False by (simp add: le_div_geq)
    moreover have "length (drop 4 b) < length b" using False by simp
    note less [OF this, of s']
    ultimately show ?thesis
      using False by (subst (1 2) wordLoop_long) (auto simp: s'_def add.commute)
  qed (simp add: wordLoop_short)
qed

lemma wordLoop_append:
  "wordLoop f s (xs @ ws) =
     (let m = 4 * (length xs div 4); (s1, out) = wordLoop f s xs; (s2, out2) = wordLoop f s1 (drop m xs @ ws)
      in (s2, take m out @ out2))"
proof (induction "length xs" arbitrary: s xs rule: less_induct)
  case less
  show ?case
  proof (cases "length xs < 4")
    case False
    define s' where "s' = fst (f s (take 4 xs))"
    have w: "length (snd (f s (take 4 xs))) = 4" using False by (intro word_length) simp
    have m: "4 * (length xs div 4) = 4 + 4 * (length (drop 4 xs) div 4)" using False by (simp add: le_div_geq)
    have "length (drop 4 xs) < length xs" using False by simp
    note IH = less [OF this, of s']
    have "wordLoop f s (xs @ ws) = (fst (wordLoop f s' (drop 4 xs @ ws)),
        snd (f s (take 4 xs)) @ snd (wordLoop f s' (drop 4 xs @ ws)))"
      using False by (subst wordLoop_long) (simp_all add: s'_def)
    moreover have "wordLoop f s xs = (fst (wordLoop f s' (drop 4 xs)),
        snd (f s (take 4 xs)) @ snd (wordLoop f s' (drop 4 xs)))"
      using False by (subst wordLoop_long) (simp_all add: s'_def)
    ultimately show ?thesis
      unfolding m IH using w by (simp add: split_beta Let_def add.commute)
  qed (simp add: wordLoop_short split_beta Let_def)
qed

text \<open>The state after the first whole word needs no more adjustment.\<close>

lemma after_loop:
  "4 \<le> length xs \<Longrightarrow> good s (length xs + n) \<Longrightarrow>
   g (fst (wordLoop f (g s) xs)) = fst (wordLoop f (g s) xs)
   \<and> good (fst (wordLoop f (g s) xs)) (length xs mod 4 + n)"
proof (induction "length xs" arbitrary: s xs rule: less_induct)
  case less
  define s' where "s' = fst (f (g s) (take 4 xs))"
  have split: "length xs + n = 4 + (length xs - 4 + n)" using less.prems by simp
  have g': "g s' = s'" and good': "good s' (length (drop 4 xs) + n)"
    using less.prems adjust_twice [of s "length xs - 4 + n" "take 4 xs"]
      good_step [of s "length xs - 4 + n" "take 4 xs"] unfolding split s'_def by simp_all
  have l: "fst (wordLoop f (g s) xs) = fst (wordLoop f s' (drop 4 xs))"
    using less.prems by (subst wordLoop_long) (simp_all add: s'_def)
  show ?case
  proof (cases "length (drop 4 xs) < 4")
    case True
    have "length xs mod 4 = length (drop 4 xs)" using True less.prems by (simp add: le_mod_geq)
    with True l g' good' show ?thesis by (simp add: wordLoop_short)
  next
    case False
    have "length (drop 4 xs) mod 4 = length xs mod 4" using less.prems by (simp add: le_mod_geq)
    moreover have "length (drop 4 xs) < length xs" using less.prems by simp
    ultimately show ?thesis using less.hyps [OF _ _ good'] False l g' by simp
  qed
qed

sublocale converter 4 conv good
proof
  fix xs ws :: "byte list" and s s1 out k
  assume good: "good s (length xs + length ws)" and c: "conv s xs = (s1, out, k)"
  show "conv s (xs @ ws) = (let (s2, out2, k2) = conv s1 (drop k out @ ws) in (s2, take k out @ out2, k + k2))"
  proof (cases "length xs < 4")
    case True
    with c show ?thesis by (auto simp: conv_def split_beta Let_def)
  next
    case False
    have k: "k = 4 * (length xs div 4)" and s1: "s1 = fst (wordLoop f (g s) xs)"
      and out: "out = snd (wordLoop f (g s) xs)"
      using c False by (auto simp: conv_def split_beta Let_def)
    have gs1: "g s1 = s1" using after_loop [of xs s "length ws"] False good by (simp add: s1)
    have dk: "drop k out = drop k xs" using wordLoop_length [of "g s" xs] by (simp add: k out)
    have len: "4 * (length (xs @ ws) div 4) = k + 4 * (length (drop k xs @ ws) div 4)"
    proof -
      have "length (xs @ ws) = 4 * (length xs div 4) + length (drop k xs @ ws)" by (simp add: k)
      then have "length (xs @ ws) div 4 = length xs div 4 + length (drop k xs @ ws) div 4"
        by (simp only:)
      then show ?thesis by (simp add: k)
    qed
    have "wordLoop f (g s) (xs @ ws) = (fst (wordLoop f s1 (drop k xs @ ws)), take k out @ snd (wordLoop f s1 (drop k xs @ ws)))"
      by (subst wordLoop_append) (simp add: k s1 out split_beta Let_def)
    then show ?thesis
      using False gs1 len unfolding dk by (auto simp: conv_def split_beta Let_def wordLoop_short)
  qed
next
  fix xs :: "byte list" and s s1 out k n
  assume "good s (length xs + n)" and c: "conv s xs = (s1, out, k)"
  then show "good s1 (length xs - k + n)"
    using after_loop [of xs s n] by (auto simp: conv_def split_beta Let_def minus_mult_div_eq_mod split: if_splits)
next
  fix b :: "byte list" and s s' out k
  assume "4 \<le> length b" and "conv s b = (s', out, k)"
  then show "length out = length b \<and> 0 < k \<and> k \<le> length b \<and> length b < k + 4 \<and> drop k out = drop k b"
    using wordLoop_length [of "g s" b] mod_less_divisor [of 4 "length b"] mult_div_mod_eq [of 4 "length b"]
    by (auto simp: conv_def split_beta Let_def div_greater_zero_iff)
qed (auto simp: conv_def intro: good_anti)

end

text \<open>The four word converters. ARM is good until its pointer wraps around.\<close>

definition armAdjust :: "u32 \<Rightarrow> u32" where
  "armAdjust ip = (if ip = 0 then 4 else ip)"

definition armGood :: "u32 \<Rightarrow> nat \<Rightarrow> bool" where
  "armGood ip n \<longleftrightarrow> unat (armAdjust ip) + n < 2 ^ 32"

lemma unat_add_4: "unat (ip :: u32) + 4 < 2 ^ 32 \<Longrightarrow> unat (ip + 4) = unat ip + 4"
  by (simp add: unat_word_ariths)

interpretation arm_words: word_converter "armWord e" armAdjust armGood for e
proof
  fix s :: u32 and n and w :: "byte list"
  assume good: "armGood s (4 + n)"
  then have u: "unat (armAdjust s + 4) = unat (armAdjust s) + 4"
    by (intro unat_add_4) (simp add: armGood_def)
  then have "armAdjust s + 4 \<noteq> 0" by (metis add_is_0 unat_0 zero_neq_numeral)
  with u good show "armAdjust (fst (armWord e (armAdjust s) w)) = fst (armWord e (armAdjust s) w)"
    and "armGood (fst (armWord e (armAdjust s) w)) n"
    by (simp_all add: armWord_def Let_def armAdjust_def [of "armAdjust s + 4"] armGood_def)
qed (auto simp: armWord_def Let_def armGood_def)

interpretation ppc_words: word_converter "ppcWord e" "\<lambda>s. s" "\<lambda>_ _. True" for e
  by unfold_locales (simp_all add: ppcWord_def putUint32BE_def Let_def)

interpretation sparc_words: word_converter "sparcWord e" "\<lambda>s. s" "\<lambda>_ _. True" for e
  by unfold_locales (simp_all add: sparcWord_def putUint32BE_def Let_def)

interpretation arm64_words: word_converter "arm64Word e" "\<lambda>s. s" "\<lambda>_ _. True" for e
  by unfold_locales (auto simp: arm64Word_def Let_def)

lemma convert_words:
  "armConvert e = word_converter.conv (armWord e) armAdjust"
  "ppcConvert e = word_converter.conv (ppcWord e) (\<lambda>s. s)"
  "sparcConvert e = word_converter.conv (sparcWord e) (\<lambda>s. s)"
  "arm64Convert e = word_converter.conv (arm64Word e) (\<lambda>s. s)"
  by (intro ext; simp add: arm_words.conv_def ppc_words.conv_def sparc_words.conv_def arm64_words.conv_def
      armConvert_def ppcConvert_def sparcConvert_def arm64Convert_def armAdjust_def Let_def)+

interpretation arm: converter 4 "armConvert e" armGood for e
  unfolding convert_words by (rule arm_words.converter_axioms)

interpretation ppc: converter 4 "ppcConvert e" "\<lambda>_ _. True" for e
  unfolding convert_words by (rule ppc_words.converter_axioms)

interpretation sparc: converter 4 "sparcConvert e" "\<lambda>_ _. True" for e
  unfolding convert_words by (rule sparc_words.converter_axioms)

interpretation arm64: converter 4 "arm64Convert e" "\<lambda>_ _. True" for e
  unfolding convert_words by (rule arm64_words.converter_axioms)

section \<open>The x86 converter\<close>

lemma scanOpcode_next:
  "p + 4 < length b \<Longrightarrow> b ! p AND 0xfe \<noteq> 0xe8 \<Longrightarrow> scanOpcode b p = scanOpcode b (Suc p)"
  by (subst scanOpcode.simps) simp

lemma scanOpcode_stop:
  "\<not> (p + 4 < length b \<and> b ! p AND 0xfe \<noteq> 0xe8) \<Longrightarrow> scanOpcode b p = p"
  by (subst scanOpcode.simps) auto

lemma scanOpcode_append:
  "scanOpcode (xs @ ws) pos = scanOpcode (xs @ ws) (scanOpcode xs pos)"
proof (induction xs pos rule: scanOpcode.induct)
  case (1 b p)
  show ?case
  proof (cases "p + 4 < length b \<and> b ! p AND 0xfe \<noteq> 0xe8")
    case True
    then have "scanOpcode (b @ ws) p = scanOpcode (b @ ws) (Suc p)"
      by (intro scanOpcode_next) (simp_all add: nth_append)
    with 1 True show ?thesis by (simp add: scanOpcode_next)
  next
    case False
    then have "scanOpcode b p = p" by (rule scanOpcode_stop)
    then show ?thesis by (simp only:)
  qed
qed

lemma scanOpcode_opcode:
  "scanOpcode xs pos = p \<Longrightarrow> p + 4 < length xs \<Longrightarrow> xs ! p AND 0xfe = 0xe8"
proof (induction xs pos rule: scanOpcode.induct)
  case (1 b q)
  show ?case
  proof (cases "q + 4 < length b \<and> b ! q AND 0xfe \<noteq> 0xe8")
    case True
    then have "scanOpcode b (Suc q) = p" using "1.prems"(1) scanOpcode_next [of q b] by simp
    with True "1.prems"(2) show ?thesis by (intro "1.IH") simp_all
  next
    case False
    then have "q = p" using "1.prems"(1) scanOpcode_stop [of q b] by simp
    with False "1.prems"(2) show ?thesis by auto
  qed
qed

lemma scanOpcode_found:
  assumes "scanOpcode xs pos + 4 < length xs"
  shows "scanOpcode (xs @ ws) pos = scanOpcode xs pos"
proof -
  have "scanOpcode (xs @ ws) (scanOpcode xs pos) = scanOpcode xs pos"
    using assms scanOpcode_opcode [OF refl assms] by (intro scanOpcode_stop) (simp add: nth_append)
  then show ?thesis by (rule trans [OF scanOpcode_append])
qed

lemma scanOpcode_shift: "scanOpcode (zs @ ys) (length zs + pos) = length zs + scanOpcode ys pos"
proof (induction ys pos rule: scanOpcode.induct)
  case (1 b p)
  show ?case
  proof (cases "p + 4 < length b \<and> b ! p AND 0xfe \<noteq> 0xe8")
    case True
    then have "scanOpcode (zs @ b) (length zs + p) = scanOpcode (zs @ b) (Suc (length zs + p))"
      by (intro scanOpcode_next) simp_all
    with 1 True show ?thesis by (simp add: scanOpcode_next)
  next
    case False
    then have "scanOpcode b p = p" by (rule scanOpcode_stop)
    moreover have "scanOpcode (zs @ b) (length zs + p) = length zs + p"
      using False by (intro scanOpcode_stop) auto
    ultimately show ?thesis by simp
  qed
qed

lemma setBytes_append: "p + length w \<le> length xs \<Longrightarrow> setBytes (xs @ ws) p w = setBytes xs p w @ ws"
  by (simp add: setBytes_def)

lemma setBytes_shift: "setBytes (zs @ ys) (length zs + p) w = zs @ setBytes ys p w"
  by (simp add: setBytes_def add.assoc)

end
