(* ===== verification/Bra_X86.thy ===== *)
theory Bra_X86
  imports Bra_Stream
begin

unbundle bit_operations_syntax

text \<open>
  The x86 converter satisfies the contract of the filter reader: its position, instruction
  pointer and mask at the end of one buffer are all that the conversion of the following data
  depends on.
\<close>

section \<open>The loop in one step\<close>

definition shiftMask :: "nat \<Rightarrow> u32 \<Rightarrow> u32" where
  "shiftMask d m = (if 2 < d then 0 else drop_bit d m)"

definition nextMask :: "u32 \<Rightarrow> u32" where
  "nextMask m = drop_bit 1 m OR 4"

definition converts :: "byte list \<Rightarrow> nat \<Rightarrow> u32 \<Rightarrow> bool" where
  "converts b p m \<longleftrightarrow>
     (m = 0 \<or> \<not> (4 < m \<or> m = 3 \<or> test86MSByte (b ! (p + unat (drop_bit 1 m) + 1))))
     \<and> test86MSByte (b ! (p + 4))"

definition patch :: "bool \<Rightarrow> u32 \<Rightarrow> byte list \<Rightarrow> nat \<Rightarrow> u32 \<Rightarrow> byte list" where
  "patch e ip b p m =
     (let w = putUint32 (bcjAddress e m (ip + 5 + of_nat p) (le32 (take 4 (drop (p + 1) b))))
      in setBytes b (p + 1) (w[3 := 0 - (w ! 3 AND 1)]))"

lemma bcjLoop_step:
  assumes p: "p = scanOpcode b pos" and m: "m' = shiftMask (p - pos) m"
  shows "bcjLoop e ip b pos m =
    (if length b \<le> p + 4 then (b, p, m')
     else if converts b p m' then bcjLoop e ip (patch e ip b p m') (p + 5) 0
     else bcjLoop e ip b (Suc p) (nextMask m'))"
proof -
  have "m' = 0 \<or> \<not> 2 < p - pos" using m by (auto simp: shiftMask_def)
  then show ?thesis
    by (subst bcjLoop.simps)
      (auto simp: Let_def p [symmetric] m shiftMask_def converts_def patch_def nextMask_def)
qed

text \<open>Induction along the loop with these names.\<close>

lemma bcjLoop_induct [consumes 0, case_names step]:
  assumes step: "\<And>b pos m. \<lbrakk>\<And>b' pos' m'. length b' = length b \<Longrightarrow> pos < pos' \<Longrightarrow> pos' \<le> length b \<Longrightarrow> P b' pos' m'\<rbrakk>
    \<Longrightarrow> P b pos m"
  shows "P b pos (m :: u32)"
proof (induction "length b - pos" arbitrary: b pos m rule: less_induct)
  case less
  show ?case by (rule step) (rule less, simp)
qed

section \<open>Masks\<close>

lemma mask_cases: "m < 8 \<Longrightarrow> m \<in> {0, 1, 2, 3, 4, 5, 6, 7 :: u32}"
proof -
  assume "m < 8"
  then have "unat m < 8" by (simp add: word_less_nat_alt)
  then have "unat m \<in> {0, 1, 2, 3, 4, 5, 6, 7}" by auto
  then show ?thesis by (auto simp: word_unat_eq_iff)
qed

lemma masks_small:
  assumes "m < 8"
  shows "nextMask m < 8" and "shiftMask d m < 8" and "unat (drop_bit 1 m) \<le> 3"
    and "m AND 7 = m"
proof -
  show "nextMask m < 8" "unat (drop_bit 1 m) \<le> 3" "m AND 7 = m"
    using mask_cases [OF assms] by (auto simp: nextMask_def)
  have "drop_bit d m < 8" if "d \<le> 2"
  proof -
    have "d \<in> {0, 1, 2}" using that by auto
    with mask_cases [OF assms] show ?thesis by auto
  qed
  then show "shiftMask d m < 8" by (auto simp: shiftMask_def)
qed

lemma shiftMask_twice: "m < 8 \<Longrightarrow> shiftMask d2 (shiftMask d1 m) = shiftMask (d1 + d2) m"
proof -
  assume m: "m < 8"
  have "drop_bit d2 (drop_bit d1 m) = 0" if "d1 \<le> 2" "d2 \<le> 2" "2 < d1 + d2"
  proof -
    have "(d1, d2) \<in> {(1, 2), (2, 1), (2, 2)}" using that by auto
    with mask_cases [OF m] show ?thesis by auto
  qed
  then show ?thesis by (auto simp: shiftMask_def drop_bit_drop_bit add.commute)
qed

lemma length_patch [simp]: "p + 5 \<le> length b \<Longrightarrow> length (patch e ip b p m) = length b"
  by (simp add: patch_def Let_def)

lemma drop_patch: "p + 5 \<le> length b \<Longrightarrow> p + 5 \<le> n \<Longrightarrow> drop n (patch e ip b p m) = drop n b"
  by (simp add: patch_def Let_def setBytes_def)

lemma scanOpcode_le: "pos \<le> length b \<Longrightarrow> scanOpcode b pos \<le> length b"
proof (induction b pos rule: scanOpcode.induct)
  case (1 b p)
  show ?case
  proof (cases "p + 4 < length b \<and> b ! p AND 0xfe \<noteq> 0xe8")
    case True
    with 1 show ?thesis by (simp add: scanOpcode_next)
  next
    case False
    then have "scanOpcode b p = p" by (rule scanOpcode_stop)
    with "1.prems" show ?thesis by simp
  qed
qed

section \<open>Bounds\<close>

lemma bcjLoop_bounds:
  "pos \<le> length b \<Longrightarrow> m < 8 \<Longrightarrow> bcjLoop e ip b pos m = (b', n, m') \<Longrightarrow>
   length b' = length b \<and> pos \<le> n \<and> n \<le> length b \<and> length b < n + 5 \<and> drop n b' = drop n b \<and> m' < 8
   \<and> (pos + 4 < length b \<longrightarrow> pos < n)"
proof (induction b pos m rule: bcjLoop_induct)
  case (step b pos m)
  define p where "p = scanOpcode b pos"
  define s where "s = shiftMask (p - pos) m"
  have pos: "pos \<le> p" by (simp add: p_def scanOpcode_ge)
  have pl: "p \<le> length b" using step.prems(1) by (simp add: p_def scanOpcode_le)
  note st = bcjLoop_step [OF p_def s_def, of e ip]
  have small: "s < 8" "nextMask s < 8" using step.prems(2) by (simp_all add: s_def masks_small)
  consider "length b \<le> p + 4" | "\<not> length b \<le> p + 4" "converts b p s" | "\<not> length b \<le> p + 4" "\<not> converts b p s"
    by blast
  then show ?case
  proof cases
    case 1
    then show ?thesis using st step.prems(3) small pos pl by auto
  next
    case 2
    then have l: "p + 5 \<le> length b" by simp
    have "bcjLoop e ip (patch e ip b p s) (p + 5) 0 = (b', n, m')" using 2 st step.prems(3) by simp
    from step.IH [OF _ _ _ _ _ this] l pos drop_patch [OF l, of n e ip s] show ?thesis by auto
  next
    case 3
    then have "bcjLoop e ip b (Suc p) (nextMask s) = (b', n, m')" using st step.prems(3) by simp
    from step.IH [OF _ _ _ _ _ this] 3 pos small show ?thesis by auto
  qed
qed

section \<open>More data\<close>

text \<open>The loop on more data first does what it does on the data it has.\<close>

lemma converts_append: "p + 4 < length xs \<Longrightarrow> m < 8 \<Longrightarrow> converts (xs @ ws) p m = converts xs p m"
  using masks_small(3) [of m] by (simp add: converts_def nth_append)

lemma patch_append: "p + 5 \<le> length xs \<Longrightarrow> patch e ip (xs @ ws) p m = patch e ip xs p m @ ws"
  by (simp add: patch_def Let_def setBytes_append)

lemma bcjLoop_append:
  "pos \<le> length xs \<Longrightarrow> m < 8 \<Longrightarrow> bcjLoop e ip xs pos m = (xs', n, m') \<Longrightarrow>
   bcjLoop e ip (xs @ ws) pos m = bcjLoop e ip (xs' @ ws) n m'"
proof (induction xs pos m rule: bcjLoop_induct)
  case (step xs pos m)
  define p where "p = scanOpcode xs pos"
  define s where "s = shiftMask (p - pos) m"
  have pos: "pos \<le> p" by (simp add: p_def scanOpcode_ge)
  note st = bcjLoop_step [OF p_def s_def, of e ip]
  have small: "s < 8" "nextMask s < 8" using step.prems(2) by (simp_all add: s_def masks_small)
  show ?case
  proof (cases "length xs \<le> p + 4")
    case True
    then have eq: "xs' = xs" "n = p" "m' = s" using st step.prems(3) by simp_all
    define q where "q = scanOpcode (xs @ ws) p"
    have q: "q = scanOpcode (xs @ ws) pos" using scanOpcode_append [of xs ws pos] by (simp add: q_def p_def)
    have "p \<le> q" by (simp add: q_def scanOpcode_ge)
    then have "shiftMask (q - p) s = shiftMask (q - pos) m"
      using pos step.prems(2) by (simp add: s_def shiftMask_twice)
    then show ?thesis
      using bcjLoop_step [OF q refl, of e ip m] bcjLoop_step [OF q_def refl, of e ip s] by (simp add: eq)
  next
    case False
    then have l: "p + 5 \<le> length xs" and l4: "p + 4 < length xs" by simp_all
    have q: "p = scanOpcode (xs @ ws) pos" using scanOpcode_found [of xs pos ws] l4 by (simp add: p_def)
    note st' = bcjLoop_step [OF q s_def, of e ip]
    show ?thesis
    proof (cases "converts xs p s")
      case True
      then have "bcjLoop e ip (patch e ip xs p s) (p + 5) 0 = (xs', n, m')" using False st step.prems(3) by simp
      from step.IH [OF _ _ _ _ _ this] l pos True False st' show ?thesis
        by (simp add: converts_append small patch_append)
    next
      case no: False
      then have "bcjLoop e ip xs (Suc p) (nextMask s) = (xs', n, m')" using False st step.prems(3) by simp
      from step.IH [OF _ _ _ _ _ this] l pos small no False st' show ?thesis
        by (simp add: converts_append small)
    qed
  qed
qed

text \<open>What lies before the position only moves the instruction pointer.\<close>

lemma converts_shift: "converts (zs @ ys) (length zs + p) m = converts ys p m"
  by (simp add: converts_def add.assoc nth_append)

lemma patch_shift: "patch e ip (zs @ ys) (length zs + p) m = zs @ patch e (ip + of_nat (length zs)) ys p m"
  using setBytes_shift [of zs ys "p + 1"] by (simp add: patch_def Let_def add_ac)

lemma bcjLoop_shift:
  "bcjLoop e ip (zs @ ys) (length zs + pos) m =
     (let (ys', n, m') = bcjLoop e (ip + of_nat (length zs)) ys pos m in (zs @ ys', length zs + n, m'))"
proof (induction ys pos m rule: bcjLoop_induct)
  case (step ys pos m)
  define p where "p = scanOpcode ys pos"
  define s where "s = shiftMask (p - pos) m"
  have q: "length zs + p = scanOpcode (zs @ ys) (length zs + pos)" by (simp add: p_def scanOpcode_shift)
  have pos: "pos \<le> p" by (simp add: p_def scanOpcode_ge)
  have s: "s = shiftMask (length zs + p - (length zs + pos)) m" by (simp add: s_def)
  note st = bcjLoop_step [OF p_def s_def, of e "ip + of_nat (length zs)"] and st' = bcjLoop_step [OF q s, of e ip]
  show ?case
  proof (cases "length ys \<le> p + 4")
    case True
    then show ?thesis using st st' by simp
  next
    case False
    then have l: "p + 5 \<le> length ys" by simp
    show ?thesis
    proof (cases "converts ys p s")
      case True
      have "length (patch e (ip + of_nat (length zs)) ys p s) = length ys" using l by simp
      from step.IH [OF this, of "p + 5" 0] l pos have
        "bcjLoop e ip (zs @ patch e (ip + of_nat (length zs)) ys p s) (length zs + (p + 5)) 0 =
         (let (ys', n, m') = bcjLoop e (ip + of_nat (length zs)) (patch e (ip + of_nat (length zs)) ys p s) (p + 5) 0
          in (zs @ ys', length zs + n, m'))" by simp
      with True False st st' show ?thesis
        by (simp add: converts_shift patch_shift add.assoc)
    next
      case no: False
      from step.IH [OF refl, of "Suc p" "nextMask s"] l pos no False st st' show ?thesis
        by (simp add: converts_shift)
    qed
  qed
qed

section \<open>The contract\<close>

lemma mask7: "(m :: u32) AND 7 < 8"
proof -
  have "m AND 7 \<le> 7" by (rule word_and_le1)
  then show ?thesis by (rule order_le_less_trans) simp
qed

interpretation bcj: converter 5 "bcjConvert e" "\<lambda>c n. bj_state c < 8" for e
proof
  fix b :: "byte list" and s s' out k
  assume l: "5 \<le> length b" and c: "bcjConvert e s b = (s', out, k)"
  obtain m' where "bcjLoop e (bj_ip s) b 0 (bj_state s AND 7) = (out, k, m')"
    using l c by (auto simp: bcjConvert_def split: prod.splits)
  from bcjLoop_bounds [OF _ mask7 this] l
  show "length out = length b \<and> 0 < k \<and> k \<le> length b \<and> length b < k + 5 \<and> drop k out = drop k b" by auto
next
  fix s s1 :: bcj and xs ws out :: "byte list" and k :: nat
  assume good: "bj_state s < 8" and c: "bcjConvert e s xs = (s1, out, k)"
  show "bcjConvert e s (xs @ ws) =
    (let (s2, out2, k2) = bcjConvert e s1 (drop k out @ ws) in (s2, take k out @ out2, k + k2))"
  proof (cases "length xs < 5")
    case True
    with c show ?thesis by (auto simp: bcjConvert_def split_beta Let_def)
  next
    case False
    obtain m' where lp: "bcjLoop e (bj_ip s) xs 0 (bj_state s AND 7) = (out, k, m')"
      and s1: "s1 = \<lparr>bj_ip = bj_ip s + of_nat k, bj_state = m'\<rparr>"
      using False c by (auto simp: bcjConvert_def split: prod.splits)
    have b: "length out = length xs" "k \<le> length out" "m' < 8"
      using bcjLoop_bounds [OF _ mask7 lp] by simp_all
    have "bcjLoop e (bj_ip s) (xs @ ws) 0 (bj_state s AND 7) = bcjLoop e (bj_ip s) (out @ ws) k m'"
      using lp mask7 by (intro bcjLoop_append) simp_all
    also have "\<dots> = bcjLoop e (bj_ip s) (take k out @ (drop k out @ ws)) (length (take k out) + 0) m'"
      using b by (simp add: append_assoc [symmetric] del: append_assoc)
    also have "\<dots> = (let (ys', n, m'') = bcjLoop e (bj_ip s + of_nat k) (drop k out @ ws) 0 m'
        in (take k out @ ys', k + n, m''))"
      using b by (subst bcjLoop_shift) (simp add: min_def)
    finally have all: "bcjLoop e (bj_ip s) (xs @ ws) 0 (bj_state s AND 7) = \<dots>" .
    show ?thesis
    proof (cases "length (drop k out @ ws) < 5")
      case True
      have "scanOpcode (drop k out @ ws) 0 = 0" using True by (intro scanOpcode_stop) auto
      then have "bcjLoop e (bj_ip s + of_nat k) (drop k out @ ws) 0 m' = (drop k out @ ws, 0, m')"
        using True bcjLoop_step [of 0 "drop k out @ ws" 0, OF _ refl] by (simp add: shiftMask_def)
      with all False True s1 show ?thesis by (simp add: bcjConvert_def)
    next
      case long: False
      with all False s1 b show ?thesis
        by (simp add: bcjConvert_def masks_small split_beta Let_def add.assoc)
    qed
  qed
next
  fix s s1 :: bcj and xs out :: "byte list" and k :: nat
  assume "bj_state s < 8" and "bcjConvert e s xs = (s1, out, k)"
  then show "bj_state s1 < 8"
    using bcjLoop_bounds [OF _ mask7, of 0 xs e "bj_ip s" "bj_state s"]
    by (auto simp: bcjConvert_def split: if_splits prod.splits)
qed (simp_all add: bcjConvert_def)

section \<open>Properties\<close>

text \<open>A new reader over a source, as \<open>newReader\<close> makes it for one reader.\<close>

definition freshBra :: "byte list \<Rightarrow> 's \<Rightarrow> 's braReader" where
  "freshBra src s = \<lparr>br_rc = Some src, br_buf = [], br_n = 0, br_conv = s\<rparr>"

lemma braNewReader_fresh: "braNewReader [src] s = Inr (freshBra src s)"
  by (simp add: braNewReader_def freshBra_def)

lemma x86_delivers:
  assumes "list_all (\<lambda>m. 0 < m) ms" and "length src \<le> length ms"
  shows "fst (reads (braRead 5 (bcjConvert e)) (freshBra src \<lparr>bj_ip = 0, bj_state = 0\<rparr>) ms)
    = fst (snd (bcjConvert e \<lparr>bj_ip = 0, bj_state = 0\<rparr> src))"
  using bcj.braReads_all [where s = "\<lparr>bj_ip = 0, bj_state = 0\<rparr>" and src = src and ms = ms and e = e] assms by (simp add: freshBra_def)

text \<open>
C13: The x86 filter reader delivers exactly the conversion of the whole stream in one piece,
once and in order, for every sequence of read sizes: the position, the mask of preceding
opcodes and the look-ahead of four bytes carry over from buffer to buffer.
\<close>

theorem x86_reader_delivers:
  assumes "list_all (\<lambda>m. 0 < m) ms" and "length src \<le> length ms"
    and "braNewReader [src] \<lparr>bj_ip = 0, bj_state = 0\<rparr> = Inr r"
  shows "fst (reads (braRead 5 (bcjConvert e)) r ms) = fst (snd (bcjConvert e \<lparr>bj_ip = 0, bj_state = 0\<rparr> src))"
  using x86_delivers [OF assms(1,2)] assms(3) by (simp add: braNewReader_fresh)

theorem x86_reader_delivers_witness:
  "fst (reads (braRead 5 (bcjConvert False)) (freshBra [0xe8, 9, 0, 0, 0, 0x90] \<lparr>bj_ip = 0, bj_state = 0\<rparr>) [1, 2, 3, 1, 1, 1])
    = [0xe8, 4, 0, 0, 0, 0x90]"
proof -
  have "fst (snd (bcjConvert False \<lparr>bj_ip = 0, bj_state = 0\<rparr> [0xe8, 9, 0, 0, 0, 0x90])) = [0xe8, 4, 0, 0, 0, 0x90]"
    by code_simp
  with x86_reader_delivers [of "[1, 2, 3, 1, 1, 1]" "[0xe8, 9, 0, 0, 0, 0x90]"
      "freshBra [0xe8, 9, 0, 0, 0, 0x90] \<lparr>bj_ip = 0, bj_state = 0\<rparr>" False]
  show ?thesis by (simp add: braNewReader_fresh)
qed

text \<open>
C14: The PowerPC, SPARC, ARM64 and ARM filter readers deliver exactly the conversion of the
whole stream for every sequence of read sizes; for ARM as long as the 32-bit instruction
pointer does not wrap around.
\<close>

theorem word_readers_deliver:
  assumes "list_all (\<lambda>m. 0 < m) ms" and "length src \<le> length ms"
  shows "fst (reads (braRead 4 (ppcConvert e)) (freshBra src 0) ms) = fst (snd (ppcConvert e 0 src))
    \<and> fst (reads (braRead 4 (sparcConvert e)) (freshBra src 0) ms) = fst (snd (sparcConvert e 0 src))
    \<and> fst (reads (braRead 4 (arm64Convert e)) (freshBra src 0) ms) = fst (snd (arm64Convert e 0 src))
    \<and> (length src < 2 ^ 32 - 4 \<longrightarrow>
        fst (reads (braRead 4 (armConvert e)) (freshBra src 0) ms) = fst (snd (armConvert e 0 src)))"
  using ppc.braReads_all [where s = 0 and src = src and ms = ms and e = e] sparc.braReads_all [where s = 0 and src = src and ms = ms and e = e]
    arm64.braReads_all [where s = 0 and src = src and ms = ms and e = e] arm.braReads_all [where s = 0 and src = src and ms = ms and e = e] assms
  by (simp add: freshBra_def armGood_def armAdjust_def)

theorem word_readers_deliver_witness:
  "fst (reads (braRead 4 (armConvert False)) (freshBra [9, 0, 0, 0xeb, 5] 0) [1, 1, 2, 1, 1]) = [7, 0, 0, 0xeb, 5]"
proof -
  have "fst (snd (armConvert False 0 [9, 0, 0, 0xeb, 5])) = [7, 0, 0, 0xeb, 5]" by code_simp
  with word_readers_deliver [of "[1, 1, 2, 1, 1]" "[9, 0, 0, 0xeb, 5]" False] show ?thesis by simp
qed

end
