(* ===== verification/Bra_Inverse.thy ===== *)
theory Bra_Inverse
  imports Bra_X86
begin

unbundle bit_operations_syntax

text \<open>
  Decoding undoes encoding: the ARM and PowerPC converters run in the decoding direction on
  the result of the encoding direction give the original buffer.
\<close>

section \<open>Bytes of a word\<close>

lemma put_be32: "length w = 4 \<Longrightarrow> putUint32BE (be32 w) = w"
  by (simp add: putUint32BE_def be32_def put_le32)

lemma be32_put [simp]: "be32 (putUint32BE v) = v"
  by (simp add: putUint32BE_def be32_def)

lemma top_byte:
  assumes "length w = 4"
  shows "drop_bit 24 (le32 w) = ucast (w ! 3)"
proof (rule bit_word_eqI)
  fix n
  show "bit (drop_bit 24 (le32 w)) n = bit (ucast (w ! 3) :: u32) n"
  proof (cases "n < 8")
    case True
    then have "(24 + n) div 8 = 3" "(24 + n) mod 8 = n" by presburger+
    with True show ?thesis using bit_le32 [OF assms, of "24 + n"] by (simp add: bit_simps)
  next
    case False
    then show ?thesis by (auto simp: bit_simps dest!: bit_imp_le_length)
  qed
qed

lemma low_byte:
  assumes "length w = 4"
  shows "take_bit 8 (le32 w) = ucast (w ! 0)"
proof (rule bit_word_eqI)
  fix n
  show "bit (take_bit 8 (le32 w)) n = bit (ucast (w ! 0) :: u32) n"
  proof (cases "n < 8")
    case True
    then show ?thesis using bit_le32 [OF assms, of n] by (simp add: bit_simps)
  next
    case False
    then show ?thesis by (auto simp: bit_simps dest!: bit_imp_le_length)
  qed
qed

section \<open>Arithmetic on the low bits\<close>

lemma take_bit_diff_int: "take_bit n (take_bit n a - b) = take_bit n (a - (b :: int))"
proof -
  have "take_bit n (take_bit n a - b) = take_bit n (take_bit n (take_bit n a) - take_bit n b)"
    by (rule take_bit_diff [symmetric])
  also have "\<dots> = take_bit n (a - b)" by (simp add: take_bit_diff)
  finally show ?thesis .
qed

lemma take_bit_diff_left:
  "n \<le> LENGTH('a) \<Longrightarrow> take_bit n (take_bit n a - b) = take_bit n (a - (b :: 'a::len word))"
  by (rule word_uint_eqI) (simp add: unsigned_take_bit_eq uint_word_arith_bintrs take_bit_diff_int min_def)

lemma take_bit_add_right:
  "n \<le> LENGTH('a) \<Longrightarrow> take_bit n (a + b) = take_bit n (a + take_bit n (b :: 'a::len word))"
proof (rule word_uint_eqI)
  assume "n \<le> LENGTH('a)"
  moreover have "take_bit n (uint a + uint b) = take_bit n (uint a + take_bit n (uint b))"
    by (metis take_bit_add take_bit_take_bit min.idem)
  ultimately show "uint (take_bit n (a + b)) = uint (take_bit n (a + take_bit n b))"
    by (simp add: unsigned_take_bit_eq uint_word_arith_bintrs min_def)
qed

lemma take_bit_or_high: "take_bit n (x OR push_bit n y) = take_bit n (x :: u32)"
  by (rule bit_word_eqI) (auto simp: bit_simps)

text \<open>Adding below a fixed top part, and subtracting again.\<close>

lemma add_sub_low:
  "n \<le> 32 \<Longrightarrow> take_bit n ((take_bit n (v + d) OR push_bit n t) - d) = take_bit n (v :: u32)"
proof -
  assume n: "n \<le> 32"
  then have "take_bit n ((take_bit n (v + d) OR push_bit n t) - d)
    = take_bit n (take_bit n (take_bit n (v + d) OR push_bit n t) - d)"
    by (intro take_bit_diff_left [symmetric]) simp
  also have "\<dots> = take_bit n (take_bit n (v + d) - d)" by (simp only: take_bit_or_high take_bit_take_bit min.idem)
  also have "\<dots> = take_bit n v" using n by (simp add: take_bit_diff_left)
  finally show "take_bit n ((take_bit n (v + d) OR push_bit n t) - d) = take_bit n v" .
qed

lemma split_word: "v = take_bit n v OR push_bit n (drop_bit n (v :: u32))"
proof (rule bit_word_eqI)
  fix m show "bit v m = bit (take_bit n v OR push_bit n (drop_bit n v)) m"
    by (cases "m < n") (auto simp: bit_simps dest: bit_imp_le_length)
qed

lemma and_low: "v AND 0x00ffffff = take_bit 24 (v :: u32)" "v AND 0x03ffffff = take_bit 26 (v :: u32)"
  by (simp_all add: take_bit_eq_mask mask_eq_exp_minus_1)

lemma drop_bit_top: "drop_bit n (take_bit n x OR push_bit n t) = take_bit (32 - n) (t :: u32)"
  by (rule bit_word_eqI) (auto simp: bit_simps)

section \<open>ARM\<close>

lemma ucast_eq_num: "(ucast (b :: byte) :: u32) = 0xeb \<longleftrightarrow> b = 0xeb"
  by (simp add: word_unat_eq_iff unsigned_ucast_eq take_bit_nat_eq_self
      unsigned_less [where ?'a = nat, THEN order_less_le_trans])

lemma armWord_inverse:
  assumes "length w = 4"
  shows "armWord False ip (snd (armWord True ip w)) = (ip + 4, w)"
proof (cases "w ! 3 = 0xeb")
  case False
  then show ?thesis using assms by (simp add: armWord_def Let_def put_le32)
next
  case True
  define v where "v = le32 w"
  define d where "d = drop_bit 2 (ip + 4)"
  define x where "x = take_bit 24 (v + d) OR push_bit 24 0xeb"
  have T: "(0xeb000000 :: u32) = push_bit 24 0xeb" by (simp add: push_bit_eq_mult)
  have enc: "armWord True ip w = (ip + 4, putUint32 x)"
    unfolding armWord_def Let_def True and_low T x_def v_def d_def by (simp only: refl if_True)
  have "drop_bit 24 x = take_bit (32 - 24) 0xeb" unfolding x_def by (rule drop_bit_top)
  then have "drop_bit 24 x = 0xeb" by (simp add: take_bit_eq_mod)
  then have top: "putUint32 x ! 3 = 0xeb"
    using top_byte [of "putUint32 x"] by (simp add: ucast_eq_num)
  have "drop_bit 24 v = 0xeb" using top_byte [OF assms] True by (simp add: v_def)
  then have bk: "take_bit 24 (x - d) OR push_bit 24 0xeb = v"
    using split_word [where v = v and n = 24] add_sub_low [where n = 24 and v = v and d = d and t = "0xeb"] by (simp add: x_def)
  have "armWord False ip (putUint32 x) = (ip + 4, putUint32 v)"
    unfolding armWord_def Let_def top le32_put and_low T d_def [symmetric]
    by (simp only: refl if_True if_False simp_thms bk)
  then show ?thesis using assms by (simp add: enc v_def put_le32)
qed

section \<open>PowerPC\<close>

lemma and_fc: "b AND 0xfc = 0x48 \<longleftrightarrow> drop_bit 2 b = (0x12 :: byte)"
proof -
  have split: "b AND 0xfc = push_bit 2 (drop_bit 2 b)"
  proof (rule bit_word_eqI)
    fix n assume n: "n < LENGTH(8)"
    then have "n \<in> {0, 1, 2, 3, 4, 5, 6, 7}" by auto
    then have "bit (0xfc :: byte) n \<longleftrightarrow> 2 \<le> n" by auto
    then show "bit (b AND 0xfc) n = bit (push_bit 2 (drop_bit 2 b)) n"
      using n le_add_diff_inverse [of 2 n] by (auto simp: bit_and_iff bit_push_bit_iff bit_drop_bit_eq)
  qed
  have "push_bit 2 (drop_bit 2 b) = push_bit 2 (0x12 :: byte) \<longleftrightarrow> drop_bit 2 b = (0x12 :: byte)"
  proof
    assume "push_bit 2 (drop_bit 2 b) = push_bit 2 (0x12 :: byte)"
    then have "drop_bit 2 (push_bit 2 (drop_bit 2 b)) = drop_bit 2 (push_bit 2 (0x12 :: byte))" by (rule arg_cong)
    moreover have "drop_bit 2 (push_bit 2 (drop_bit 2 b)) = drop_bit 2 b"
      by (rule bit_word_eqI) (auto simp: bit_simps dest: bit_imp_le_length)
    ultimately show "drop_bit 2 b = 0x12" by (simp add: push_bit_eq_mult)
  qed simp
  then show ?thesis by (simp add: split push_bit_eq_mult)
qed

lemma ppc_opcode:
  assumes "length w = 4"
  shows "w ! 0 AND 0xfc = 0x48 \<and> w ! 3 AND 3 = 1 \<longleftrightarrow> drop_bit 26 (be32 w) = 0x12 \<and> take_bit 2 (be32 w) = 1"
proof -
  have r: "length (rev w) = 4" "rev w ! 3 = w ! 0" "rev w ! 0 = w ! 3"
    using assms by (simp_all add: rev_nth)
  have "drop_bit 26 (be32 w) = drop_bit 2 (drop_bit 24 (be32 w))" by simp
  also have "\<dots> = drop_bit 2 (ucast (w ! 0))" using top_byte [OF r(1)] r by (simp add: be32_def)
  also have "\<dots> = ucast (drop_bit 2 (w ! 0))"
    by (rule bit_word_eqI) (auto simp: bit_simps dest: bit_imp_le_length)
  finally have "drop_bit 26 (be32 w) = 0x12 \<longleftrightarrow> drop_bit 2 (w ! 0) = 0x12"
    by (simp add: word_unat_eq_iff unsigned_ucast_eq take_bit_nat_eq_self
        unsigned_less [where ?'a = nat, THEN order_less_le_trans])
  moreover have "take_bit 2 (be32 w) = ucast (take_bit 2 (w ! 3))"
  proof -
    have "take_bit 2 (be32 w) = take_bit 2 (take_bit 8 (be32 w))" by simp
    also have "\<dots> = take_bit 2 (ucast (w ! 3))" using low_byte [OF r(1)] r by (simp add: be32_def)
    also have "\<dots> = ucast (take_bit 2 (w ! 3))" by (rule bit_word_eqI) (auto simp: bit_simps)
    finally show ?thesis .
  qed
  moreover have "take_bit 2 (w ! 3) = w ! 3 AND 3" by (simp add: take_bit_eq_mask mask_eq_exp_minus_1)
  moreover have "(ucast (w ! 3 AND 3) :: u32) = 1 \<longleftrightarrow> w ! 3 AND 3 = 1"
    by (simp add: word_unat_eq_iff unsigned_ucast_eq take_bit_nat_eq_self
        unsigned_less [where ?'a = nat, THEN order_less_le_trans])
  ultimately show ?thesis by (simp add: and_fc)
qed

lemma ppcWord_inverse:
  assumes w: "length w = 4" and ip: "take_bit 2 ip = 0"
  shows "ppcWord False ip (snd (ppcWord True ip w)) = (ip + 4, w)"
proof (cases "w ! 0 AND 0xfc = 0x48 \<and> w ! 3 AND 3 = 1")
  case False
  then show ?thesis using w by (auto simp: ppcWord_def Let_def put_be32)
next
  case True
  define v where "v = be32 w"
  define x where "x = take_bit 26 (v + ip) OR push_bit 26 0x12"
  have T: "(0x48000000 :: u32) = push_bit 26 0x12" by (simp add: push_bit_eq_mult)
  have enc: "ppcWord True ip w = (ip + 4, putUint32BE x)"
    unfolding ppcWord_def Let_def and_low T x_def v_def by (simp only: True simp_thms if_True)
  have op: "drop_bit 26 v = 0x12" "take_bit 2 v = 1" using True ppc_opcode [OF w] by (simp_all add: v_def)
  have "drop_bit 26 x = take_bit (32 - 26) 0x12" unfolding x_def by (rule drop_bit_top)
  then have x1: "drop_bit 26 x = 0x12" by (simp add: take_bit_eq_mod)
  have "take_bit 2 x = take_bit 2 (take_bit 26 x)" by simp
  also have "\<dots> = take_bit 2 (v + ip)" unfolding x_def take_bit_or_high by simp
  also have "\<dots> = 1" using take_bit_add_right [of 2 v ip] ip op(2) by simp
  finally have x2: "take_bit 2 x = 1" .
  have len: "length (putUint32BE x) = 4" by (simp add: putUint32BE_def)
  have top: "putUint32BE x ! 0 AND 0xfc = 0x48 \<and> putUint32BE x ! 3 AND 3 = 1"
    using ppc_opcode [OF len] x1 x2 by simp
  have bk: "take_bit 26 (x - ip) OR push_bit 26 0x12 = v"
    using split_word [where v = v and n = 26] add_sub_low [where n = 26 and v = v and d = ip and t = "0x12"] op(1) by (simp add: x_def)
  have "ppcWord False ip (putUint32BE x) = (ip + 4, putUint32BE v)"
    unfolding ppcWord_def Let_def be32_put and_low T by (simp only: top simp_thms if_True if_False bk)
  then show ?thesis using w by (simp add: enc v_def put_be32)
qed

section \<open>Whole buffers\<close>

text \<open>A decoder that undoes an encoder word by word undoes it on buffers.\<close>

lemma wordLoop_inverse:
  assumes word: "\<And>s w. P s \<Longrightarrow> length w = 4 \<Longrightarrow>
      length (snd (enc s w)) = 4 \<and> dec s (snd (enc s w)) = (fst (enc s w), w) \<and> P (fst (enc s w))"
  shows "P s \<Longrightarrow> wordLoop dec s (snd (wordLoop enc s b)) = (fst (wordLoop enc s b), b)"
proof (induction "length b" arbitrary: s b rule: less_induct)
  case less
  show ?case
  proof (cases "(enc, s, b)" rule: wordLoop.cases)
    case (1 f s' b0 b1 b2 b3 bs)
    define w where "w = [b0, b1, b2, b3]"
    have st: "length (snd (enc s w)) = 4" "dec s (snd (enc s w)) = (fst (enc s w), w)" "P (fst (enc s w))"
      using word [of s w] less.prems by (simp_all add: w_def)
    obtain c0 c1 c2 c3 where c: "snd (enc s w) = [c0, c1, c2, c3]"
      using st(1) by (auto simp: length_Suc_conv numeral_eq_Suc)
    have b: "b = w @ bs" using 1 by (simp add: w_def)
    have "wordLoop enc s b = (fst (wordLoop enc (fst (enc s w)) bs), snd (enc s w) @ snd (wordLoop enc (fst (enc s w)) bs))"
      using 1 by (simp add: w_def split_beta Let_def)
    moreover have "wordLoop dec s (snd (enc s w) @ xs) =
        (fst (wordLoop dec (fst (enc s w)) xs), w @ snd (wordLoop dec (fst (enc s w)) xs))" for xs
      using st(2) by (simp add: c split_beta Let_def)
    ultimately show ?thesis
      using less.hyps [of bs "fst (enc s w)"] st(3) by (simp add: b w_def)
  qed (use less in auto)
qed

lemma arm_inverse: "snd (wordLoop (armWord False) ip (snd (wordLoop (armWord True) ip b))) = b"
proof -
  have "wordLoop (armWord False) ip (snd (wordLoop (armWord True) ip b)) = (fst (wordLoop (armWord True) ip b), b)"
    by (rule wordLoop_inverse [where P = "\<lambda>_. True"])
      (simp_all add: armWord_inverse, simp_all add: armWord_def Let_def)
  then show ?thesis by simp
qed

lemma ppc_inverse:
  assumes "take_bit 2 ip = 0"
  shows "snd (wordLoop (ppcWord False) ip (snd (wordLoop (ppcWord True) ip b))) = b"
proof -
  have step: "take_bit 2 (i + 4) = 0" if "take_bit 2 i = 0" for i :: u32
    using take_bit_add_right [of 2 i 4] that by (simp add: take_bit_eq_mod)
  have "wordLoop (ppcWord False) ip (snd (wordLoop (ppcWord True) ip b)) = (fst (wordLoop (ppcWord True) ip b), b)"
    using assms by (intro wordLoop_inverse [where P = "\<lambda>i. take_bit 2 i = 0"])
      (simp_all add: ppcWord_inverse step, simp_all add: ppcWord_def Let_def putUint32BE_def step)
  then show ?thesis by simp
qed

section \<open>Properties\<close>

text \<open>
C20: Decoding undoes encoding for the ARM and the PowerPC filters on every buffer, of any
length and with any bytes, from the state a new reader starts in.
\<close>

theorem branch_filters_invertible:
  "fst (snd (armConvert False 0 (fst (snd (armConvert True 0 b))))) = b
   \<and> fst (snd (ppcConvert False 0 (fst (snd (ppcConvert True 0 b))))) = b"
proof -
  have len: "length (snd (wordLoop (armWord True) 4 b)) = length b" "length (snd (wordLoop (ppcWord True) 0 b)) = length b"
    using arm_words.wordLoop_length [of True 4 b] ppc_words.wordLoop_length [of True 0 b] by simp_all
  show ?thesis
    using arm_inverse [of 4 b] ppc_inverse [of 0 b] len
    by (auto simp: armConvert_def ppcConvert_def split_beta Let_def)
qed

end
