(* ===== verification/Delta.thy ===== *)
theory Delta
  imports Prelude "HOL-Library.Monad_Syntax"
begin

text \<open>
  The delta filter, \<open>internal/delta\<close>: every byte is the difference to the byte \<open>delta\<close>
  positions before it. The reader keeps the last \<open>delta\<close> bytes in a state of 256 bytes. Its loop
  is a partial function, because it does not end for a distance of zero.
\<close>

section \<open>The reader\<close>

datatype delta_error = DeltaAlreadyClosed | DeltaNeedOneReader | DeltaInsufficientProperties

record deltaReader =
  dl_rc :: "byte list option"
  dl_state :: "byte list"
  dl_delta :: nat

definition stateSize :: nat where
  "stateSize = 256"

text \<open>The distance is computed in a byte, so 255 becomes zero.\<close>

definition deltaNewReader :: "byte list \<Rightarrow> byte list list \<Rightarrow> delta_error + deltaReader" where
  "deltaNewReader p readers =
     (case readers of
        [rc] \<Rightarrow>
          if length p \<noteq> 1 then Inl DeltaInsufficientProperties
          else Inr \<lparr>dl_rc = Some rc, dl_state = replicate stateSize 0, dl_delta = unat (p ! 0 + 1)\<rparr>
      | _ \<Rightarrow> Inl DeltaNeedOneReader)"

text \<open>
  The inner loop: from position \<open>j\<close> of the buffer; the position it stops at, the buffer, the
  bytes produced and those left.
\<close>

fun deltaInner :: "nat \<Rightarrow> nat \<Rightarrow> byte list \<Rightarrow> byte list \<Rightarrow> nat \<times> byte list \<times> byte list \<times> byte list" where
  "deltaInner d j buffer [] = (j, buffer, [], [])"
| "deltaInner d j buffer (x # xs) =
     (if j < d then
        let y = buffer ! j + x;
            (j', buffer', ys, rest) = deltaInner d (j + 1) (buffer[j := y]) xs
        in (j', buffer', y # ys, rest)
      else (j, buffer, [], x # xs))"

partial_function (option) deltaOuter ::
    "nat \<Rightarrow> nat \<Rightarrow> byte list \<Rightarrow> byte list \<Rightarrow> (nat \<times> byte list \<times> byte list) option" where
  "deltaOuter d j buffer xs =
     (if xs = [] then Some (j, buffer, [])
      else
        let r = deltaInner d 0 buffer xs in
        do { s \<leftarrow> deltaOuter d (fst r) (fst (snd r)) (snd (snd (snd r)));
             Some (fst s, fst (snd s), fst (snd (snd r)) @ snd (snd s)) })"

text \<open>
  A read for which the underlying reader returns \<open>n\<close> bytes, fewer at the end. The end of the
  stream is not reported: it is a read of no bytes without an error.
\<close>

definition deltaRead ::
    "deltaReader \<Rightarrow> nat \<Rightarrow> (byte list \<times> delta_error option \<times> deltaReader) option" where
  "deltaRead r n =
     (case dl_rc r of
        None \<Rightarrow> Some ([], Some DeltaAlreadyClosed, r)
      | Some src \<Rightarrow>
          do {
            (j, buffer, out) \<leftarrow> deltaOuter (dl_delta r) 0 (take (dl_delta r) (dl_state r)) (take n src);
            let j = (if j = dl_delta r then 0 else j);
            let state = take (dl_delta r) (drop j buffer @ take j buffer) @ drop (dl_delta r) (dl_state r);
            Some (out, None, r\<lparr>dl_rc := Some (drop n src), dl_state := state\<rparr>)
          })"

definition deltaClose :: "deltaReader \<Rightarrow> delta_error option \<times> deltaReader" where
  "deltaClose r =
     (case dl_rc r of None \<Rightarrow> (Some DeltaAlreadyClosed, r) | Some _ \<Rightarrow> (None, r\<lparr>dl_rc := None\<rparr>))"

section \<open>The reference\<close>

text \<open>The history holds the last bytes, the oldest first.\<close>

fun deltaDecode :: "byte list \<Rightarrow> byte list \<Rightarrow> byte list" where
  "deltaDecode h [] = []"
| "deltaDecode h (x # xs) = (let y = hd h + x in y # deltaDecode (tl h @ [y]) xs)"

fun deltaHistory :: "byte list \<Rightarrow> byte list \<Rightarrow> byte list" where
  "deltaHistory h [] = h"
| "deltaHistory h (x # xs) = deltaHistory (tl h @ [hd h + x]) xs"

fun deltaEncode :: "byte list \<Rightarrow> byte list \<Rightarrow> byte list" where
  "deltaEncode h [] = []"
| "deltaEncode h (x # xs) = (x - hd h) # deltaEncode (tl h @ [x]) xs"

lemma deltaDecode_append:
  "deltaDecode h (xs @ ys) = deltaDecode h xs @ deltaDecode (deltaHistory h xs) ys"
  by (induction xs arbitrary: h) (simp_all add: Let_def)

lemma deltaHistory_append: "deltaHistory h (xs @ ys) = deltaHistory (deltaHistory h xs) ys"
  by (induction xs arbitrary: h) simp_all

lemma length_deltaDecode [simp]: "length (deltaDecode h xs) = length xs"
  by (induction xs arbitrary: h) (simp_all add: Let_def)

lemma length_deltaHistory: "h \<noteq> [] \<Longrightarrow> length (deltaHistory h xs) = length h"
  by (induction xs arbitrary: h) simp_all

lemma deltaDecode_encode: "deltaDecode h (deltaEncode h xs) = xs"
  by (induction xs arbitrary: h) simp_all

section \<open>The loop computes the reference\<close>

text \<open>The history that a buffer and a position in it stand for.\<close>

definition rotated :: "nat \<Rightarrow> byte list \<Rightarrow> byte list" where
  "rotated j buffer = drop j buffer @ take j buffer"

lemma rotated_step:
  "j < length b \<Longrightarrow> rotated (Suc j) (b[j := y]) = tl (rotated j b) @ [y] \<and> hd (rotated j b) = b ! j"
  by (simp add: rotated_def drop_Suc tl_drop hd_append hd_drop_conv_nth take_Suc_conv_app_nth)
    (simp add: drop_Suc [symmetric] tl_drop [symmetric])

lemma rotated_full: "rotated (length b) b = rotated 0 b"
  by (simp add: rotated_def)

lemma deltaInner_decode:
  assumes "length b = d" and "j \<le> d" and "deltaInner d j b xs = (j', b', ys, rest)"
  shows "length b' = d \<and> j' \<le> d \<and> (rest \<noteq> [] \<longrightarrow> j' = d)
    \<and> (\<exists>us. xs = us @ rest \<and> ys = deltaDecode (rotated j b) us \<and> rotated j' b' = deltaHistory (rotated j b) us
        \<and> (j < d \<and> xs \<noteq> [] \<longrightarrow> us \<noteq> []))"
  using assms
proof (induction d j b xs arbitrary: j' b' ys rest rule: deltaInner.induct)
  case (2 d j b x xs)
  show ?case
  proof (cases "j < d")
    case True
    define y where "y = b ! j + x"
    obtain ys1 where r: "deltaInner d (j + 1) (b[j := y]) xs = (j', b', ys1, rest)" and ys: "ys = y # ys1"
      using 2(4) True by (auto simp: y_def Let_def split: prod.splits)
    have "length (b[j := y]) = d" "j + 1 \<le> d" using 2(2) True by simp_all
    from 2(1) [OF True y_def this(1) this(2) r] obtain us where
      l: "length b' = d" "j' \<le> d" "rest \<noteq> [] \<longrightarrow> j' = d" and
      us: "xs = us @ rest" "ys1 = deltaDecode (rotated (j + 1) (b[j := y])) us"
        "rotated j' b' = deltaHistory (rotated (j + 1) (b[j := y])) us" by blast
    have "rotated (j + 1) (b[j := y]) = tl (rotated j b) @ [y]" "hd (rotated j b) = b ! j"
      using rotated_step [of j b y] True 2(2) by simp_all
    then show ?thesis
      using l us ys by (intro conjI exI [of _ "x # us"]) (auto simp: y_def Let_def)
  qed (use 2 in auto)
qed simp

lemma deltaOuter_decode:
  assumes "length b = d" and "0 < d" and "rotated j b = rotated 0 b"
  shows "\<exists>j' b'. deltaOuter d j b xs = Some (j', b', deltaDecode (rotated j b) xs) \<and> length b' = d \<and> (j \<le> d \<longrightarrow> j' \<le> d)
    \<and> rotated j' b' = deltaHistory (rotated j b) xs"
  using assms
proof (induction "length xs" arbitrary: j b xs rule: less_induct)
  case less
  show ?case
  proof (cases "xs = []")
    case True
    then show ?thesis using less.prems by (subst deltaOuter.simps) simp
  next
    case False
    obtain j1 b1 ys rest where r: "deltaInner d 0 b xs = (j1, b1, ys, rest)" by (cases "deltaInner d 0 b xs") auto
    from deltaInner_decode [OF less.prems(1) _ r] less.prems(2) False obtain us where
      l: "length b1 = d" "j1 \<le> d" "rest \<noteq> [] \<longrightarrow> j1 = d" and
      us: "xs = us @ rest" "ys = deltaDecode (rotated 0 b) us" "rotated j1 b1 = deltaHistory (rotated 0 b) us" "us \<noteq> []"
      by auto
    have step: "deltaOuter d j b xs = do { s \<leftarrow> deltaOuter d j1 b1 rest; Some (fst s, fst (snd s), ys @ snd (snd s)) }"
      using False r by (subst deltaOuter.simps) simp
    show ?thesis
    proof (cases "rest = []")
      case True
      then have "deltaOuter d j1 b1 rest = Some (j1, b1, [])" by (subst deltaOuter.simps) simp
      with step us l less.prems(3) True show ?thesis by simp
    next
      case more: False
      then have "rotated j1 b1 = rotated 0 b1" using l rotated_full [of b1] by simp
      with less.hyps [of rest b1 j1] us(1,4) l less.prems(2)
      obtain j2 b2 where "deltaOuter d j1 b1 rest = Some (j2, b2, deltaDecode (rotated j1 b1) rest)"
        "length b2 = d" "j2 \<le> d" "rotated j2 b2 = deltaHistory (rotated j1 b1) rest" by auto
      with step us less.prems(3) show ?thesis
        by (simp add: deltaDecode_append deltaHistory_append)
    qed
  qed
qed

text \<open>What the state of a reader stands for.\<close>

definition deltaOk :: "deltaReader \<Rightarrow> bool" where
  "deltaOk r \<longleftrightarrow> 0 < dl_delta r \<and> dl_delta r \<le> length (dl_state r)"

definition history :: "deltaReader \<Rightarrow> byte list" where
  "history r = take (dl_delta r) (dl_state r)"

lemma deltaRead_decode:
  assumes ok: "deltaOk r" and src: "dl_rc r = Some src"
  shows "\<exists>r'. deltaRead r n = Some (deltaDecode (history r) (take n src), None, r')
    \<and> deltaOk r' \<and> dl_rc r' = Some (drop n src) \<and> dl_delta r' = dl_delta r
    \<and> history r' = deltaHistory (history r) (take n src)"
proof -
  let ?d = "dl_delta r"
  have len: "length (history r) = ?d" and pos: "0 < ?d" using ok by (simp_all add: deltaOk_def history_def)
  obtain j b where o: "deltaOuter ?d 0 (history r) (take n src) = Some (j, b, deltaDecode (rotated 0 (history r)) (take n src))"
    and b: "length b = ?d" "j \<le> ?d" "rotated j b = deltaHistory (rotated 0 (history r)) (take n src)"
    using deltaOuter_decode [OF len pos, of 0 "take n src"] by auto
  define j' where "j' = (if j = ?d then 0 else j)"
  have rot: "rotated j' b = rotated j b" using b(1) rotated_full [of b] by (simp add: j'_def)
  define state where "state = take ?d (rotated j' b) @ drop ?d (dl_state r)"
  have "length (rotated j' b) = ?d" using b(1) by (simp add: rotated_def)
  then have "take ?d state = rotated j b" "?d \<le> length state" using rot by (simp_all add: state_def)
  moreover have "deltaRead r n = Some (deltaDecode (history r) (take n src), None,
      r\<lparr>dl_rc := Some (drop n src), dl_state := state\<rparr>)"
    using o src by (simp add: deltaRead_def history_def j'_def state_def rotated_def Let_def)
  ultimately show ?thesis
    using pos b(3) by (simp add: deltaOk_def history_def rotated_def)
qed

text \<open>Reading with a list of sizes of the underlying reads.\<close>

fun deltaReads :: "deltaReader \<Rightarrow> nat list \<Rightarrow> (byte list \<times> deltaReader) option" where
  "deltaReads r [] = Some ([], r)"
| "deltaReads r (n # ns) =
     do { (out, e, r') \<leftarrow> deltaRead r n; (outs, r'') \<leftarrow> deltaReads r' ns; Some (out @ outs, r'') }"

lemma deltaReads_decode:
  "deltaOk r \<Longrightarrow> dl_rc r = Some src \<Longrightarrow>
   \<exists>r'. deltaReads r ns = Some (deltaDecode (history r) (take (sum_list ns) src), r')"
proof (induction ns arbitrary: r src)
  case (Cons n ns)
  obtain r1 where r1: "deltaRead r n = Some (deltaDecode (history r) (take n src), None, r1)" "deltaOk r1"
      "dl_rc r1 = Some (drop n src)" "history r1 = deltaHistory (history r) (take n src)"
    using deltaRead_decode [OF Cons.prems] by blast
  with Cons.IH [OF r1(2,3)] show ?case
    by (auto simp: take_add deltaDecode_append)
qed simp

text \<open>With a distance of zero the loop makes no progress.\<close>

lemma deltaOuter_zero: "xs \<noteq> [] \<Longrightarrow> deltaOuter 0 j b xs = None"
proof -
  have "d = 0 \<longrightarrow> xs = []" if "deltaOuter d j b xs = Some y" for d j b xs y
    using _ that
  proof (rule deltaOuter.raw_induct [of "\<lambda>d j b xs y. d = 0 \<longrightarrow> xs = []"])
    fix f :: "nat \<Rightarrow> nat \<Rightarrow> byte list \<Rightarrow> byte list \<Rightarrow> (nat \<times> byte list \<times> byte list) option"
    fix d j b xs y
    assume IH: "\<And>d j b xs y. f d j b xs = Some y \<Longrightarrow> d = 0 \<longrightarrow> xs = []"
      and "(if xs = [] then Some (j, b, [])
        else let r = deltaInner d 0 b xs
          in do { s \<leftarrow> f d (fst r) (fst (snd r)) (snd (snd (snd r)));
                  Some (fst s, fst (snd s), fst (snd (snd r)) @ snd (snd s)) }) = Some y"
    then show "d = 0 \<longrightarrow> xs = []"
      by (cases "d = 0"; cases xs) (auto simp: bind_eq_Some_conv dest!: IH)
  qed
  then show "xs \<noteq> [] \<Longrightarrow> deltaOuter 0 j b xs = None" by (metis not_None_eq)
qed

section \<open>Properties\<close>

text \<open>
C26: The delta reader computes the running sums: for every distance from 1 to 255 and whatever
sizes the underlying reads return, its loop ends, and the bytes delivered are those of the
reference decoding of the stream with a history of zeros; in particular they are the original
bytes of a stream that was delta-encoded.
\<close>

theorem delta_reader_decodes:
  assumes "deltaNewReader [b] [src] = Inr r" and "b \<noteq> 255"
  shows "\<exists>r'. deltaReads r ns = Some (deltaDecode (replicate (unat b + 1) 0) (take (sum_list ns) src), r')
    \<and> (src = deltaEncode (replicate (unat b + 1) 0) orig \<and> length src \<le> sum_list ns
       \<longrightarrow> deltaReads r ns = Some (orig, r'))"
proof -
  have b: "unat (b + 1) = unat b + 1" "unat b < 256"
    using assms(2) unsigned_less [of b, where ?'a = nat] by (auto simp: unat_plus_if' word_unat_eq_iff [of b])
  have r: "r = \<lparr>dl_rc = Some src, dl_state = replicate stateSize 0, dl_delta = unat b + 1\<rparr>"
    using assms(1) b by (simp add: deltaNewReader_def)
  then have "deltaOk r" "dl_rc r = Some src" "history r = replicate (unat b + 1) 0"
    using b by (simp_all add: deltaOk_def history_def stateSize_def min_def)
  from deltaReads_decode [OF this(1,2), of ns] this(3)
  show ?thesis by (auto simp: deltaDecode_encode)
qed

theorem delta_reader_decodes_witness:
  "\<exists>r r'. deltaNewReader [1] [[1, 2, 3, 4]] = Inr r \<and> deltaReads r [3, 1] = Some ([1, 2, 4, 6], r')"
proof -
  obtain r where r: "deltaNewReader [1] [[1, 2, 3, 4]] = Inr r"
    by (simp add: deltaNewReader_def)
  have h: "replicate (unat (1 :: byte) + 1) (0 :: byte) = [0, 0]" "(1 :: byte) \<noteq> 255"
    by (simp add: numeral_2_eq_2, simp)
  from delta_reader_decodes [OF r h(2), of "[3, 1]"] obtain r' where
    "deltaReads r [3, 1] = Some (deltaDecode [0, 0] (take (sum_list [3, 1]) [1, 2, 3, 4]), r')"
    unfolding h by blast
  with r show ?thesis by (simp del: deltaReads.simps)
qed

text \<open>
C27: The distance is computed in a byte: for the property byte 255, which means a distance of
256, the reader gets distance zero, and its first read of any data never returns.
\<close>

theorem delta_256_never_returns:
  assumes "deltaNewReader [255] [src] = Inr r" and "0 < n" and "src \<noteq> []"
  shows "deltaRead r n = None"
proof -
  have "r = \<lparr>dl_rc = Some src, dl_state = replicate stateSize 0, dl_delta = 0\<rparr>"
    using assms(1) by (simp add: deltaNewReader_def)
  moreover have "take n src \<noteq> []" using assms(2,3) by simp
  ultimately show ?thesis using deltaOuter_zero by (simp add: deltaRead_def)
qed

theorem delta_256_never_returns_witness:
  "\<exists>r. deltaNewReader [255] [[7]] = Inr r \<and> deltaRead r 1 = None"
proof -
  obtain r where r: "deltaNewReader [255] [[7]] = Inr r" by (simp add: deltaNewReader_def)
  from delta_256_never_returns [OF r, of 1] r show ?thesis by simp
qed

end
