(* ===== verification/Bcj2.thy ===== *)
theory Bcj2
  imports Bra Io_Reader
begin

unbundle bit_operations_syntax

text \<open>
  The BCJ2 filter for x86, \<open>internal/bcj2\<close>: a main stream, two streams of absolute call and
  jump targets, and a range-coded stream that says which branches of the main stream had their
  target moved out. \<open>uint\<close> is 64 bits wide. The output buffer is a list; when it counts as full
  (the code compares the length of a \<open>bytes.Buffer\<close> with its capacity) is an argument.
\<close>

section \<open>The decoder\<close>

datatype bcj2_error = Bcj2AlreadyClosed | NeedFourReaders | Bcj2EOF | Bcj2UnexpectedEOF

record bcj2 =
  b2_main :: "byte list"
  b2_call :: "byte list"
  b2_jump :: "byte list"
  b2_rd :: "byte list"
  b2_nrange :: u64
  b2_code :: u64
  b2_sd :: "u64 list"
  b2_previous :: byte
  b2_written :: u32

definition isJcc :: "byte \<Rightarrow> byte \<Rightarrow> bool" where
  "isJcc b0 b1 \<longleftrightarrow> b0 = 0x0f \<and> b1 AND 0xf0 = 0x80"

definition isJ :: "byte \<Rightarrow> byte \<Rightarrow> bool" where
  "isJ b0 b1 \<longleftrightarrow> b1 AND 0xfe = 0xe8 \<or> isJcc b0 b1"

definition bcj2Index :: "byte \<Rightarrow> byte \<Rightarrow> nat" where
  "bcj2Index b0 b1 = (if b1 = 0xe8 then unat b0 else if b1 = 0xe9 then 256 else 257)"

text \<open>\<open>NewReader\<close>: five bytes of the range coder are read at once.\<close>

definition bcj2NewReader :: "byte list list \<Rightarrow> bcj2_error + bcj2" where
  "bcj2NewReader readers =
     (case readers of
        [main, call, jump, rd] \<Rightarrow>
          if rd = [] then Inl Bcj2EOF
          else if length rd < 5 then Inl Bcj2UnexpectedEOF
          else Inr \<lparr>b2_main = main, b2_call = call, b2_jump = jump, b2_rd = drop 5 rd,
                    b2_nrange = 0xffffffff,
                    b2_code = fold (\<lambda>x code. push_bit 8 code OR ucast x) (take 5 rd) 0,
                    b2_sd = replicate 258 1024, b2_previous = 0, b2_written = 0\<rparr>
      | _ \<Rightarrow> Inl NeedFourReaders)"

text \<open>Past the end the range coder reads zeros.\<close>

definition bcj2Update :: "bcj2 \<Rightarrow> bcj2" where
  "bcj2Update d =
     (if b2_nrange d < 0x1000000 then
        let b = (case b2_rd d of [] \<Rightarrow> 0 | b # bs \<Rightarrow> b)
        in d\<lparr>b2_rd := tl (b2_rd d), b2_code := push_bit 8 (b2_code d) OR ucast b,
             b2_nrange := push_bit 8 (b2_nrange d)\<rparr>
      else d)"

definition bcj2Decode :: "nat \<Rightarrow> bcj2 \<Rightarrow> bool \<times> bcj2" where
  "bcj2Decode i d =
     (let p = b2_sd d ! i;
          newBound = drop_bit 11 (b2_nrange d) * p
      in if b2_code d < newBound
         then (False, bcj2Update (d\<lparr>b2_nrange := newBound, b2_sd := (b2_sd d)[i := p + drop_bit 5 (2048 - p)]\<rparr>))
         else (True, bcj2Update (d\<lparr>b2_nrange := b2_nrange d - newBound, b2_code := b2_code d - newBound,
                                   b2_sd := (b2_sd d)[i := p - drop_bit 5 p]\<rparr>)))"

text \<open>
  One pass of the loop of \<open>read\<close> with what follows it when the byte ends a branch: why it
  stopped, what it appended to the buffer, and the decoder. When the stream of targets is at its
  end the read stops, and the byte before it is not remembered.
\<close>

datatype bcj2_stop = PlainByte | BranchDone | AtEOF | TargetCut

definition bcj2Byte :: "bcj2 \<Rightarrow> bcj2_stop \<times> byte list \<times> bcj2" where
  "bcj2Byte d =
     (case b2_main d of
        [] \<Rightarrow> (AtEOF, [], d)
      | b # bs \<Rightarrow>
          let d = d\<lparr>b2_main := bs, b2_written := b2_written d + 1\<rparr> in
          if \<not> isJ (b2_previous d) b then (PlainByte, [b], d\<lparr>b2_previous := b\<rparr>)
          else
            let (bit, d) = bcj2Decode (bcj2Index (b2_previous d) b) d in
            if bit then
              let r = (if b = 0xe8 then b2_call d else b2_jump d);
                  d' = (if b = 0xe8 then d\<lparr>b2_call := drop 4 r\<rparr> else d\<lparr>b2_jump := drop 4 r\<rparr>)
              in
              if r = [] then (AtEOF, [b], d')
              else if length r < 4 then (TargetCut, [b], d')
              else
                let dest = be32 (take 4 r) - (b2_written d' + 4)
                in (BranchDone, b # putUint32 dest,
                    d'\<lparr>b2_previous := ucast (drop_bit 24 dest), b2_written := b2_written d' + 4\<rparr>)
            else (BranchDone, [b], d\<lparr>b2_previous := b\<rparr>))"

section \<open>The reader\<close>

record bcj2Reader =
  b2_dec :: bcj2
  b2_buf :: "byte list"
  b2_closed :: bool

lemma bcj2Update_main [simp]: "b2_main (bcj2Update d) = b2_main d"
  by (simp add: bcj2Update_def Let_def)

lemma bcj2Decode_main [simp]: "b2_main (snd (bcj2Decode i d)) = b2_main d"
  by (simp add: bcj2Decode_def Let_def)

lemma bcj2Byte_main: "bcj2Byte d = (s, out, d') \<Longrightarrow> b2_main d' = tl (b2_main d)"
  by (cases "b2_main d") (auto simp: bcj2Byte_def Let_def split_beta split: if_splits)

lemma bcj2Byte_out: "bcj2Byte d = (s, out, d') \<Longrightarrow> out \<noteq> [] \<longleftrightarrow> b2_main d \<noteq> []"
  by (cases "b2_main d") (auto simp: bcj2Byte_def Let_def split: if_splits prod.splits)

lemma bcj2Byte_stop: "bcj2Byte d = (s, out, d') \<Longrightarrow> b2_main d = [] \<Longrightarrow> s = AtEOF \<and> d' = d"
  by (simp add: bcj2Byte_def)

text \<open>\<open>read\<close>: until a branch, the end, or a full buffer.\<close>

function bcj2Fill :: "(bcj2Reader \<Rightarrow> bool) \<Rightarrow> bcj2Reader \<Rightarrow> bcj2_error option \<times> bcj2Reader" where
  "bcj2Fill full r =
     (case bcj2Byte (b2_dec r) of
        (s, out, d) \<Rightarrow>
          let r' = r\<lparr>b2_dec := d, b2_buf := b2_buf r @ out\<rparr> in
          case s of
            PlainByte \<Rightarrow> if full r' then (None, r') else bcj2Fill full r'
          | BranchDone \<Rightarrow> (None, r')
          | AtEOF \<Rightarrow> (Some Bcj2EOF, r')
          | TargetCut \<Rightarrow> (Some Bcj2UnexpectedEOF, r'))"
  by pat_completeness auto
termination
proof (relation "measure (\<lambda>(full, r). length (b2_main (b2_dec r)))", goal_cases)
  case (2 full r s y out d r')
  then have b: "bcj2Byte (b2_dec r) = (PlainByte, out, d)" by simp
  then have "b2_main (b2_dec r) \<noteq> []" using bcj2Byte_stop [OF b] by auto
  with bcj2Byte_main [OF b] 2 show ?case by simp
qed simp

declare bcj2Fill.simps [simp del]

definition bcj2Read ::
    "(bcj2Reader \<Rightarrow> bool) \<Rightarrow> bcj2Reader \<Rightarrow> nat \<Rightarrow> byte list \<times> bcj2_error option \<times> bcj2Reader" where
  "bcj2Read full r m =
     (if b2_closed r then ([], Some Bcj2AlreadyClosed, r)
      else
        case bcj2Fill full r of
          (Some Bcj2UnexpectedEOF, r') \<Rightarrow> ([], Some Bcj2UnexpectedEOF, r')
        | (e, r') \<Rightarrow>
            (take m (b2_buf r'), if b2_buf r' = [] \<and> 0 < m then Some Bcj2EOF else None,
             r'\<lparr>b2_buf := drop m (b2_buf r')\<rparr>))"

definition bcj2Close :: "bcj2Reader \<Rightarrow> bcj2_error option \<times> bcj2Reader" where
  "bcj2Close r = (if b2_closed r then (Some Bcj2AlreadyClosed, r) else (None, r\<lparr>b2_closed := True\<rparr>))"

section \<open>The whole stream\<close>

text \<open>The reference: byte after byte, with no buffer; and whether a target is cut off.\<close>

function bcj2All :: "bcj2 \<Rightarrow> byte list" where
  "bcj2All d =
     (if b2_main d = [] then []
      else case bcj2Byte d of (s, out, d') \<Rightarrow> if s = TargetCut then out else out @ bcj2All d')"
  by pat_completeness auto
termination
  by (relation "measure (\<lambda>d. length (b2_main d))") (auto simp: bcj2Byte_main [OF sym])

function bcj2Whole :: "bcj2 \<Rightarrow> bool" where
  "bcj2Whole d =
     (if b2_main d = [] then True
      else case bcj2Byte d of (s, out, d') \<Rightarrow> if s = TargetCut then False else bcj2Whole d')"
  by pat_completeness auto
termination
  by (relation "measure (\<lambda>d. length (b2_main d))") (auto simp: bcj2Byte_main [OF sym])

declare bcj2All.simps [simp del] bcj2Whole.simps [simp del]

definition bcj2Rest :: "bcj2Reader \<Rightarrow> byte list" where
  "bcj2Rest r = b2_buf r @ bcj2All (b2_dec r)"

definition bcj2Ok :: "bcj2Reader \<Rightarrow> bool" where
  "bcj2Ok r \<longleftrightarrow> \<not> b2_closed r \<and> bcj2Whole (b2_dec r)"

lemma bcj2Byte_all:
  assumes "bcj2Byte d = (s, out, d')" and "bcj2Whole d"
  shows "s \<noteq> TargetCut \<and> bcj2Whole d' \<and> bcj2All d = out @ bcj2All d'"
proof (cases "b2_main d = []")
  case True
  then show ?thesis using assms by (simp add: bcj2Byte_def)
next
  case False
  with assms show ?thesis
    by (auto simp: bcj2Whole.simps [of d] bcj2All.simps [of d] split: if_splits)
qed

lemma bcj2Fill_rest:
  assumes "bcj2Ok r"
  shows "\<exists>e r'. bcj2Fill full r = (e, r') \<and> e \<noteq> Some Bcj2UnexpectedEOF \<and> bcj2Ok r'
    \<and> bcj2Rest r' = bcj2Rest r \<and> (bcj2Rest r \<noteq> [] \<longrightarrow> b2_buf r' \<noteq> [])"
  using assms
proof (induction full r rule: bcj2Fill.induct)
  case (1 full r)
  obtain s out d where b: "bcj2Byte (b2_dec r) = (s, out, d)" by (cases "bcj2Byte (b2_dec r)") auto
  define r' where "r' = r\<lparr>b2_dec := d, b2_buf := b2_buf r @ out\<rparr>"
  note all = bcj2Byte_all [OF b]
  have ok': "bcj2Ok r'" and rest': "bcj2Rest r' = bcj2Rest r" and s: "s \<noteq> TargetCut"
    using all 1(2) by (simp_all add: bcj2Ok_def bcj2Rest_def r'_def)
  have ne: "bcj2Rest r \<noteq> [] \<longrightarrow> b2_buf r' \<noteq> []"
  proof (cases "b2_main (b2_dec r) = []")
    case True
    then show ?thesis by (simp add: bcj2Rest_def bcj2All.simps r'_def)
  next
    case False
    then show ?thesis using bcj2Byte_out [OF b] by (simp add: r'_def)
  qed
  show ?case
  proof (cases "s = PlainByte \<and> \<not> full r'")
    case True
    with 1(1) [OF b [symmetric] refl r'_def] ok' obtain e r'' where
      "bcj2Fill full r' = (e, r'')" "e \<noteq> Some Bcj2UnexpectedEOF" "bcj2Ok r''" "bcj2Rest r'' = bcj2Rest r'"
      "bcj2Rest r' \<noteq> [] \<longrightarrow> b2_buf r'' \<noteq> []" by blast
    with True b rest' show ?thesis by (simp add: bcj2Fill.simps [of full r] r'_def Let_def)
  next
    case False
    with b ok' rest' ne s show ?thesis
      by (cases s) (simp_all add: bcj2Fill.simps [of full r] r'_def [symmetric])
  qed
qed

interpretation bcj2: io_reader "bcj2Read full" bcj2Rest bcj2Ok Bcj2EOF for full
proof
  fix r :: bcj2Reader and m :: nat
  assume ok: "bcj2Ok r" and m: "0 < m"
  obtain e r1 where f: "bcj2Fill full r = (e, r1)" "e \<noteq> Some Bcj2UnexpectedEOF" "bcj2Ok r1"
      "bcj2Rest r1 = bcj2Rest r" "bcj2Rest r \<noteq> [] \<longrightarrow> b2_buf r1 \<noteq> []"
    using bcj2Fill_rest [OF ok] by blast
  define q where "q = min m (length (b2_buf r1))"
  define r' where "r' = r1\<lparr>b2_buf := drop m (b2_buf r1)\<rparr>"
  have read: "bcj2Read full r m = (take m (b2_buf r1), if b2_buf r1 = [] \<and> 0 < m then Some Bcj2EOF else None, r')"
    using ok f(1,2) by (cases e; cases "the e") (simp_all add: bcj2Read_def bcj2Ok_def r'_def)
  have "take m (b2_buf r1) = take q (bcj2Rest r)" "bcj2Rest r' = drop q (bcj2Rest r)"
    unfolding f(4) [symmetric] by (auto simp: q_def bcj2Rest_def r'_def min_def)
  moreover have "b2_buf r1 = [] \<longleftrightarrow> bcj2Rest r = []"
    using f(4,5) by (auto simp: bcj2Rest_def)
  moreover have "bcj2Ok r'" using f(3) by (simp add: bcj2Ok_def r'_def)
  moreover have "bcj2Rest r \<noteq> [] \<longrightarrow> 0 < q" "q \<le> m" using f(5) m by (auto simp: q_def)
  ultimately show "\<exists>q r'. bcj2Read full r m = (take q (bcj2Rest r), if bcj2Rest r = [] then Some Bcj2EOF else None, r')
      \<and> q \<le> m \<and> (bcj2Rest r \<noteq> [] \<longrightarrow> 0 < q) \<and> bcj2Rest r' = drop q (bcj2Rest r) \<and> bcj2Ok r'"
    using read m by (intro exI [of _ q] exI [of _ r']) simp
qed

section \<open>The range coder\<close>

text \<open>
  The width of the interval and the probabilities stay within their bounds for every input; a
  code below the width stays below it. All numbers fit into 32 bits, so nothing wraps around.
\<close>

definition goodProb :: "u64 \<Rightarrow> bool" where
  "goodProb p \<longleftrightarrow> 31 \<le> unat p \<and> unat p \<le> 2017"

definition rangeOk :: "bcj2 \<Rightarrow> bool" where
  "rangeOk d \<longleftrightarrow> 2 ^ 24 \<le> unat (b2_nrange d) \<and> unat (b2_nrange d) < 2 ^ 32
     \<and> length (b2_sd d) = 258 \<and> list_all goodProb (b2_sd d)"

lemma unat_drop: "unat (drop_bit n (w :: u64)) = unat w div 2 ^ n"
  by (simp only: unat_drop_bit_eq) (simp add: drop_bit_eq_div)

lemma unat_shift_in:
  assumes "unat (c :: u64) < 2 ^ 32"
  shows "unat (push_bit 8 c OR ucast (b :: byte)) = unat c * 256 + unat b"
proof -
  have "push_bit 8 c OR ucast b = push_bit 8 c + (ucast b :: u64)"
    by (rule disjunctive_add_eq_or [symmetric]) (rule bit_word_eqI, auto simp: bit_simps dest: bit_imp_le_length)
  moreover have "unat (push_bit 8 c) = unat c * 256"
    using assms by (simp add: unat_word_ariths push_bit_eq_mult)
  moreover have "unat (ucast b :: u64) = unat b"
    by (simp add: unsigned_ucast_eq take_bit_nat_eq_self unsigned_less [where ?'a = nat, THEN order_less_le_trans])
  moreover have "unat b < 256" using unsigned_less [of b, where ?'a = nat] by simp
  ultimately show ?thesis using assms by (simp add: unat_word_ariths)
qed

lemma goodProb_up:
  assumes "goodProb p"
  shows "goodProb (p + drop_bit 5 (2048 - p))"
proof -
  have p: "31 \<le> unat p" "unat p \<le> 2017" using assms by (simp_all add: goodProb_def)
  then have "unat (2048 - p) = 2048 - unat p"
    by (subst unat_sub) (simp_all add: word_le_nat_alt)
  then have "unat (drop_bit 5 (2048 - p)) = (2048 - unat p) div 32" by (simp add: unat_drop)
  with p have "unat (p + drop_bit 5 (2048 - p)) = unat p + (2048 - unat p) div 32"
    by (simp add: unat_word_ariths)
  with p show ?thesis unfolding goodProb_def by linarith
qed

lemma goodProb_down:
  assumes "goodProb p"
  shows "goodProb (p - drop_bit 5 p)"
proof -
  have p: "31 \<le> unat p" "unat p \<le> 2017" using assms by (simp_all add: goodProb_def)
  have "unat (p - drop_bit 5 p) = unat p - unat p div 32"
    by (subst unat_sub) (simp_all add: word_le_nat_alt unat_drop)
  with p show ?thesis unfolding goodProb_def by linarith
qed

lemma list_all_update: "list_all P xs \<Longrightarrow> P x \<Longrightarrow> list_all P (xs[i := x])"
  by (auto simp: list_all_iff dest: set_update_subset_insert [THEN subsetD])

lemma bcj2Update_range:
  assumes "2 ^ 16 \<le> unat (b2_nrange d)" and "unat (b2_nrange d) < 2 ^ 32"
    and "length (b2_sd d) = 258" and "list_all goodProb (b2_sd d)"
  shows "rangeOk (bcj2Update d)
    \<and> (b2_code d < b2_nrange d \<longrightarrow> b2_code (bcj2Update d) < b2_nrange (bcj2Update d))"
proof (cases "b2_nrange d < 0x1000000")
  case True
  then have n: "unat (b2_nrange d) < 2 ^ 24" by (simp add: word_less_nat_alt)
  define b where "b = (case b2_rd d of [] \<Rightarrow> 0 | b # bs \<Rightarrow> b)"
  have u: "unat (push_bit 8 (b2_nrange d)) = unat (b2_nrange d) * 256"
    using n by (simp add: unat_word_ariths push_bit_eq_mult)
  have "push_bit 8 (b2_code d) OR ucast b < push_bit 8 (b2_nrange d)" if "b2_code d < b2_nrange d"
  proof -
    have c: "unat (b2_code d) < unat (b2_nrange d)" using that by (simp add: word_less_nat_alt)
    then have "unat (push_bit 8 (b2_code d) OR ucast b) = unat (b2_code d) * 256 + unat b"
      using n by (intro unat_shift_in) simp
    moreover have "unat b < 256" using unsigned_less [of b, where ?'a = nat] by simp
    ultimately show ?thesis using c u by (simp add: word_less_nat_alt)
  qed
  with True n u assms show ?thesis
    by (simp add: bcj2Update_def rangeOk_def Let_def b_def [symmetric])
next
  case False
  with assms show ?thesis by (simp add: bcj2Update_def rangeOk_def word_less_nat_alt)
qed

lemma bcj2Decode_range:
  assumes ok: "rangeOk d" and i: "i < 258"
  shows "rangeOk (snd (bcj2Decode i d))
    \<and> (b2_code d < b2_nrange d \<longrightarrow> b2_code (snd (bcj2Decode i d)) < b2_nrange (snd (bcj2Decode i d)))"
proof -
  define n where "n = unat (b2_nrange d)"
  define p where "p = unat (b2_sd d ! i)"
  define nb where "nb = drop_bit 11 (b2_nrange d) * b2_sd d ! i"
  have n: "2 ^ 24 \<le> n" "n < 2 ^ 32" using ok by (simp_all add: rangeOk_def n_def)
  have good: "goodProb (b2_sd d ! i)" using ok i by (simp add: rangeOk_def list_all_length)
  then have p: "31 \<le> p" "p \<le> 2017" by (simp_all add: goodProb_def p_def)
  have q: "2 ^ 13 \<le> n div 2048" "n div 2048 < 2 ^ 21"
    using div_le_mono [OF n(1), of 2048] n(2) by (simp_all add: less_mult_imp_div_less)
  have small: "n div 2048 * p \<le> n div 2048 * 2017" using p by (intro mult_le_mono) simp_all
  have big: "2 ^ 13 * 31 \<le> n div 2048 * p" using p q by (intro mult_le_mono)
  have "n div 2048 * 2017 < 2 ^ 64" using q(2) by simp
  with small have "n div 2048 * p < 2 ^ 64" by (rule order_le_less_trans)
  then have u: "unat nb = n div 2048 * p"
    by (simp add: nb_def unat_word_ariths unat_drop n_def [symmetric] p_def [symmetric])
  have le: "unat nb \<le> n" and d: "2 ^ 16 \<le> n - unat nb"
  proof -
    define m where "m = n div 2048"
    have "m * 2048 \<le> n" by (simp add: m_def)
    moreover have "m * p \<le> m * 2017" using small by (simp only: m_def)
    moreover have "8192 \<le> m" using q by (simp add: m_def)
    ultimately have "m * p + 65536 \<le> n" by linarith
    then show "unat nb \<le> n" "2 ^ 16 \<le> n - unat nb" by (simp_all add: u m_def)
  qed
  have un: "unat (b2_nrange d - nb) = n - unat nb"
    using le by (subst unat_sub) (simp_all add: word_le_nat_alt n_def)
  show ?thesis
  proof (cases "b2_code d < nb")
    case True
    define d' where "d' = d\<lparr>b2_nrange := nb, b2_sd := (b2_sd d)[i := b2_sd d ! i + drop_bit 5 (2048 - b2_sd d ! i)]\<rparr>"
    have "snd (bcj2Decode i d) = bcj2Update d'"
      using True by (simp add: bcj2Decode_def Let_def nb_def d'_def)
    moreover have "2 ^ 16 \<le> unat (b2_nrange d')" "unat (b2_nrange d') < 2 ^ 32"
      using u big le n by (simp_all add: d'_def)
    moreover have "length (b2_sd d') = 258" "list_all goodProb (b2_sd d')"
      using ok goodProb_up [OF good] by (simp_all add: d'_def rangeOk_def list_all_update)
    moreover have "b2_code d' < b2_nrange d'" using True by (simp add: d'_def)
    ultimately show ?thesis using bcj2Update_range [of d'] by simp
  next
    case False
    define d' where "d' = d\<lparr>b2_nrange := b2_nrange d - nb, b2_code := b2_code d - nb,
        b2_sd := (b2_sd d)[i := b2_sd d ! i - drop_bit 5 (b2_sd d ! i)]\<rparr>"
    have "snd (bcj2Decode i d) = bcj2Update d'"
      using False by (simp add: bcj2Decode_def Let_def nb_def d'_def)
    moreover have "2 ^ 16 \<le> unat (b2_nrange d')" "unat (b2_nrange d') < 2 ^ 32"
      using un d n by (simp_all add: d'_def)
    moreover have "length (b2_sd d') = 258" "list_all goodProb (b2_sd d')"
      using ok goodProb_down [OF good] by (simp_all add: d'_def rangeOk_def list_all_update)
    moreover have "b2_code d < b2_nrange d \<longrightarrow> b2_code d' < b2_nrange d'"
    proof
      assume c: "b2_code d < b2_nrange d"
      have "unat (b2_code d - nb) = unat (b2_code d) - unat nb"
        using False by (subst unat_sub) (simp_all add: word_le_nat_alt word_less_nat_alt)
      with un c False le show "b2_code d' < b2_nrange d'"
        by (simp add: d'_def word_less_nat_alt n_def)
    qed
    ultimately show ?thesis using bcj2Update_range [of d'] by simp
  qed
qed

lemma bcj2Index_less: "bcj2Index b0 b1 < 258"
  using unsigned_less [of b0, where ?'a = nat] by (simp add: bcj2Index_def)

lemma bcj2Byte_range:
  assumes "rangeOk d" and "bcj2Byte d = (s, out, d')"
  shows "rangeOk d' \<and> (b2_code d < b2_nrange d \<longrightarrow> b2_code d' < b2_nrange d')"
proof (cases "b2_main d")
  case (Cons b bs)
  let ?d = "d\<lparr>b2_main := bs, b2_written := b2_written d + 1\<rparr>"
  have "rangeOk ?d" using assms(1) by (simp add: rangeOk_def)
  from bcj2Decode_range [OF this bcj2Index_less [of "b2_previous d" b]] assms Cons
  show ?thesis
    by (auto simp: bcj2Byte_def Let_def split_beta rangeOk_def split: if_splits)
qed (use assms in \<open>simp add: bcj2Byte_def\<close>)

lemma bcj2Fill_range:
  assumes "rangeOk (b2_dec r)"
  shows "rangeOk (b2_dec (snd (bcj2Fill full r)))
    \<and> (b2_code (b2_dec r) < b2_nrange (b2_dec r)
       \<longrightarrow> b2_code (b2_dec (snd (bcj2Fill full r))) < b2_nrange (b2_dec (snd (bcj2Fill full r))))"
  using assms
proof (induction full r rule: bcj2Fill.induct)
  case (1 full r)
  obtain s out d where b: "bcj2Byte (b2_dec r) = (s, out, d)" by (cases "bcj2Byte (b2_dec r)") auto
  define r' where "r' = r\<lparr>b2_dec := d, b2_buf := b2_buf r @ out\<rparr>"
  note step = bcj2Byte_range [OF 1(2) b]
  show ?case
  proof (cases "s = PlainByte \<and> \<not> full r'")
    case True
    with 1(1) [OF b [symmetric] refl r'_def] step
    have "rangeOk (b2_dec (snd (bcj2Fill full r')))
      \<and> (b2_code d < b2_nrange d \<longrightarrow> b2_code (b2_dec (snd (bcj2Fill full r'))) < b2_nrange (b2_dec (snd (bcj2Fill full r'))))"
      by (simp add: r'_def)
    with True b step show ?thesis by (simp add: bcj2Fill.simps [of full r] r'_def [symmetric])
  next
    case False
    with b step show ?thesis
      by (cases s) (simp_all add: bcj2Fill.simps [of full r] r'_def)
  qed
qed

lemma bcj2Read_dec:
  "b2_dec (snd (snd (bcj2Read full r m))) = (if b2_closed r then b2_dec r else b2_dec (snd (bcj2Fill full r)))"
  by (auto simp: bcj2Read_def split: prod.splits option.splits bcj2_error.splits)

lemma bcj2Reads_range:
  "rangeOk (b2_dec r) \<Longrightarrow> rangeOk (b2_dec (snd (reads (bcj2Read full) r ms)))
    \<and> (b2_code (b2_dec r) < b2_nrange (b2_dec r)
       \<longrightarrow> b2_code (b2_dec (snd (reads (bcj2Read full) r ms))) < b2_nrange (b2_dec (snd (reads (bcj2Read full) r ms))))"
proof (induction ms arbitrary: r)
  case (Cons m ms)
  have "rangeOk (b2_dec (snd (snd (bcj2Read full r m))))
    \<and> (b2_code (b2_dec r) < b2_nrange (b2_dec r)
      \<longrightarrow> b2_code (b2_dec (snd (snd (bcj2Read full r m)))) < b2_nrange (b2_dec (snd (snd (bcj2Read full r m)))))"
    using bcj2Fill_range [OF Cons.prems] Cons.prems by (simp add: bcj2Read_dec)
  with Cons.IH [of "snd (snd (bcj2Read full r m))"] show ?case
    by (simp add: split_beta Let_def)
qed simp

section \<open>Properties\<close>

definition freshBcj2 :: "bcj2 \<Rightarrow> bcj2Reader" where
  "freshBcj2 d = \<lparr>b2_dec = d, b2_buf = [], b2_closed = False\<rparr>"

text \<open>
C28: The BCJ2 reader delivers the decoding of its four streams byte by byte, whatever the sizes of
the reads and whenever its output buffer counts as full: look-ahead in the buffer, branches and
moved-out targets do not depend on how the output is read. (No target may be cut off in the
middle; that is an error of the stream.)
\<close>

theorem bcj2_reader_delivers:
  assumes "bcj2NewReader [main, call, jump, rd] = Inr d" and "bcj2Whole d"
    and "list_all (\<lambda>m. 0 < m) ms" and "length (bcj2All d) \<le> length ms"
  shows "fst (reads (bcj2Read full) (freshBcj2 d) ms) = bcj2All d"
  using bcj2.reads_all [of "freshBcj2 d" ms full] assms(2-4)
  by (simp add: freshBcj2_def bcj2Ok_def bcj2Rest_def)

theorem bcj2_reader_delivers_witness:
  "\<exists>d. bcj2NewReader [[7, 0xe8], [0, 0, 0, 10], [], [0, 255, 255, 255, 254]] = Inr d
    \<and> fst (reads (bcj2Read (\<lambda>r. length (b2_buf r) = 1)) (freshBcj2 d) [1, 2, 1, 1, 3, 1]) = [7, 0xe8, 4, 0, 0, 0]"
proof -
  define d where "d = (case bcj2NewReader [[7, 0xe8], [0, 0, 0, 10], [], [0, 255, 255, 255, 254]] of
    Inr d \<Rightarrow> d | Inl _ \<Rightarrow> undefined)"
  have new: "bcj2NewReader [[7, 0xe8], [0, 0, 0, 10], [], [0, 255, 255, 255, 254]] = Inr d"
    unfolding d_def by (simp add: bcj2NewReader_def)
  have "bcj2Whole d" "bcj2All d = [7, 0xe8, 4, 0, 0, 0]"
    unfolding d_def by code_simp+
  with bcj2_reader_delivers [OF new, of "[1, 2, 1, 1, 3, 1]" "\<lambda>r. length (b2_buf r) = 1"] new
  show ?thesis by (simp del: reads.simps)
qed

text \<open>
C29: The range coder stays within its bounds on every input, valid or not: after any sequence of
reads the width is between \<open>2 ^ 24\<close> and \<open>2 ^ 32\<close>, every probability is between 31 and 2017 of
2048, so that both bits always have a non-empty interval, and a code that starts below the
width stays below it.
\<close>

theorem bcj2_range_bounds:
  assumes "bcj2NewReader [main, call, jump, rd] = Inr d"
    and "r = snd (reads (bcj2Read full) (freshBcj2 d) ms)"
  shows "2 ^ 24 \<le> unat (b2_nrange (b2_dec r)) \<and> unat (b2_nrange (b2_dec r)) < 2 ^ 32
    \<and> list_all (\<lambda>p. 31 \<le> unat p \<and> unat p \<le> 2017) (b2_sd (b2_dec r))
    \<and> (b2_code d < b2_nrange d \<longrightarrow> b2_code (b2_dec r) < b2_nrange (b2_dec r))"
proof -
  have "rangeOk d"
    using assms(1) by (auto simp: bcj2NewReader_def rangeOk_def list_all_iff goodProb_def split: if_splits)
  then have "rangeOk (b2_dec (freshBcj2 d))" by (simp add: freshBcj2_def)
  from bcj2Reads_range [OF this, of full ms] show ?thesis
    unfolding assms(2) by (simp add: rangeOk_def freshBcj2_def list_all_iff goodProb_def)
qed

theorem bcj2_range_bounds_witness:
  "\<exists>d. bcj2NewReader [[0xe8, 1], [], [], [0, 0, 0, 0, 1]] = Inr d
    \<and> 2 ^ 24 \<le> unat (b2_nrange (b2_dec (snd (reads (bcj2Read (\<lambda>r. False)) (freshBcj2 d) [1, 1]))))"
proof -
  obtain d where new: "bcj2NewReader [[0xe8, 1], [], [], [0, 0, 0, 0, 1]] = Inr d"
    by (simp add: bcj2NewReader_def)
  from bcj2_range_bounds [OF new refl] new show ?thesis by blast
qed

end
