(* ===== verification/Spool.thy ===== *)
theory Spool
  imports Prelude
begin

text \<open>
  The spool of a folder, \<open>spool.go\<close>: it keeps up to 4 MiB in memory and moves to a temporary file
  when a write would pass that. Whether a temporary file can be created is an argument of the
  write that needs it; writes to it succeed. (When the buffer moves to the file the code ignores
  the error of that write, so a full disk loses data there; this is not modelled.) The pool
  that buffers are taken from, and emptied, is left out. The writer (theory \<open>Writer\<close>) uses a spool only
  through the contract \<open>sink\<close>: its content is the concatenation of what was written.
\<close>

section \<open>Operations\<close>

record spoolWriter =
  sp_buf :: "byte list option"
  sp_f :: "byte list option"
  sp_size :: int

datatype spool_error = SpoolTempFailed | SpoolPanic

definition spoolThreshold :: int where
  "spoolThreshold = 4 * 1024 * 1024"

definition newSpoolWriter :: spoolWriter where
  "newSpoolWriter = \<lparr>sp_buf = Some [], sp_f = None, sp_size = 0\<rparr>"

text \<open>A write to a spool that was closed finds neither buffer nor file.\<close>

definition spoolWrite :: "bool \<Rightarrow> spoolWriter \<Rightarrow> byte list \<Rightarrow> spool_error option \<times> spoolWriter" where
  "spoolWrite tempOk s p =
     (case sp_f s of
        Some f \<Rightarrow> (None, s\<lparr>sp_f := Some (f @ p), sp_size := sp_size s + int (length p)\<rparr>)
      | None \<Rightarrow>
          (case sp_buf s of
             None \<Rightarrow> (Some SpoolPanic, s)
           | Some b \<Rightarrow>
               if spoolThreshold < sp_size s + int (length p) then
                 if \<not> tempOk then (Some SpoolTempFailed, s)
                 else (None, s\<lparr>sp_f := Some (b @ p), sp_buf := None,
                              sp_size := sp_size s + int (length p)\<rparr>)
               else (None, s\<lparr>sp_buf := Some (b @ p), sp_size := sp_size s + int (length p)\<rparr>)))"

text \<open>\<open>Reader\<close> seeks the file to its start, so both cases deliver everything.\<close>

definition spoolReader :: "spoolWriter \<Rightarrow> byte list option" where
  "spoolReader s = (case sp_f s of Some f \<Rightarrow> Some f | None \<Rightarrow> sp_buf s)"

definition spoolClose :: "spoolWriter \<Rightarrow> spoolWriter" where
  "spoolClose s = s\<lparr>sp_f := None, sp_buf := None\<rparr>"

section \<open>The contract of a sink\<close>

text \<open>Writes in sequence, stopping at the first error.\<close>

fun puts :: "('s \<Rightarrow> 'b list \<Rightarrow> 'e option \<times> 's) \<Rightarrow> 's \<Rightarrow> 'b list list \<Rightarrow> 'e option \<times> 's" where
  "puts put s [] = (None, s)"
| "puts put s (p # ps) =
     (case put s p of (None, s') \<Rightarrow> puts put s' ps | (Some e, s') \<Rightarrow> (Some e, s'))"

locale sink =
  fixes put :: "'s \<Rightarrow> 'b list \<Rightarrow> 'e option \<times> 's"
    and held :: "'s \<Rightarrow> 'b list"
    and alive :: "'s \<Rightarrow> bool"
  assumes put_ok: "alive s \<Longrightarrow> put s p = (None, s') \<Longrightarrow> alive s' \<and> held s' = held s @ p"
    and put_error: "alive s \<Longrightarrow> put s p = (Some e, s') \<Longrightarrow> s' = s"
begin

lemma puts_held:
  "alive s \<Longrightarrow> puts put s ps = (e, s') \<Longrightarrow>
   alive s' \<and> (\<exists>n. held s' = held s @ concat (take n ps) \<and> (e = None \<longrightarrow> n = length ps))"
proof (induction ps arbitrary: s)
  case (Cons p ps)
  obtain e1 s1 where p: "put s p = (e1, s1)" by (cases "put s p")
  show ?case
  proof (cases e1)
    case None
    with p put_ok Cons.prems have s1: "alive s1" "held s1 = held s @ p" "puts put s1 ps = (e, s')" by auto
    from Cons.IH [OF s1(1,3)] obtain n where "alive s'" "held s' = held s1 @ concat (take n ps)"
        "e = None \<longrightarrow> n = length ps" by blast
    with s1 show ?thesis by (intro conjI exI [of _ "Suc n"]) auto
  next
    case (Some a)
    with p put_error Cons.prems have "s' = s" "e = Some a" by auto
    with Cons.prems show ?thesis by (intro conjI exI [of _ 0]) auto
  qed
qed auto

end

text \<open>What a spool holds, and when it is in order.\<close>

definition spoolHeld :: "spoolWriter \<Rightarrow> byte list" where
  "spoolHeld s = (case spoolReader s of Some b \<Rightarrow> b | None \<Rightarrow> [])"

definition spoolAlive :: "spoolWriter \<Rightarrow> bool" where
  "spoolAlive s \<longleftrightarrow>
     (case (sp_f s, sp_buf s) of
        (None, Some b) \<Rightarrow> sp_size s = int (length b) \<and> int (length b) \<le> spoolThreshold
      | (Some f, None) \<Rightarrow> sp_size s = int (length f)
      | _ \<Rightarrow> False)"

interpretation spool: sink "spoolWrite tempOk" spoolHeld spoolAlive for tempOk
  by unfold_locales
    (auto simp: spoolWrite_def spoolAlive_def spoolHeld_def spoolReader_def split: option.splits if_splits)

section \<open>Properties\<close>

text \<open>
C32: A spool delivers exactly what was written to it, in order, wherever it keeps it, and never
keeps more than 4 MiB in memory. If a temporary file cannot be created, the write that needs
it reports that and leaves the spool as it was.
\<close>

theorem spool_delivers_writes:
  assumes "puts (spoolWrite tempOk) newSpoolWriter ps = (e, s)"
  shows "\<exists>n. spoolReader s = Some (concat (take n ps)) \<and> (tempOk \<longrightarrow> n = length ps)
    \<and> (e = None \<longrightarrow> n = length ps) \<and> (sp_f s = None \<longrightarrow> int (length (concat (take n ps))) \<le> spoolThreshold)"
proof -
  have new: "spoolAlive newSpoolWriter" "spoolHeld newSpoolWriter = []"
    by (simp_all add: spoolAlive_def newSpoolWriter_def spoolHeld_def spoolReader_def spoolThreshold_def)
  from spool.puts_held [OF new(1) assms] new(2) obtain n where
    s: "spoolAlive s" "spoolHeld s = concat (take n ps)" "e = None \<longrightarrow> n = length ps" by auto
  have "e = None" if "tempOk"
  proof -
    have "fst (puts (spoolWrite True) s0 ps) = None" if "spoolAlive s0" for s0
      using that
    proof (induction ps arbitrary: s0)
      case (Cons p ps)
      have "fst (spoolWrite True s0 p) = None"
        using Cons.prems by (auto simp: spoolWrite_def spoolAlive_def split: option.splits)
      then obtain s1 where p: "spoolWrite True s0 p = (None, s1)" by (metis prod.collapse)
      with spool.put_ok [OF Cons.prems p] Cons.IH [of s1] show ?case by simp
    qed simp
    from this [OF new(1)] show ?thesis using assms that by simp
  qed
  with s show ?thesis
    by (intro exI [of _ n])
      (auto simp: spoolAlive_def spoolHeld_def spoolReader_def split: option.splits)
qed

theorem spool_delivers_writes_witness:
  "\<exists>s. puts (spoolWrite True) newSpoolWriter [[1, 2], [], [3]] = (None, s) \<and> spoolReader s = Some [1, 2, 3]"
proof -
  obtain s where s: "puts (spoolWrite True) newSpoolWriter [[1, 2], [], [3]] = (None, s)"
    by (simp add: spoolWrite_def newSpoolWriter_def spoolThreshold_def)
  from spool_delivers_writes [OF s] s show ?thesis by auto
qed

end
