(* ===== verification/Spec2Isabelle.thy ===== *)
theory Spec2Isabelle
  imports Archive_RoundTrip Header_Typing Volumes Encoder_Pool File_Info Bra_Inverse Delta Bcj2 Spool Pool
begin

text \<open>
  A verification development of \<open>sevenzip\<close>, a 7-zip reader and writer in Go.

  \<^bold>\<open>The program.\<close> An archive is a signature header, packed streams and a header. The reader
  (\<open>reader.go\<close>) finds the signature, parses the header (\<open>types.go\<close>, data in \<open>struct.go\<close>), and
  opens a file as a range of the output of a folder, a chain of coders over packed streams
  (\<open>struct.go\<close>, decoders in \<open>internal/\<close>). The writer (\<open>writer.go\<close>) compresses and encrypts the
  contents into folders, and on \<open>Close\<close> writes the header (\<open>write_types.go\<close>, \<open>write_struct.go\<close>).

  \<^bold>\<open>Theories.\<close>
  \<^item> \<open>Prelude\<close>: bytes, errors, the buffered reader, parsers and the locales \<open>codec_view\<close> and
    \<open>codec\<close> (an encoder and a parser that undoes it).
  \<^item> \<open>Numbers\<close>: \<open>readUint64\<close>, \<open>readBool\<close>, \<open>readSizes\<close>, \<open>readCRC\<close> and their writers.
  \<^item> \<open>Structs\<close>, \<open>Streams_Lookup\<close>: the records of \<open>struct.go\<close>, \<open>FileFolderAndSize\<close>,
    \<open>folderOffset\<close>, file modes; the lookup against plain indexing.
  \<^item> \<open>Header_Read\<close>, \<open>Files_Read\<close>: the parser of \<open>types.go\<close>. \<open>Header_Write\<close>: \<open>write_struct.go\<close>.
  \<^item> \<open>Unicode\<close>: UTF-8 decoding of Go strings, UTF-16 and the contract of the text decoder.
  \<^item> \<open>Streams_RoundTrip\<close>, \<open>Files_RoundTrip\<close>, \<open>Header_RoundTrip\<close>: reading after writing.
  \<^item> \<open>Header_Typing\<close>: what the parser accepts, on any bytes, is well-formed.
  \<^item> \<open>Checksum\<close>: CRC-32 and \<open>util.CRC32Equal\<close>.
  \<^item> \<open>Aes7z\<close>, \<open>Aes_RoundTrip\<close>: \<open>internal/aes7z\<close> and the \<open>aesWriter\<close>.
  \<^item> \<open>Writer\<close>, \<open>Writer_Close\<close>: the state and operations of \<open>writer.go\<close>; \<open>Writer_Header\<close>: the
    header of a finished archive; \<open>Writer_Invariant\<close>: the invariant of all runs; \<open>Writer_Data\<close>: the
    bytes at the destination in all runs, and the progress of the coordinator.
  \<^item> \<open>Encoder_Pool\<close>: the pools of LZMA2 encoders of \<open>writer.go\<close>; why \<open>Writer\<close> can work with new encoders.
  \<^item> \<open>Io_Reader\<close>: reading in pieces and the locale \<open>io_reader\<close> of readers that deliver a fixed rest.
  \<^item> \<open>Bra\<close>, \<open>Bra_Stream\<close>, \<open>Bra_X86\<close>, \<open>Bra_Inverse\<close>: the branch filters of \<open>internal/bra\<close>.
  \<^item> \<open>Delta\<close>, \<open>Bcj2\<close>: the delta filter and the BCJ2 filter (\<open>internal/delta\<close>, \<open>internal/bcj2\<close>).
  \<^item> \<open>Spool\<close>: \<open>spool.go\<close>, with the locale \<open>sink\<close>. \<open>Pool\<close>: \<open>internal/pool\<close>, with the locale
    \<open>pooler_contract\<close>.
  \<^item> \<open>Paths\<close>, \<open>File_System\<close>, \<open>File_Listing\<close>: names of entries, the sorted entry list, look-up and
    directories (the second half of \<open>reader.go\<close>).
  \<^item> \<open>Folder_Reader\<close>: \<open>register.go\<close>, and \<open>folderReader\<close> of \<open>struct.go\<close>, which plugs the decoders of a
    folder together; a chain of coders is the composition of its decoders. Opening a decoder can
    change the properties of its coder, which are therefore part of the state of the archive.
  \<^item> \<open>File_Reader\<close>: \<open>File.Open\<close>, \<open>fileReader\<close> and \<open>Reader.Open\<close> of \<open>reader.go\<close>; the invariant of all
    interleavings of opens, reads and closes, for archives whose coders keep their properties
    (\<open>keepsProperties\<close>).
  \<^item> \<open>Archive_Open\<close>, \<open>Archive_Layout\<close>: \<open>findSignature\<close> and \<open>Reader.init\<close> of \<open>reader.go\<close>; the files of
    a folder lie one after the other. \<open>Volumes\<close>: \<open>openReader\<close>, \<open>OpenReader\<close> and \<open>ReadCloser.Close\<close>, over a
    file system with volumes. \<open>File_Info\<close>: what \<open>Stat\<close> and \<open>ReadDir\<close> say about an entry.
  \<^item> \<open>Util_Reader\<close>: \<open>internal/util/reader.go\<close>, with the locale \<open>byte_reader\<close>. \<open>Codecs\<close>, \<open>Codec_Pool\<close>: the
    eight packages that adapt decoders of other modules (\<open>internal/lzma\<close> to \<open>internal/ppmd\<close>), with the
    locale \<open>decoder_pool\<close>.
  \<^item> \<open>Archive_Bytes\<close>, \<open>Archive_RoundTrip\<close>: from the bytes of a finished archive back to its files. The
    round trip joins the invariants of the writer, the header, \<open>Reader.init\<close>, \<open>folderReader\<close> and the
    reads of files. It rests on named laws of other modules: \<open>lzma2_law\<close> (the decoder undoes the
    encoder, dictionaries of up to 3 GiB), the laws of the block cipher, of UTF-16 and of file times. It
    covers archives with an entry that is not a directory, with storable names and times; an archive of
    directories only cannot be read (theory \<open>Writer_Header\<close>). Each
    file is opened on the fresh archive, because opening a folder with a short password can
    overwrite its initialisation vector (theory \<open>Aes_RoundTrip\<close>).

  \<^bold>\<open>Conventions.\<close> Fixed-width integers are words and wrap around as in Go. A panic (index out of
  range, nil pointer) is the error \<open>Panic\<close>. Pointers into tables are indices. Loops are
  recursive functions with a termination proof, or partial functions (\<open>parentDirs\<close>, \<open>deltaOuter\<close>,
  \<open>volumeLoop\<close>) where the code may not end; no fuel is used. A reader that was not read yet
  is the stream it will deliver; the theories on the single decoders show that they deliver the
  same bytes however they are read.

  \<^bold>\<open>Not modelled.\<close> Code outside the repository is an argument: the block ciphers and hashes, the
  compressors and decompressors (LZMA, LZMA2, PPMd, Brotli, Zstandard, LZ4, Deflate, Bzip2), text
  and time conversions, the LRU lists, the file system, the reader over several volumes. Goroutines are
  interleaved at whole operations, so data races inside one operation are not seen; failing
  writes to the destination of a writer are not modelled.
\<close>

end
